(* ===== verification/Prelude.thy ===== *)
theory Prelude
  imports Main "HOL-Library.Word" "HOL-Library.List_Lexorder" "HOL-Library.Sublist"
begin

text \<open>
  Shared vocabulary of the development: the machine types of the C++ code, the bytes of an
  8-byte object in memory, and generic lemmas on sorted association lists, on prefixes under the
  lexicographic order and on words.

  A \<open>std::string\<close>, a \<open>leveldb::Slice\<close> and a \<open>Bytes\<close> are all a list of bytes. The order of
  \<open>std::string\<close>, of \<open>Bytes::compare\<close> and of LevelDB's default comparator is the lexicographic
  order on unsigned bytes, which is the order of \<open>HOL-Library.List_Lexorder\<close> on this type.
\<close>

unbundle bit_operations_syntax

type_synonym u8 = "8 word"
type_synonym u16 = "16 word"
type_synonym u32 = "32 word"
type_synonym u64 = "64 word"
type_synonym bytes = "u8 list"

text \<open>A C string literal as bytes (without the terminating zero).\<close>

definition lit :: "string \<Rightarrow> bytes" where
  "lit s = map of_char s"

text \<open>C division of \<open>int\<close> truncates towards zero; the remainder has the sign of the dividend.\<close>

definition c_div :: "int \<Rightarrow> int \<Rightarrow> int" where
  "c_div a b = sgn a * sgn b * (\<bar>a\<bar> div \<bar>b\<bar>)"

definition c_rem :: "int \<Rightarrow> int \<Rightarrow> int" where
  "c_rem a b = a - c_div a b * b"

lemma c_div_nonneg: "0 \<le> a \<Longrightarrow> 0 < b \<Longrightarrow> c_div a b = a div b"
  by (cases "a = 0") (simp_all add: c_div_def)

lemma c_rem_nonneg: "0 \<le> a \<Longrightarrow> 0 < b \<Longrightarrow> c_rem a b = a mod b"
  by (simp add: c_rem_def c_div_nonneg minus_div_mult_eq_mod)

named_theorems key_simps \<open>shapes of the encoded database keys\<close>
named_theorems db_simps \<open>effect of the database primitives on the table\<close>
named_theorems tran_simps \<open>effect of the transaction primitives on the state\<close>

section \<open>Association lists sorted by key\<close>

definition sorted_keys :: "('a::linorder \<times> 'b) list \<Rightarrow> bool" where
  "sorted_keys t \<longleftrightarrow> sorted_wrt (<) (map fst t)"

lemma sorted_keys_Nil [simp]: "sorted_keys []"
  by (simp add: sorted_keys_def)

lemma sorted_keys_Cons [simp]:
  "sorted_keys (e # t) \<longleftrightarrow> (\<forall>x \<in> set t. fst e < fst x) \<and> sorted_keys t"
  by (auto simp: sorted_keys_def)

lemma sorted_keys_append:
  "sorted_keys (xs @ ys) \<longleftrightarrow>
     sorted_keys xs \<and> sorted_keys ys \<and> (\<forall>x \<in> set xs. \<forall>y \<in> set ys. fst x < fst y)"
  by (induction xs) auto

lemma sorted_keys_hd_least: "sorted_keys (e # es) \<Longrightarrow> y \<in> set (e # es) \<Longrightarrow> fst e \<le> fst y"
  by (auto intro: less_imp_le)

lemma sorted_keys_last_greatest: "sorted_keys (es @ [e]) \<Longrightarrow> y \<in> set (es @ [e]) \<Longrightarrow> fst y \<le> fst e"
  by (auto simp: sorted_keys_append intro: less_imp_le)

lemma sorted_keys_filter: "sorted_keys t \<Longrightarrow> sorted_keys (filter P t)"
  by (induction t) auto

lemma sorted_keys_distinct: "sorted_keys t \<Longrightarrow> distinct (map fst t)"
  by (induction t) fastforce+

lemma sorted_keys_distinct_pairs: "sorted_keys t \<Longrightarrow> distinct t"
  by (drule sorted_keys_distinct) (simp add: distinct_map)

lemma map_of_filter_key:
  "map_of (filter (\<lambda>e. P (fst e)) t) k = (if P k then map_of t k else None)"
  by (induction t) auto

lemma sorted_keys_map_of:
  "sorted_keys t \<Longrightarrow> map_of t k = Some v \<longleftrightarrow> (k, v) \<in> set t"
  by (simp add: sorted_keys_distinct)

lemma filter_less_takeWhile:
  "sorted_keys t \<Longrightarrow> filter (\<lambda>e. fst e < k) t = takeWhile (\<lambda>e. fst e < k) t"
proof (induction t)
  case (Cons e t)
  show ?case
  proof (cases "fst e < k")
    case False
    with Cons.prems have "\<forall>x \<in> set t. \<not> fst x < k" by fastforce
    with False show ?thesis by simp
  qed (use Cons in simp)
qed simp

lemma filter_ge_dropWhile:
  "sorted_keys t \<Longrightarrow> filter (\<lambda>e. \<not> fst e < k) t = dropWhile (\<lambda>e. fst e < k) t"
proof (induction t)
  case (Cons e t)
  show ?case
  proof (cases "fst e < k")
    case False
    with Cons.prems have "\<forall>x \<in> set t. \<not> fst x < k" by fastforce
    with False show ?thesis by simp
  qed (use Cons in simp)
qed simp

section \<open>Prefixes under the lexicographic order\<close>

lemma append_less_append [simp]: "(p @ x < p @ (y :: 'a::linorder list)) = (x < y)"
  by (induction p) auto

lemma append_le_append [simp]: "(p @ x \<le> p @ (y :: 'a::linorder list)) = (x \<le> y)"
  by (induction p) auto

lemma prefix_le: "prefix p (x :: 'a::linorder list) \<Longrightarrow> p \<le> x"
  by (auto simp: prefix_def) (metis append_Nil2 append_le_append Nil_le_Cons)

lemma less_prefix_trans:
  fixes x y :: "'a::linorder list"
  shows "x < y \<Longrightarrow> \<not> prefix x y \<Longrightarrow> x @ u < y"
proof (induction x arbitrary: y)
  case Nil
  then show ?case by simp
next
  case (Cons a x)
  then show ?case by (cases y) auto
qed

text \<open>The keys that share a prefix form an interval of the order.\<close>

lemma prefix_interval:
  fixes p x y z :: "'a::linorder list"
  assumes "prefix p x" "prefix p z" "x \<le> y" "y \<le> z"
  shows "prefix p y"
proof (rule ccontr)
  assume n: "\<not> prefix p y"
  from assms(1,3) have "p \<le> y" by (meson order.trans prefix_le)
  with n have "p < y" by (metis order.not_eq_order_implies_strict prefix_order.refl)
  then have "p @ u < y" for u using n by (rule less_prefix_trans)
  moreover obtain u where "z = p @ u" using assms(2) by (auto simp: prefix_def)
  ultimately show False using assms(4) by (metis leD)
qed

lemma prefix_append_diff:
  assumes "length a = length b"
  shows "prefix (a @ x) (b @ y) \<longleftrightarrow> a = b \<and> prefix x y"
  using assms by (induction a b rule: list_induct2) auto

section \<open>The bytes of an 8-byte object\<close>

text \<open>
  \<open>memcpy\<close> and the casts between \<open>uint64_t *\<close> and \<open>char *\<close> on the little-endian hosts the
  library is built for: byte \<open>i\<close> of the object holds bits \<open>8 i\<close> to \<open>8 i + 7\<close>.
\<close>

definition mem64 :: "u64 \<Rightarrow> bytes" where
  "mem64 w = map (\<lambda>i. ucast (drop_bit (8 * i) w)) [0..<8]"

fun load_le :: "bytes \<Rightarrow> u64" where
  "load_le [] = 0"
| "load_le (b # bs) = ucast b OR push_bit 8 (load_le bs)"

definition load64 :: "bytes \<Rightarrow> u64" where
  "load64 bs = load_le (take 8 bs)"

lemma length_mem64 [simp]: "length (mem64 w) = 8"
  by (simp add: mem64_def)

lemma mem64_nonempty [simp]: "mem64 w \<noteq> []"
  by (simp add: mem64_def)

lemma nth_mem64: "i < 8 \<Longrightarrow> mem64 w ! i = ucast (drop_bit (8 * i) w)"
  by (simp add: mem64_def)

lemma bit_load_le:
  "n < 64 \<Longrightarrow> bit (load_le bs) n \<longleftrightarrow> n div 8 < length bs \<and> bit (bs ! (n div 8)) (n mod 8)"
proof (induction bs arbitrary: n)
  case (Cons b bs)
  show ?case
  proof (cases "n < 8")
    case True
    with Cons.prems show ?thesis by (simp add: bit_simps)
  next
    case False
    then obtain m where m: "n = m + 8" by (metis add.commute le_Suc_ex not_less)
    moreover have "\<not> bit b n" using False by (simp add: bit_word.rep_eq)
    moreover have "(m + 8) div 8 = Suc (m div 8)" by simp
    ultimately show ?thesis using Cons.prems Cons.IH [of m] by (simp add: bit_simps)
  qed
qed simp

lemma load64_mem64 [simp]: "load64 (mem64 w) = w"
proof (rule bit_word_eqI)
  fix n assume "n < LENGTH(64)"
  then have n: "n < 64" and d: "n div 8 < 8" by simp_all
  then have "bit (load64 (mem64 w)) n \<longleftrightarrow> bit (mem64 w ! (n div 8)) (n mod 8)"
    by (simp add: load64_def bit_load_le)
  also have "\<dots> \<longleftrightarrow> bit w (8 * (n div 8) + n mod 8)"
    using d by (simp add: nth_mem64 bit_simps)
  finally show "bit (load64 (mem64 w)) n \<longleftrightarrow> bit w n" by simp
qed

lemma load64_mem64_append [simp]: "load64 (mem64 w @ bs) = w"
proof -
  have "load64 (mem64 w @ bs) = load64 (mem64 w)" by (simp add: load64_def)
  then show ?thesis by simp
qed

lemma mem64_inject [simp]: "mem64 v = mem64 w \<longleftrightarrow> v = w"
  by (metis load64_mem64)

section \<open>Values of big-endian byte strings\<close>

definition be_val :: "bytes \<Rightarrow> nat" where
  "be_val bs = foldl (\<lambda>acc b. acc * 256 + unat b) 0 bs"

lemma be_val_foldl: "foldl (\<lambda>acc b. acc * 256 + unat b) a bs = a * 256 ^ length bs + be_val bs"
proof (induction bs rule: rev_induct)
  case Nil
  show ?case by (simp add: be_val_def)
next
  case (snoc b bs)
  then show ?case by (simp add: be_val_def algebra_simps)
qed

lemma be_val_Nil [simp]: "be_val [] = 0"
  by (simp add: be_val_def)

lemma be_val_snoc: "be_val (bs @ [b]) = be_val bs * 256 + unat b"
  by (simp add: be_val_def)

lemma be_val_Cons: "be_val (b # bs) = unat b * 256 ^ length bs + be_val bs"
  using be_val_foldl [of "unat b" bs] by (simp add: be_val_def)

lemma unat_u8_bound: "unat (b :: u8) < 256"
  using unsigned_less [of b] by simp

lemma be_val_bound: "be_val bs < 256 ^ length bs"
proof (induction bs)
  case (Cons b bs)
  have "be_val (b # bs) < unat b * 256 ^ length bs + 256 ^ length bs"
    using Cons.IH by (simp add: be_val_Cons)
  also have "\<dots> = (unat b + 1) * 256 ^ length bs" by simp
  also have "\<dots> \<le> 256 * 256 ^ length bs"
    using unat_u8_bound [of b] by (intro mult_right_mono) auto
  finally show ?case by simp
qed simp

lemma be_val_less:
  assumes "length xs = length ys"
  shows "xs < ys \<longleftrightarrow> be_val xs < be_val ys"
  using assms
proof (induction xs ys rule: list_induct2)
  case (Cons x xs y ys)
  let ?n = "(256::nat) ^ length xs"
  have bx: "be_val xs < ?n" and b_y: "be_val ys < ?n"
    using be_val_bound [of xs] be_val_bound [of ys] Cons.hyps by simp_all
  have lt: "unat a * ?n + r < unat b * ?n + s" if "unat a < unat b" "r < ?n" for a b :: u8 and r s
  proof -
    have "unat a * ?n + r < (unat a + 1) * ?n" using that(2) by simp
    also have "\<dots> \<le> unat b * ?n" using that(1) by (intro mult_right_mono) auto
    finally show ?thesis by simp
  qed
  show ?case
  proof (cases x y rule: linorder_cases)
    case less
    then have "unat x < unat y" by (simp add: word_less_nat_alt)
    from lt [OF this bx, of "be_val ys"] less Cons.hyps show ?thesis by (simp add: be_val_Cons)
  next
    case equal
    with Cons show ?thesis by (simp add: be_val_Cons)
  next
    case greater
    then have "unat y < unat x" by (simp add: word_less_nat_alt)
    from lt [OF this b_y, of "be_val xs"] greater Cons.hyps show ?thesis by (auto simp: be_val_Cons)
  qed
qed simp

end
