(* ===== verification/Const.thy ===== *)
theory Const
  imports Prelude
begin

text \<open>
  \<open>ssdb/ssdb/const.h\<close>: the limits, the first byte of each kind of database key
  (\<open>DataType\<close>), the log types (\<open>BinlogType\<close>) and the log commands (\<open>BinlogCommand\<close>).
\<close>

definition SSDB_KEY_LEN_MAX :: nat where [simp]: "SSDB_KEY_LEN_MAX = 255"

definition DT_SYNCLOG :: u8 where [simp]: "DT_SYNCLOG = 1"
definition DT_KV :: u8 where [simp]: "DT_KV = 107"
definition DT_HASH :: u8 where [simp]: "DT_HASH = 104"
definition DT_HSIZE :: u8 where [simp]: "DT_HSIZE = 72"
definition DT_ZSET :: u8 where [simp]: "DT_ZSET = 115"
definition DT_ZSCORE :: u8 where [simp]: "DT_ZSCORE = 122"
definition DT_ZSIZE :: u8 where [simp]: "DT_ZSIZE = 90"
definition DT_QUEUE :: u8 where [simp]: "DT_QUEUE = 113"
definition DT_QSIZE :: u8 where [simp]: "DT_QSIZE = 81"

definition BT_NOOP :: u8 where [simp]: "BT_NOOP = 0"
definition BT_SYNC :: u8 where [simp]: "BT_SYNC = 1"
definition BT_MIRROR :: u8 where [simp]: "BT_MIRROR = 2"
definition BT_COPY :: u8 where [simp]: "BT_COPY = 3"
definition BT_CTRL :: u8 where [simp]: "BT_CTRL = 4"

definition BC_NONE :: u8 where [simp]: "BC_NONE = 0"
definition BC_KSET :: u8 where [simp]: "BC_KSET = 1"
definition BC_KDEL :: u8 where [simp]: "BC_KDEL = 2"
definition BC_HSET :: u8 where [simp]: "BC_HSET = 3"
definition BC_HDEL :: u8 where [simp]: "BC_HDEL = 4"
definition BC_ZSET :: u8 where [simp]: "BC_ZSET = 5"
definition BC_ZDEL :: u8 where [simp]: "BC_ZDEL = 6"
definition BC_BEGIN :: u8 where [simp]: "BC_BEGIN = 7"
definition BC_END :: u8 where [simp]: "BC_END = 8"
definition BC_QPUSH_BACK :: u8 where [simp]: "BC_QPUSH_BACK = 10"
definition BC_QPUSH_FRONT :: u8 where [simp]: "BC_QPUSH_FRONT = 11"
definition BC_QPOP_BACK :: u8 where [simp]: "BC_QPOP_BACK = 12"
definition BC_QPOP_FRONT :: u8 where [simp]: "BC_QPOP_FRONT = 13"
definition BC_QSET :: u8 where [simp]: "BC_QSET = 14"

end
