(* ===== verification/Util_Strings.thy ===== *)
theory Util_Strings
  imports Prelude
begin

text \<open>
  \<open>ssdb/util/strings.h\<close>: white-space trimming, escaping, number printing and parsing, slices,
  bit counting and byte swapping. Results of the parsers carry the state of \<open>errno\<close> the callers
  look at: the second component is whether \<open>errno\<close> is non-zero after the call. The code relies on
  LP64 (\<open>long\<close> has 64 bits), so \<open>strtol\<close> and \<open>strtoll\<close> agree.
\<close>

section \<open>White space\<close>

definition isspace :: "u8 \<Rightarrow> bool" where
  "isspace c \<longleftrightarrow> c = 32 \<or> (9 \<le> c \<and> c \<le> 13)"

text \<open>The characters of a C string up to its terminating zero.\<close>

definition c_str :: "bytes \<Rightarrow> bytes" where
  "c_str s = takeWhile (\<lambda>c. c \<noteq> 0) s"

definition ltrim :: "bytes \<Rightarrow> bytes" where
  "ltrim s = dropWhile isspace (c_str s)"

definition rtrim :: "bytes \<Rightarrow> bytes" where
  "rtrim s = rev (dropWhile isspace (rev (c_str s)))"

definition trim :: "bytes \<Rightarrow> bytes" where
  "trim s = rtrim (ltrim s)"

definition is_empty_str :: "bytes \<Rightarrow> bool" where
  "is_empty_str s \<longleftrightarrow> dropWhile isspace (c_str s) = []"

definition tolower :: "u8 \<Rightarrow> u8" where
  "tolower c = (if 65 \<le> c \<and> c \<le> 90 then c + 32 else c)"

definition toupper :: "u8 \<Rightarrow> u8" where
  "toupper c = (if 97 \<le> c \<and> c \<le> 122 then c - 32 else c)"

definition strtolower :: "bytes \<Rightarrow> bytes" where
  "strtolower s = map tolower s"

definition strtoupper :: "bytes \<Rightarrow> bytes" where
  "strtoupper s = map toupper s"

section \<open>Escaping\<close>

definition hex_digit :: "u8 \<Rightarrow> u8" where
  "hex_digit d = (if d < 10 then 48 + d else 87 + d)"

definition escape_char :: "u8 \<Rightarrow> bytes" where
  "escape_char c =
     (if c = 13 then [92, 114]
      else if c = 10 then [92, 110]
      else if c = 9 then [92, 116]
      else if c = 92 then [92, 92]
      else if c = 32 then [c]
      else if 33 \<le> c \<and> c \<le> 126 then [c]
      else [92, 120, hex_digit (drop_bit 4 c), hex_digit (c AND 15)])"

fun str_escape :: "bytes \<Rightarrow> bytes" where
  "str_escape [] = []"
| "str_escape (c # s) = escape_char c @ str_escape s"

definition hexmem :: "bytes \<Rightarrow> bytes" where
  "hexmem s = str_escape s"

definition hex_int :: "u8 \<Rightarrow> u8" where
  "hex_int c = (if 48 \<le> c \<and> c \<le> 57 then c - 48 else c - 97 + 10)"

fun str_unescape :: "bytes \<Rightarrow> bytes" where
  "str_unescape [] = []"
| "str_unescape (c # s) =
     (if c \<noteq> 92 then c # str_unescape s
      else case s of
        [] \<Rightarrow> []
      | c2 # r \<Rightarrow>
          if c2 = 97 then 7 # str_unescape r
          else if c2 = 98 then 8 # str_unescape r
          else if c2 = 102 then 12 # str_unescape r
          else if c2 = 118 then 11 # str_unescape r
          else if c2 = 114 then 13 # str_unescape r
          else if c2 = 110 then 10 # str_unescape r
          else if c2 = 116 then 9 # str_unescape r
          else if c2 = 92 then 92 # str_unescape r
          else if c2 = 120 then
            (case r of
               c3 # c4 # r' \<Rightarrow> (push_bit 4 (hex_int c3) + hex_int c4) # str_unescape r'
             | _ \<Rightarrow> str_unescape r)
          else c2 # str_unescape r)"

lemma hex_int_hex_digit: "d < 16 \<Longrightarrow> hex_int (hex_digit d) = d"
  by (auto simp: hex_int_def hex_digit_def word_less_nat_alt word_le_nat_alt unat_word_ariths
      unat_sub_if' word_unat_eq_iff)

lemma mask4: "(15 :: u8) = mask 4"
  by (simp add: mask_eq_exp_minus_1)

lemma hex_pair: "push_bit 4 (drop_bit 4 c) + (c AND 15) = (c :: u8)"
proof -
  have "push_bit 4 (drop_bit 4 c) AND (c AND 15) = 0"
    unfolding mask4 by (rule bit_word_eqI) (auto simp: bit_simps)
  then have "push_bit 4 (drop_bit 4 c) + (c AND 15) = push_bit 4 (drop_bit 4 c) OR (c AND 15)"
    by (rule disjunctive_add_eq_or)
  also have "\<dots> = c"
    unfolding mask4 by (rule bit_word_eqI) (auto simp: bit_simps)
  finally show ?thesis .
qed

lemma nibble_bounds: "drop_bit 4 c < (16 :: u8)" "c AND 15 < (16 :: u8)"
proof -
  have "unat (drop_bit 4 c) < 16"
  proof -
    have "unat (drop_bit 4 c) = unat c div 16"
      by (subst unat_drop_bit_eq) (simp add: drop_bit_eq_div)
    then show ?thesis using unat_u8_bound [of c] by linarith
  qed
  then show "drop_bit 4 c < (16 :: u8)"
    by (simp only: word_less_nat_alt) simp
  have "c AND 15 \<le> (15 :: u8)" by (rule word_and_le1)
  also have "(15 :: u8) < 16" by simp
  finally show "c AND 15 < (16 :: u8)" .
qed

lemma hex_byte [simp]:
  "push_bit 4 (hex_int (hex_digit (drop_bit 4 c))) + hex_int (hex_digit (c AND 15)) = c"
  by (simp only: hex_int_hex_digit nibble_bounds hex_pair)

lemma str_unescape_escape_char: "str_unescape (escape_char c @ s) = c # str_unescape s"
proof -
  have "str_unescape ([92, 120, hex_digit (drop_bit 4 c), hex_digit (c AND 15)] @ s)
      = c # str_unescape s"
    using hex_byte [of c] by simp
  then show ?thesis by (auto simp: escape_char_def simp del: hex_byte)
qed

text \<open>
  \<open>str_unescape\<close> undoes \<open>str_escape\<close> on every byte string.
\<close>

lemma str_escape_roundtrip: "str_unescape (str_escape s) = s"
  by (induction s) (simp_all add: str_unescape_escape_char)

section \<open>Printing and parsing integers\<close>

type_synonym i64 = "64 word"

text \<open>
  A signed 64-bit integer is a word read by \<open>sint\<close>. The printers write into a buffer of 21
  bytes, so at most 20 characters survive.
\<close>

fun dec_digits :: "nat \<Rightarrow> bytes" where
  "dec_digits n =
     (if n < 10 then [48 + of_nat n] else dec_digits (n div 10) @ [48 + of_nat (n mod 10)])"

declare dec_digits.simps [simp del]

definition dec_int :: "int \<Rightarrow> bytes" where
  "dec_int v = (if v < 0 then 45 # dec_digits (nat (- v)) else dec_digits (nat v))"

definition str_int :: "int \<Rightarrow> bytes" where
  "str_int v = take 20 (dec_int v)"

definition str_i64 :: "i64 \<Rightarrow> bytes" where
  "str_i64 v = take 20 (dec_int (sint v))"

definition str_u64 :: "u64 \<Rightarrow> bytes" where
  "str_u64 v = take 20 (dec_digits (unat v))"

definition isdigit :: "u8 \<Rightarrow> bool" where
  "isdigit c \<longleftrightarrow> 48 \<le> c \<and> c \<le> 57"

definition dec_val :: "bytes \<Rightarrow> nat" where
  "dec_val ds = foldl (\<lambda>a c. a * 10 + (unat c - 48)) 0 ds"

text \<open>
  The scan all of \<open>strtol\<close>, \<open>strtoll\<close> and \<open>strtoull\<close> make in base 10: leading white space, an
  optional sign, digits. The result is the sign, the magnitude and the offset of the first
  character not used, which is 0 when there is no digit.
\<close>

definition strto_scan :: "bytes \<Rightarrow> bool \<times> nat \<times> nat" where
  "strto_scan str =
     (let s = c_str str;
          r = dropWhile isspace s;
          neg = (case r of c # _ \<Rightarrow> c = 45 | [] \<Rightarrow> False);
          sg = (case r of c # _ \<Rightarrow> (if c = 45 \<or> c = 43 then 1 else 0) | [] \<Rightarrow> 0);
          ds = takeWhile isdigit (drop sg r)
      in if ds = [] then (False, 0, 0)
         else (neg, dec_val ds, length (takeWhile isspace s) + sg + length ds))"

definition int64_max :: int where "int64_max = 9223372036854775807"
definition int64_min :: int where "int64_min = - 9223372036854775808"

definition strtoll :: "bytes \<Rightarrow> int \<times> nat" where
  "strtoll str =
     (let (neg, m, e) = strto_scan str; v = (if neg then - int m else int m)
      in (max int64_min (min int64_max v), e))"

definition strtoull :: "bytes \<Rightarrow> u64 \<times> nat" where
  "strtoull str =
     (let (neg, m, e) = strto_scan str
      in (if m \<ge> 2 ^ 64 then - 1 else if neg then - of_nat m else of_nat m, e))"

text \<open>
  The test after the call: the character at \<open>end\<close> is the terminating zero and the whole
  \<open>std::string\<close> was used. Only then is \<open>errno\<close> reset to 0.
\<close>

definition parsed_whole :: "bytes \<Rightarrow> nat \<Rightarrow> bool" where
  "parsed_whole str e \<longleftrightarrow> e = length (c_str str) \<and> e = length str"

definition str_to_int64 :: "bytes \<Rightarrow> i64 \<times> bool" where
  "str_to_int64 str =
     (let (v, e) = strtoll str in (word_of_int v, \<not> parsed_whole str e))"

definition str_to_int :: "bytes \<Rightarrow> int \<times> bool" where
  "str_to_int str =
     (let (v, e) = strtoll str in (sint (word_of_int v :: 32 word), \<not> parsed_whole str e))"

definition str_to_uint64 :: "bytes \<Rightarrow> u64 \<times> bool" where
  "str_to_uint64 str =
     (let (v, e) = strtoull str in (v, \<not> parsed_whole str e))"

subsection \<open>The decimal representation\<close>

lemma dec_val_Nil [simp]: "dec_val [] = 0"
  by (simp add: dec_val_def)

lemma dec_val_snoc [simp]: "dec_val (ds @ [d]) = dec_val ds * 10 + (unat d - 48)"
  by (simp add: dec_val_def)

lemma unat_digit: "d < 10 \<Longrightarrow> unat (48 + of_nat d :: u8) = 48 + d"
  by (simp add: unat_word_ariths unat_of_nat)

lemma isdigit_unat: "isdigit c \<longleftrightarrow> 48 \<le> unat c \<and> unat c \<le> 57"
  by (simp add: isdigit_def word_le_nat_alt)

lemma dec_digits_digit: "d < 10 \<Longrightarrow> isdigit (48 + of_nat d)"
  by (simp add: isdigit_unat unat_digit)

lemma dec_digits_nonempty [simp]: "dec_digits n \<noteq> []"
  by (subst dec_digits.simps) simp

lemma dec_digits_isdigit: "c \<in> set (dec_digits n) \<Longrightarrow> isdigit c"
proof (induction n rule: dec_digits.induct)
  case (1 n)
  then show ?case
    by (subst (asm) dec_digits.simps) (auto simp: dec_digits_digit split: if_splits)
qed

lemma dec_val_dec_digits: "dec_val (dec_digits n) = n"
proof (induction n rule: dec_digits.induct)
  case (1 n)
  show ?case
  proof (cases "n < 10")
    case True
    then show ?thesis
      using dec_val_snoc [of "[]" "48 + of_nat n"] by (subst dec_digits.simps) (simp add: unat_digit)
  next
    case False
    with 1 show ?thesis by (subst dec_digits.simps) (simp add: unat_digit)
  qed
qed

lemma length_dec_digits: "n < 10 ^ k \<Longrightarrow> 0 < k \<Longrightarrow> length (dec_digits n) \<le> k"
proof (induction n arbitrary: k rule: dec_digits.induct)
  case (1 n)
  show ?case
  proof (cases "n < 10")
    case True
    with 1 show ?thesis by (subst dec_digits.simps) simp
  next
    case False
    obtain j where k: "k = Suc j" using 1 by (cases k) auto
    with 1 False have "0 < j" by (cases j) auto
    moreover have "n div 10 < 10 ^ j" using 1 k by (simp add: less_mult_imp_div_less mult.commute)
    ultimately have "length (dec_digits (n div 10)) \<le> j" using 1 False by blast
    with False k show ?thesis by (subst dec_digits.simps) simp
  qed
qed

lemma c_str_id: "0 \<notin> set s \<Longrightarrow> c_str s = s"
  by (auto simp: c_str_def takeWhile_eq_all_conv)

lemma digit_not_space: "isdigit c \<Longrightarrow> \<not> isspace c \<and> c \<noteq> 45 \<and> c \<noteq> 43 \<and> c \<noteq> 0"
  by (auto simp: isdigit_unat isspace_def word_le_nat_alt)

lemma strto_scan_digits:
  assumes "ds \<noteq> []" "\<forall>c \<in> set ds. isdigit c"
  shows "strto_scan ds = (False, dec_val ds, length ds)"
    and "strto_scan (45 # ds) = (True, dec_val ds, Suc (length ds))"
    and "strto_scan (43 # ds) = (False, dec_val ds, Suc (length ds))"
proof -
  obtain c cs where ds: "ds = c # cs" using assms(1) by (cases ds) auto
  have z: "0 \<notin> set ds" using assms(2) digit_not_space by blast
  have c: "\<not> isspace c" "c \<noteq> 45" "c \<noteq> 43" using assms(2) ds digit_not_space by auto
  have tw: "takeWhile isdigit ds = ds" using assms(2) by (simp add: takeWhile_eq_all_conv)
  show "strto_scan ds = (False, dec_val ds, length ds)"
    using z c tw ds by (simp add: strto_scan_def c_str_id)
  have "\<not> isspace 45" by (simp add: isspace_def)
  moreover have "c_str (45 # ds) = 45 # ds" using z by (intro c_str_id) auto
  ultimately show "strto_scan (45 # ds) = (True, dec_val ds, Suc (length ds))"
    using assms(1) by (simp add: strto_scan_def tw)
  have "\<not> isspace 43" by (simp add: isspace_def)
  moreover have "c_str (43 # ds) = 43 # ds" using z by (intro c_str_id) auto
  ultimately show "strto_scan (43 # ds) = (False, dec_val ds, Suc (length ds))"
    using assms(1) by (simp add: strto_scan_def tw)
qed

lemma strto_scan_dec_digits:
  "strto_scan (dec_digits n) = (False, n, length (dec_digits n))"
  "strto_scan (45 # dec_digits n) = (True, n, Suc (length (dec_digits n)))"
  "strto_scan (43 # dec_digits n) = (False, n, Suc (length (dec_digits n)))"
  using strto_scan_digits [of "dec_digits n"] dec_digits_isdigit dec_val_dec_digits by auto

lemma dec_int_no_zero: "0 \<notin> set (dec_int v)"
  by (auto simp: dec_int_def dest!: dec_digits_isdigit digit_not_space)

lemma strtoll_dec_int:
  assumes "int64_min \<le> v" "v \<le> int64_max"
  shows "strtoll (dec_int v) = (v, length (dec_int v))"
  using assms by (auto simp: strtoll_def dec_int_def strto_scan_dec_digits int64_min_def int64_max_def)

lemma sint64_bounds: "int64_min \<le> sint (v :: i64)" "sint (v :: i64) \<le> int64_max"
  using sint_range_size [of v] by (simp_all add: word_size int64_min_def int64_max_def)

lemma length_dec_int: "int64_min \<le> v \<Longrightarrow> v \<le> int64_max \<Longrightarrow> length (dec_int v) \<le> 20"
  using length_dec_digits [of "nat (- v)" 19] length_dec_digits [of "nat v" 19]
  by (auto simp: dec_int_def int64_min_def int64_max_def nat_less_iff)

lemma str_i64_dec_int: "str_i64 v = dec_int (sint v)"
  using length_dec_int [OF sint64_bounds, of v] by (simp add: str_i64_def)

lemma length_str_i64: "length (str_i64 v) \<le> 20"
  by (simp add: str_i64_def)

lemma str_i64_nonempty [simp]: "str_i64 v \<noteq> []"
  by (simp add: str_i64_dec_int dec_int_def)

lemma str_to_int64_str_i64: "str_to_int64 (str_i64 v) = (v, False)"
proof -
  have "strtoll (str_i64 v) = (sint v, length (str_i64 v))"
    by (simp add: str_i64_dec_int strtoll_dec_int sint64_bounds)
  moreover have "c_str (str_i64 v) = str_i64 v"
    by (simp add: str_i64_dec_int c_str_id dec_int_no_zero)
  ultimately show ?thesis
    by (simp add: str_to_int64_def parsed_whole_def)
qed

lemma str_i64_inject: "str_i64 v = str_i64 w \<longleftrightarrow> v = w"
  by (metis fst_conv str_to_int64_str_i64)

section \<open>Slices and bit counts\<close>

text \<open>\<open>std::string::substr(pos, n)\<close> for a position inside the string.\<close>

definition std_substr :: "bytes \<Rightarrow> nat \<Rightarrow> nat \<Rightarrow> bytes" where
  "std_substr s pos n = take n (drop pos s)"

definition substr :: "bytes \<Rightarrow> int \<Rightarrow> int \<Rightarrow> bytes" where
  "substr str start0 size0 =
     (let len = int (length str);
          start = (if start0 < 0 then len + start0 else start0);
          size = (if size0 < 0 then (len + size0) - start else size0)
      in if start < 0 \<or> start \<ge> len \<or> size < 0 then []
         else std_substr str (nat start) (nat size))"

definition str_slice :: "bytes \<Rightarrow> int \<Rightarrow> int \<Rightarrow> bytes" where
  "str_slice str start0 end =
     (let len = int (length str);
          start = (if start0 < 0 then len + start0 else start0);
          size = (if end < 0 then (len + end + 1) - start else end - start + 1)
      in if start < 0 \<or> start \<ge> len \<or> size < 0 then []
         else std_substr str (nat start) (nat size))"

text \<open>The inner loop of \<open>bitcount\<close> shifts the byte right until it is 0.\<close>

function byte_bits :: "u8 \<Rightarrow> nat" where
  "byte_bits c = (if c = 0 then 0 else unat (c AND 1) + byte_bits (drop_bit 1 c))"
  by pat_completeness auto
termination
proof (relation "measure unat")
  fix c :: u8 assume "c \<noteq> 0"
  then have "unat c > 0" by (simp add: unat_gt_0)
  moreover have "unat (drop_bit 1 c) = unat c div 2"
    by (subst unat_drop_bit_eq) (simp add: drop_bit_eq_div)
  ultimately show "(drop_bit 1 c, c) \<in> measure unat" by simp
qed simp

declare byte_bits.simps [simp del]

fun bitcount :: "bytes \<Rightarrow> nat" where
  "bitcount [] = 0"
| "bitcount (c # s) = byte_bits c + bitcount s"

section \<open>Byte order\<close>

definition big_endian16 :: "u16 \<Rightarrow> u16" where
  "big_endian16 v = drop_bit 8 v OR push_bit 8 v"

definition big_endian32 :: "u32 \<Rightarrow> u32" where
  "big_endian32 v =
     drop_bit 24 v OR (drop_bit 8 v AND 0xff00) OR (push_bit 8 v AND 0xff0000) OR push_bit 24 v"

definition big_endian64 :: "u64 \<Rightarrow> u64" where
  "big_endian64 v =
     (let h = ucast (drop_bit 32 v) :: u32;
          l = ucast (v AND 0xffffffff) :: u32
      in ucast (big_endian32 h) OR push_bit 32 (ucast (big_endian32 l)))"

lemma byte_masks:
  "(0xff00 :: u32) = push_bit 8 (mask 8)"
  "(0xff0000 :: u32) = push_bit 16 (mask 8)"
  "(0xffffffff :: u64) = mask 32"
  by (simp_all add: mask_eq_exp_minus_1 push_bit_eq_mult)

lemma bit_big_endian32:
  assumes "k < 4" "m < 8"
  shows "bit (big_endian32 v) (8 * k + m) \<longleftrightarrow> bit v (24 - 8 * k + m)"
proof -
  from assms(1) consider "k = 0" | "k = 1" | "k = 2" | "k = 3" by linarith
  then show ?thesis
    using assms(2)
    by cases (auto simp: big_endian32_def byte_masks bit_simps dest: bit_imp_le_length)
qed

lemma bit_big_endian64:
  assumes "k < 8" "m < 8"
  shows "bit (big_endian64 v) (8 * k + m) \<longleftrightarrow> bit v (56 - 8 * k + m)"
proof (cases "k < 4")
  case True
  then have "bit (big_endian64 v) (8 * k + m) \<longleftrightarrow>
      bit (big_endian32 (ucast (drop_bit 32 v))) (8 * k + m)"
    using assms(2) by (simp add: big_endian64_def bit_simps)
  also have "\<dots> \<longleftrightarrow> bit v (32 + (24 - 8 * k + m))"
  proof -
    have "24 + m - 8 * k < 32" using assms(2) by simp
    then show ?thesis using True assms(2) by (simp add: bit_big_endian32 bit_simps)
  qed
  finally show ?thesis using True by simp
next
  case False
  define j where "j = k - 4"
  have k: "k = j + 4" "j < 4" using False assms(1) by (auto simp: j_def)
  then have "bit (big_endian64 v) (8 * k + m) \<longleftrightarrow>
      bit (big_endian32 (ucast (v AND 0xffffffff))) (8 * j + m)"
    using assms(2) by (auto simp: big_endian64_def bit_simps dest: bit_imp_le_length)
  also have "\<dots> \<longleftrightarrow> bit v (24 - 8 * j + m)"
  proof -
    have "24 + m - 8 * j < 32" "24 + m - 8 * j < 64" using assms(2) by simp_all
    then show ?thesis using k assms(2) by (simp add: bit_big_endian32 byte_masks bit_simps)
  qed
  finally show ?thesis using k by simp
qed

lemma mem64_big_endian64: "mem64 (big_endian64 v) = rev (mem64 v)"
proof (rule nth_equalityI)
  fix i assume "i < length (mem64 (big_endian64 v))"
  then have i: "i < 8" by simp
  have "ucast (drop_bit (8 * i) (big_endian64 v)) = (ucast (drop_bit (8 * (7 - i)) v) :: u8)"
  proof (rule bit_word_eqI)
    fix m assume "m < LENGTH(8)"
    then have m: "m < 8" by simp
    with i show "bit (ucast (drop_bit (8 * i) (big_endian64 v)) :: u8) m \<longleftrightarrow>
        bit (ucast (drop_bit (8 * (7 - i)) v) :: u8) m"
      by (simp add: bit_simps bit_big_endian64 right_diff_distrib')
  qed
  with i show "mem64 (big_endian64 v) ! i = rev (mem64 v) ! i"
    by (simp add: nth_mem64 rev_nth)
qed simp

lemma big_endian64_involution: "big_endian64 (big_endian64 v) = v"
  by (metis mem64_big_endian64 mem64_inject rev_rev_ident)

lemma be_val_rev_mem64: "be_val (rev (mem64 v)) = unat v"
proof -
  have le: "unat (load_le bs) = be_val (rev bs)" if "length bs \<le> 8" for bs
    using that
  proof (induction bs)
    case (Cons b bs)
    have bound: "unat (load_le bs) < 256 ^ length bs"
      using Cons be_val_bound [of "rev bs"] by simp
    have "(256::nat) ^ length bs \<le> 256 ^ 7" using Cons.prems by (intro power_increasing) auto
    with bound have b7: "unat (load_le bs) < 2 ^ 56" by simp
    have "ucast b AND push_bit 8 (load_le bs) = 0"
      by (rule bit_word_eqI) (auto simp: bit_simps dest: bit_imp_le_length)
    then have "load_le (b # bs) = ucast b + push_bit 8 (load_le bs)"
      by (simp add: disjunctive_add_eq_or)
    also have "unat \<dots> = unat b + 256 * unat (load_le bs)"
    proof -
      have "unat (ucast b :: u64) = unat b"
        using unat_u8_bound [of b] by (simp add: unsigned_ucast_eq take_bit_nat_eq_self)
      then show ?thesis
        using b7 unat_u8_bound [of b] by (simp add: push_bit_eq_mult unat_word_ariths)
    qed
    finally have "unat (load_le (b # bs)) = unat b + 256 * unat (load_le bs)" .
    then show ?case using Cons by (simp add: be_val_snoc)
  qed simp
  have "unat v = unat (load_le (mem64 v))"
    using load64_mem64 [of v] by (simp add: load64_def)
  then show ?thesis by (simp add: le)
qed

text \<open>The big-endian image of a sequence number sorts like the number.\<close>

lemma big_endian64_order: "mem64 (big_endian64 v) < mem64 (big_endian64 w) \<longleftrightarrow> v < w"
  by (simp add: mem64_big_endian64 be_val_less be_val_rev_mem64 word_less_nat_alt)

text \<open>
  The number an increment computes from the stored value, and whether it gives up. The sum wraps, as
  that of the machine does; C++ leaves the overflow of the signed sum undefined.
\<close>

definition incr_value :: "bytes option \<Rightarrow> i64 \<Rightarrow> i64 \<times> bool" where
  "incr_value old by =
     (case old of None \<Rightarrow> (by, False) | Some o' \<Rightarrow> (let (v, e) = str_to_int64 o' in (v + by, e)))"

end
