(* ===== verification/Leveldb.thy ===== *)
theory Leveldb
  imports Prelude
begin

text \<open>
  The storage engine as its client sees it, by the contract its headers document
  (\<open>leveldb/include/db.h\<close>, \<open>iterator.h\<close>, \<open>write_batch.h\<close>, \<open>status.h\<close>): an ordered map from
  keys to values with point reads, atomic write batches and iterators over a snapshot. The
  engine behind the contract (log, memtable, table files, compaction) is not modelled here.

  Failures are part of the state. \<open>unreadable\<close> holds the keys whose \<open>Get\<close> reports an error
  other than not-found, and \<open>wfaults\<close> is the schedule of the coming writes: \<open>True\<close> makes one
  write fail without effect; an exhausted schedule means no more failures. Both are arbitrary
  in every theorem that does not fix them.
\<close>

section \<open>The table\<close>

type_synonym table = "(bytes \<times> bytes) list"

datatype ('k, 'v) wop = WPut 'k 'v | WDel 'k

type_synonym batch = "(bytes, bytes) wop list"

definition tput :: "bytes \<Rightarrow> bytes \<Rightarrow> table \<Rightarrow> table" where
  "tput k v t = filter (\<lambda>e. fst e < k) t @ (k, v) # filter (\<lambda>e. k < fst e) t"

definition tdel :: "bytes \<Rightarrow> table \<Rightarrow> table" where
  "tdel k t = filter (\<lambda>e. fst e \<noteq> k) t"

fun wop_key :: "('k, 'v) wop \<Rightarrow> 'k" where
  "wop_key (WPut k v) = k"
| "wop_key (WDel k) = k"

fun tstep :: "(bytes, bytes) wop \<Rightarrow> table \<Rightarrow> table" where
  "tstep (WPut k v) t = tput k v t"
| "tstep (WDel k) t = tdel k t"

definition tbatch :: "batch \<Rightarrow> table \<Rightarrow> table" where
  "tbatch ops t = fold tstep ops t"

text \<open>The effect of a batch on the map a table stands for.\<close>

fun mstep :: "('k, 'v) wop \<Rightarrow> ('k \<rightharpoonup> 'v) \<Rightarrow> ('k \<rightharpoonup> 'v)" where
  "mstep (WPut k v) m = m(k \<mapsto> v)"
| "mstep (WDel k) m = m(k := None)"

lemma fold_mstep_keys:
  assumes "fold mstep ws m x = Some v"
    "\<And>x v. m x = Some v \<Longrightarrow> P x" "\<And>x v. WPut x v \<in> set ws \<Longrightarrow> P x"
  shows "P x"
  using assms
proof (induction ws arbitrary: m)
  case (Cons w ws)
  show ?case
  proof (rule Cons.IH)
    show "fold mstep ws (mstep w m) x = Some v" using Cons.prems(1) by simp
    show "P y" if "mstep w m y = Some u" for y u
      using that Cons.prems(2) [of y u] Cons.prems(3) [of y u] by (cases w) (auto split: if_splits)
    show "P y" if "WPut y u \<in> set ws" for y u
      using that Cons.prems(3) [of y u] by simp
  qed
qed auto

section \<open>The interface\<close>

locale kv_store =
  fixes get :: "'t \<Rightarrow> 'k \<rightharpoonup> 'v"
    and step :: "('k, 'v) wop \<Rightarrow> 't \<Rightarrow> 't"
  assumes get_step: "get (step w t) = mstep w (get t)"
begin

lemma get_run: "get (fold step ws t) = fold mstep ws (get t)"
  by (induction ws arbitrary: t) (simp_all add: get_step)

lemma get_run_untouched:
  "k \<notin> wop_key ` set ws \<Longrightarrow> get (fold step ws t) k = get t k"
proof (induction ws arbitrary: t)
  case (Cons w ws)
  then show ?case by (cases w) (auto simp: get_step)
qed simp

lemma get_run_last:
  "k \<notin> wop_key ` set ws \<Longrightarrow> get (fold step (us @ WPut k v # ws) t) k = Some v"
  "k \<notin> wop_key ` set ws \<Longrightarrow> get (fold step (us @ WDel k # ws) t) k = None"
  using get_run_untouched [of k ws] by (simp_all add: get_step)

end

text \<open>
  A store that can also be enumerated in key order, with one entry for each key: what the
  iterators rely on.
\<close>

locale ordered_store = kv_store get step
  for get :: "'t \<Rightarrow> 'k::linorder \<rightharpoonup> 'v" and step +
  fixes entries :: "'t \<Rightarrow> ('k \<times> 'v) list"
    and ok :: "'t \<Rightarrow> bool"
  assumes entries_get: "map_of (entries t) = get t"
    and ok_sorted: "ok t \<Longrightarrow> sorted_keys (entries t)"
    and ok_step: "ok t \<Longrightarrow> ok (step w t)"
begin

lemma ok_run: "ok t \<Longrightarrow> ok (fold step ws t)"
  by (induction ws arbitrary: t) (simp_all add: ok_step)

lemma entries_set: "ok t \<Longrightarrow> (k, v) \<in> set (entries t) \<longleftrightarrow> get t k = Some v"
  using sorted_keys_map_of [OF ok_sorted] by (simp add: entries_get)

lemma entries_dom: "fst ` set (entries t) = dom (get t)"
  by (simp add: dom_map_of_conv_image_fst flip: entries_get)

end

lemma map_of_tput [db_simps]: "map_of (tput k v t) = (map_of t)(k \<mapsto> v)"
  by (rule ext)
    (auto simp: tput_def map_add_def map_of_filter_key [of "\<lambda>x. x < k"]
      map_of_filter_key [of "\<lambda>x. k < x"] split: option.split)

lemma map_of_tdel [db_simps]: "map_of (tdel k t) = (map_of t)(k := None)"
  by (rule ext) (simp add: tdel_def map_of_filter_key [of "\<lambda>x. x \<noteq> k"])

lemma map_of_tstep [db_simps]: "map_of (tstep w t) = mstep w (map_of t)"
  by (cases w) (simp_all add: db_simps)

lemma sorted_tput: "sorted_keys t \<Longrightarrow> sorted_keys (tput k v t)"
  by (auto simp: tput_def sorted_keys_append sorted_keys_filter)

lemma sorted_tdel: "sorted_keys t \<Longrightarrow> sorted_keys (tdel k t)"
  by (simp add: tdel_def sorted_keys_filter)

lemma sorted_tstep: "sorted_keys t \<Longrightarrow> sorted_keys (tstep w t)"
  by (cases w) (simp_all add: sorted_tput sorted_tdel)

interpretation ldb_store: ordered_store map_of tstep "\<lambda>t. t" sorted_keys
  by unfold_locales (simp_all add: map_of_tstep sorted_tstep)

lemma map_of_tbatch [db_simps]: "map_of (tbatch ops t) = fold mstep ops (map_of t)"
  unfolding tbatch_def by (rule ldb_store.get_run)

lemma sorted_tbatch: "sorted_keys t \<Longrightarrow> sorted_keys (tbatch ops t)"
  unfolding tbatch_def by (rule ldb_store.ok_run)

lemma map_of_tbatch_untouched:
  "k \<notin> wop_key ` set ops \<Longrightarrow> map_of (tbatch ops t) k = map_of t k"
  unfolding tbatch_def by (rule ldb_store.get_run_untouched)

subsection \<open>Counting keys\<close>

definition count_keys :: "(bytes \<Rightarrow> bool) \<Rightarrow> table \<Rightarrow> nat" where
  "count_keys P t = length (filter (\<lambda>e. P (fst e)) t)"

lemma count_keys_split:
  "count_keys P t = count_keys (\<lambda>x. P x \<and> Q x) t + count_keys (\<lambda>x. P x \<and> \<not> Q x) t"
  unfolding count_keys_def by (induction t) auto

lemma count_keys_one:
  assumes "sorted_keys t"
  shows "count_keys (\<lambda>x. P x \<and> x = k) t = (if P k \<and> map_of t k \<noteq> None then 1 else 0)"
  using assms
proof (induction t)
  case Nil
  show ?case by (simp add: count_keys_def)
next
  case (Cons e t)
  show ?case
  proof (cases "fst e = k")
    case True
    with Cons.prems have "\<forall>x \<in> set t. fst x \<noteq> k" by auto
    then have "filter (\<lambda>e. P (fst e) \<and> fst e = k) t = []" by (auto simp: filter_empty_conv)
    with True show ?thesis by (simp add: count_keys_def)
  next
    case False
    with Cons show ?thesis by (simp add: count_keys_def)
  qed
qed

lemma count_keys_tdel:
  assumes "sorted_keys t"
  shows "count_keys P t = count_keys P (tdel k t) + (if P k \<and> map_of t k \<noteq> None then 1 else 0)"
proof -
  have "count_keys P (tdel k t) = count_keys (\<lambda>x. P x \<and> x \<noteq> k) t"
    by (simp add: count_keys_def tdel_def conj_commute)
  then show ?thesis
    using count_keys_split [of P t "\<lambda>x. x = k"] count_keys_one [OF assms, of P k] by simp
qed

lemma count_keys_tput:
  assumes "sorted_keys t"
  shows "count_keys P (tput k v t) = count_keys P t + (if P k \<and> map_of t k = None then 1 else 0)"
proof -
  have "tdel k (tput k v t) = tdel k t"
  proof -
    have "filter (\<lambda>e. fst e \<noteq> k) t = filter (\<lambda>e. fst e < k) t @ filter (\<lambda>e. k < fst e) t"
      using assms
    proof (induction t)
      case (Cons e t)
      then have "k < fst e \<Longrightarrow> filter (\<lambda>e. fst e < k) t = []"
        by (fastforce simp: filter_empty_conv)
      with Cons show ?case by (auto simp: neq_iff)
    qed simp
    moreover have "\<And>a :: bytes \<times> bytes. (fst a < k \<and> fst a \<noteq> k) = (fst a < k)"
      "\<And>a :: bytes \<times> bytes. (k < fst a \<and> fst a \<noteq> k) = (k < fst a)" by auto
    ultimately show ?thesis by (simp add: tdel_def tput_def)
  qed
  then show ?thesis
    using count_keys_tdel [OF assms, of P k]
      count_keys_tdel [OF sorted_tput [OF assms], of P k v k]
    by (auto simp: db_simps split: if_splits)
qed

section \<open>The database handle\<close>

record ldb =
  tbl :: table
  unreadable :: "bytes set"
  wfaults :: "bool list"

text \<open>The three outcomes of \<open>Get\<close>: a value, not found, any other status.\<close>

datatype get_result = Found bytes | NotFound | GetError

definition ldb_get :: "ldb \<Rightarrow> bytes \<Rightarrow> get_result" where
  "ldb_get d k =
     (if k \<in> unreadable d then GetError
      else case map_of (tbl d) k of None \<Rightarrow> NotFound | Some v \<Rightarrow> Found v)"

text \<open>\<open>Write\<close>: the status (\<open>True\<close> for OK) and the new database.\<close>

definition ldb_write :: "batch \<Rightarrow> ldb \<Rightarrow> bool \<times> ldb" where
  "ldb_write ops d =
     (case wfaults d of
        True # fs \<Rightarrow> (False, d\<lparr>wfaults := fs\<rparr>)
      | False # fs \<Rightarrow> (True, d\<lparr>wfaults := fs, tbl := tbatch ops (tbl d)\<rparr>)
      | [] \<Rightarrow> (True, d\<lparr>tbl := tbatch ops (tbl d)\<rparr>))"

definition ldb_put :: "bytes \<Rightarrow> bytes \<Rightarrow> ldb \<Rightarrow> bool \<times> ldb" where
  "ldb_put k v d = ldb_write [WPut k v] d"

definition ldb_delete :: "bytes \<Rightarrow> ldb \<Rightarrow> bool \<times> ldb" where
  "ldb_delete k d = ldb_write [WDel k] d"

lemma ldb_write_tbl:
  "ldb_write ops d = (ok, d') \<Longrightarrow>
     tbl d' = (if ok then tbatch ops (tbl d) else tbl d) \<and> unreadable d' = unreadable d"
  by (cases "wfaults d") (auto simp: ldb_write_def split: bool.splits)

lemma ldb_get_cases:
  "ldb_get d k = Found v \<Longrightarrow> map_of (tbl d) k = Some v"
  "ldb_get d k = NotFound \<Longrightarrow> map_of (tbl d) k = None"
  by (auto simp: ldb_get_def split: if_splits option.splits)

lemma ldb_get_readable:
  "k \<notin> unreadable d \<Longrightarrow> ldb_get d k = (case map_of (tbl d) k of None \<Rightarrow> NotFound | Some v \<Rightarrow> Found v)"
  by (simp add: ldb_get_def)

section \<open>Iterators\<close>

text \<open>
  An iterator holds the entries of the snapshot it was created on and a position in them;
  \<open>None\<close> is the state where \<open>Valid()\<close> is false. \<open>Next\<close> and \<open>Prev\<close> require a valid
  iterator; on an invalid one they leave it invalid.
\<close>

record liter =
  ents :: table
  pos :: "nat option"

definition liter_new :: "ldb \<Rightarrow> liter" where
  "liter_new d = \<lparr>ents = tbl d, pos = None\<rparr>"

definition liter_at :: "nat \<Rightarrow> liter \<Rightarrow> liter" where
  "liter_at i it = it\<lparr>pos := (if i < length (ents it) then Some i else None)\<rparr>"

definition valid :: "liter \<Rightarrow> bool" where
  "valid it \<longleftrightarrow> pos it \<noteq> None"

definition seek :: "bytes \<Rightarrow> liter \<Rightarrow> liter" where
  "seek target it = liter_at (length (takeWhile (\<lambda>e. fst e < target) (ents it))) it"

definition seek_first :: "liter \<Rightarrow> liter" where
  "seek_first it = liter_at 0 it"

definition seek_last :: "liter \<Rightarrow> liter" where
  "seek_last it = (if ents it = [] then it\<lparr>pos := None\<rparr> else liter_at (length (ents it) - 1) it)"

definition lnext :: "liter \<Rightarrow> liter" where
  "lnext it = (case pos it of None \<Rightarrow> it | Some i \<Rightarrow> liter_at (i + 1) it)"

definition lprev :: "liter \<Rightarrow> liter" where
  "lprev it =
     (case pos it of
        None \<Rightarrow> it
      | Some i \<Rightarrow> if i = 0 then it\<lparr>pos := None\<rparr> else liter_at (i - 1) it)"

definition lkey :: "liter \<Rightarrow> bytes" where
  "lkey it = (case pos it of None \<Rightarrow> [] | Some i \<Rightarrow> fst (ents it ! i))"

definition lvalue :: "liter \<Rightarrow> bytes" where
  "lvalue it = (case pos it of None \<Rightarrow> [] | Some i \<Rightarrow> snd (ents it ! i))"

text \<open>
  The entries an iterator still yields, in the order it yields them: forwards from its position,
  or backwards.
\<close>

definition ahead :: "liter \<Rightarrow> table" where
  "ahead it = (case pos it of None \<Rightarrow> [] | Some i \<Rightarrow> drop i (ents it))"

definition behind :: "liter \<Rightarrow> table" where
  "behind it = (case pos it of None \<Rightarrow> [] | Some i \<Rightarrow> rev (take (i + 1) (ents it)))"

text \<open>A position is always inside the snapshot.\<close>

definition liter_ok :: "liter \<Rightarrow> bool" where
  "liter_ok it \<longleftrightarrow> (\<forall>i. pos it = Some i \<longrightarrow> i < length (ents it))"

lemma liter_ok_ops [simp]:
  "liter_ok (liter_new d)" "liter_ok (liter_at i it)" "liter_ok (seek x it)"
  "liter_ok (seek_first it)" "liter_ok (seek_last it)"
  "liter_ok it \<Longrightarrow> liter_ok (lnext it)" "liter_ok it \<Longrightarrow> liter_ok (lprev it)"
  by (auto simp: liter_ok_def liter_new_def liter_at_def seek_def seek_first_def seek_last_def
      lnext_def lprev_def split: option.splits)

lemma ents_ops [simp]:
  "ents (liter_new d) = tbl d" "ents (liter_at i it) = ents it" "ents (seek x it) = ents it"
  "ents (seek_first it) = ents it" "ents (seek_last it) = ents it"
  "ents (lnext it) = ents it" "ents (lprev it) = ents it"
  by (auto simp: liter_new_def liter_at_def seek_def seek_first_def seek_last_def lnext_def lprev_def
      split: option.splits)

lemma ahead_props:
  assumes "liter_ok it"
  shows "valid it \<longleftrightarrow> ahead it \<noteq> []"
    and "valid it \<Longrightarrow> (lkey it, lvalue it) = hd (ahead it)"
    and "ahead (lnext it) = tl (ahead it)"
  using assms
  by (auto simp: liter_ok_def valid_def ahead_def lkey_def lvalue_def lnext_def liter_at_def
      hd_drop_conv_nth drop_Suc tl_drop split: option.splits)

lemma behind_props:
  assumes "liter_ok it"
  shows "valid it \<longleftrightarrow> behind it \<noteq> []"
    and "valid it \<Longrightarrow> (lkey it, lvalue it) = hd (behind it)"
    and "behind (lprev it) = tl (behind it)"
proof -
  show "valid it \<longleftrightarrow> behind it \<noteq> []"
    using assms by (auto simp: liter_ok_def valid_def behind_def split: option.splits)
  show "valid it \<Longrightarrow> (lkey it, lvalue it) = hd (behind it)"
    using assms by (auto simp: liter_ok_def valid_def behind_def lkey_def lvalue_def hd_rev
        last_conv_nth take_Suc_conv_app_nth split: option.splits)
  show "behind (lprev it) = tl (behind it)"
  proof (cases "pos it")
    case None
    then show ?thesis by (simp add: behind_def lprev_def)
  next
    case (Some i)
    with assms have i: "i < length (ents it)" by (simp add: liter_ok_def)
    then show ?thesis
      using Some by (cases i)
        (simp_all add: behind_def lprev_def liter_at_def take_Suc_conv_app_nth)
  qed
qed

lemma ahead_seek:
  assumes "sorted_keys (ents it)"
  shows "ahead (seek x it) = filter (\<lambda>e. \<not> fst e < x) (ents it)"
proof -
  let ?n = "length (takeWhile (\<lambda>e. fst e < x) (ents it))"
  have "filter (\<lambda>e. \<not> fst e < x) (ents it) = drop ?n (ents it)"
    by (simp only: filter_ge_dropWhile [OF assms] dropWhile_eq_drop)
  then show ?thesis by (simp add: ahead_def seek_def liter_at_def)
qed

lemma ahead_seek_first: "ahead (seek_first it) = ents it"
  by (simp add: ahead_def seek_first_def liter_at_def)

text \<open>
  The position \<open>rev_iterator\<close> and \<open>find_last\<close> start from: the last entry before the target.
\<close>

lemma behind_seek_prev:
  assumes "sorted_keys (ents it)"
  shows "behind (if valid (seek x it) then lprev (seek x it) else seek_last (seek x it)) =
    rev (filter (\<lambda>e. fst e < x) (ents it))"
proof -
  define n where "n = length (takeWhile (\<lambda>e. fst e < x) (ents it))"
  have le: "n \<le> length (ents it)" unfolding n_def by (rule length_takeWhile_le)
  have f: "filter (\<lambda>e. fst e < x) (ents it) = take n (ents it)"
    unfolding filter_less_takeWhile [OF assms] n_def by (rule takeWhile_eq_take)
  have s: "seek x it = liter_at n it" by (simp add: seek_def n_def)
  show ?thesis
  proof (cases "n < length (ents it)")
    case True
    then show ?thesis
      unfolding f s by (cases n) (simp_all add: valid_def liter_at_def lprev_def behind_def)
  next
    case False
    then have n: "n = length (ents it)" using le by simp
    show ?thesis
      unfolding f s n by (simp add: valid_def liter_at_def seek_last_def behind_def)
  qed
qed

text \<open>\<open>Seek\<close> finds the least entry at or past the target, the mirror image the greatest before it.\<close>

lemma seek_least:
  assumes "sorted_keys (tbl d)"
  obtains (out) "\<not> valid (seek x (liter_new d))" "\<forall>e \<in> set (tbl d). fst e < x"
  | (at) k v where "valid (seek x (liter_new d))" "lkey (seek x (liter_new d)) = k"
      "lvalue (seek x (liter_new d)) = v" "(k, v) \<in> set (tbl d)" "x \<le> k"
      "\<forall>e \<in> set (tbl d). x \<le> fst e \<longrightarrow> k \<le> fst e"
proof -
  let ?it = "seek x (liter_new d)"
  have ah: "ahead ?it = filter (\<lambda>e. \<not> fst e < x) (tbl d)" using assms by (simp add: ahead_seek)
  show thesis
  proof (cases "ahead ?it")
    case Nil
    then have "\<forall>e \<in> set (tbl d). fst e < x" by (simp add: ah filter_empty_conv)
    with Nil ahead_props(1) [of ?it] show thesis by (intro out) simp_all
  next
    case (Cons e es)
    have srt: "sorted_keys (e # es)" using assms by (simp flip: Cons add: ah sorted_keys_filter)
    have mem: "y \<in> set (e # es) \<longleftrightarrow> y \<in> set (tbl d) \<and> \<not> fst y < x" for y
      by (simp only: Cons [symmetric] ah) simp
    have "\<forall>y \<in> set (tbl d). x \<le> fst y \<longrightarrow> fst e \<le> fst y"
      using sorted_keys_hd_least [OF srt] mem not_less by blast
    moreover have "e \<in> set (tbl d)" "x \<le> fst e" using mem [of e] by (simp_all add: not_less)
    moreover have "valid ?it" "(lkey ?it, lvalue ?it) = e"
      using Cons ahead_props(1,2) [of ?it] by simp_all
    ultimately show thesis by (intro at [of "fst e" "snd e"]) (auto simp: prod_eq_iff)
  qed
qed

definition seek_before :: "bytes \<Rightarrow> liter \<Rightarrow> liter" where
  "seek_before x it = (if valid (seek x it) then lprev (seek x it) else seek_last (seek x it))"

lemma liter_ok_seek_before [simp]: "liter_ok (seek_before x it)"
  by (simp add: seek_before_def)

lemma behind_seek_before:
  "sorted_keys (ents it) \<Longrightarrow> behind (seek_before x it) = rev (filter (\<lambda>e. fst e < x) (ents it))"
  unfolding seek_before_def by (rule behind_seek_prev)

lemma seek_before_greatest:
  assumes "sorted_keys (tbl d)"
  obtains (out) "\<not> valid (seek_before x (liter_new d))" "\<forall>e \<in> set (tbl d). x \<le> fst e"
  | (at) k v where "valid (seek_before x (liter_new d))" "lkey (seek_before x (liter_new d)) = k"
      "lvalue (seek_before x (liter_new d)) = v" "(k, v) \<in> set (tbl d)" "k < x"
      "\<forall>e \<in> set (tbl d). fst e < x \<longrightarrow> fst e \<le> k"
proof -
  let ?it = "seek_before x (liter_new d)"
  have be: "behind ?it = rev (filter (\<lambda>e. fst e < x) (tbl d))"
    using assms by (simp add: behind_seek_before)
  show thesis
  proof (cases "behind ?it")
    case Nil
    then have "\<forall>e \<in> set (tbl d). \<not> fst e < x" by (simp add: be filter_empty_conv)
    with Nil behind_props(1) [of ?it] show thesis by (intro out) (simp_all add: not_less)
  next
    case (Cons e es)
    then have fl: "filter (\<lambda>e. fst e < x) (tbl d) = rev es @ [e]"
      by (metis be rev.simps(2) rev_rev_ident)
    then have srt: "sorted_keys (rev es @ [e])" using assms by (metis sorted_keys_filter)
    have mem: "y \<in> set (rev es @ [e]) \<longleftrightarrow> y \<in> set (tbl d) \<and> fst y < x" for y
      by (simp only: fl [symmetric]) simp
    have "\<forall>y \<in> set (tbl d). fst y < x \<longrightarrow> fst y \<le> fst e"
      using sorted_keys_last_greatest [OF srt] mem by blast
    moreover have "e \<in> set (tbl d)" "fst e < x" using mem [of e] by simp_all
    moreover have "valid ?it" "(lkey ?it, lvalue ?it) = e"
      using Cons behind_props(1,2) [of ?it] by simp_all
    ultimately show thesis by (intro at [of "fst e" "snd e"]) (auto simp: prod_eq_iff)
  qed
qed

end
