(* ===== verification/Binlog.thy ===== *)
theory Binlog
  imports Const Util_Strings Leveldb
begin

text \<open>
  \<open>ssdb/ssdb/binlog.h\<close> and \<open>binlog.cpp\<close>: one log record (\<open>Binlog\<close>), the queue of log records
  that shares the database with the data (\<open>BinlogQueue\<close>) and the scope that makes one write
  batch of one operation (\<open>Transaction\<close>).

  \<open>SSDBImpl::ldb\<close> and \<open>BinlogQueue::db\<close> are the same pointer, so the state of the server is one
  record with one database; it is the state every operation of the other theories works on.
  Taking \<open>mutex\<close> in \<open>Transaction\<close> is modelled by running each operation as one step.
\<close>

section \<open>Log records\<close>

text \<open>A record is its bytes: sequence number, type, command, key.\<close>

definition HEADER_LEN :: nat where [simp]: "HEADER_LEN = 10"

definition binlog_new :: "u64 \<Rightarrow> u8 \<Rightarrow> u8 \<Rightarrow> bytes \<Rightarrow> bytes" where
  "binlog_new seq type cmd key = mem64 seq @ [type] @ [cmd] @ key"

definition binlog_seq :: "bytes \<Rightarrow> u64" where
  "binlog_seq buf = load64 buf"

definition binlog_type :: "bytes \<Rightarrow> u8" where
  "binlog_type buf = buf ! 8"

definition binlog_cmd :: "bytes \<Rightarrow> u8" where
  "binlog_cmd buf = buf ! 9"

definition binlog_key :: "bytes \<Rightarrow> bytes" where
  "binlog_key buf = drop HEADER_LEN buf"

definition binlog_load :: "bytes \<Rightarrow> bytes option" where
  "binlog_load s = (if length s < HEADER_LEN then None else Some s)"

definition binlog_type_name :: "u8 \<Rightarrow> bytes" where
  "binlog_type_name t =
     (if t = BT_NOOP then lit ''noop ''
      else if t = BT_SYNC then lit ''sync ''
      else if t = BT_MIRROR then lit ''mirror ''
      else if t = BT_COPY then lit ''copy ''
      else if t = BT_CTRL then lit ''control ''
      else [])"

definition binlog_cmd_name :: "u8 \<Rightarrow> bytes" where
  "binlog_cmd_name c =
     (if c = BC_NONE then lit ''none ''
      else if c = BC_KSET then lit ''set ''
      else if c = BC_KDEL then lit ''del ''
      else if c = BC_HSET then lit ''hset ''
      else if c = BC_HDEL then lit ''hdel ''
      else if c = BC_ZSET then lit ''zset ''
      else if c = BC_ZDEL then lit ''zdel ''
      else if c = BC_BEGIN then lit ''begin ''
      else if c = BC_END then lit ''end ''
      else if c = BC_QPUSH_BACK then lit ''qpush_back ''
      else if c = BC_QPUSH_FRONT then lit ''qpush_front ''
      else if c = BC_QPOP_BACK then lit ''qpop_back ''
      else if c = BC_QPOP_FRONT then lit ''qpop_front ''
      else if c = BC_QSET then lit ''qset ''
      else [])"

text \<open>The number goes through a buffer of 20 bytes, which keeps 19 characters.\<close>

definition binlog_dumps :: "bytes \<Rightarrow> bytes" where
  "binlog_dumps buf =
     (if length buf < HEADER_LEN then []
      else take 19 (dec_digits (unat (binlog_seq buf)) @ [32])
           @ binlog_type_name (binlog_type buf)
           @ binlog_cmd_name (binlog_cmd buf)
           @ hexmem (binlog_key buf))"

definition encode_seq_key :: "u64 \<Rightarrow> bytes" where
  "encode_seq_key seq = DT_SYNCLOG # mem64 (big_endian64 seq)"

definition decode_seq_key :: "bytes \<Rightarrow> u64" where
  "decode_seq_key key =
     (if length key = 9 \<and> hd key = DT_SYNCLOG then big_endian64 (load64 (tl key)) else 0)"

lemma binlog_new_fields [simp]:
  "binlog_seq (binlog_new q t c k) = q"
  "binlog_type (binlog_new q t c k) = t"
  "binlog_cmd (binlog_new q t c k) = c"
  "binlog_key (binlog_new q t c k) = k"
  "binlog_load (binlog_new q t c k) = Some (binlog_new q t c k)"
  by (simp_all add: binlog_seq_def binlog_type_def binlog_cmd_def binlog_key_def binlog_load_def
      binlog_new_def nth_append)

lemma decode_encode_seq_key [simp]: "decode_seq_key (encode_seq_key seq) = seq"
  by (simp add: decode_seq_key_def encode_seq_key_def big_endian64_involution)

lemma encode_seq_key_inject [simp]: "encode_seq_key a = encode_seq_key b \<longleftrightarrow> a = b"
  by (metis decode_encode_seq_key)

lemma encode_seq_key_less: "encode_seq_key a < encode_seq_key b \<longleftrightarrow> a < b"
  by (simp add: encode_seq_key_def big_endian64_order)

lemma hd_encode_seq_key [key_simps]: "encode_seq_key q = 1 # mem64 (big_endian64 q)"
  by (simp add: encode_seq_key_def)

section \<open>The state\<close>

record ssdb =
  db :: ldb
  min_seq :: u64
  last_seq :: u64
  tran_seq :: u64
  capacity :: int
  batch :: batch
  enabled :: bool

section \<open>Transactions\<close>

definition bl_begin :: "ssdb \<Rightarrow> ssdb" where
  "bl_begin s = s\<lparr>tran_seq := last_seq s, batch := []\<rparr>"

definition bl_rollback :: "ssdb \<Rightarrow> ssdb" where
  "bl_rollback s = s\<lparr>tran_seq := 0\<rparr>"

definition bl_commit :: "ssdb \<Rightarrow> bool \<times> ssdb" where
  "bl_commit s =
     (let (ok, d) = ldb_write (batch s) (db s); s1 = s\<lparr>db := d\<rparr>
      in if ok then (True, s1\<lparr>last_seq := tran_seq s1, tran_seq := 0\<rparr>) else (False, s1))"

definition add_log :: "u8 \<Rightarrow> u8 \<Rightarrow> bytes \<Rightarrow> ssdb \<Rightarrow> ssdb" where
  "add_log type cmd key s =
     (if \<not> enabled s then s
      else let q = tran_seq s + 1
           in s\<lparr>tran_seq := q,
                batch := batch s @ [WPut (encode_seq_key q) (binlog_new q type cmd key)]\<rparr>)"

definition bl_Put :: "bytes \<Rightarrow> bytes \<Rightarrow> ssdb \<Rightarrow> ssdb" where
  "bl_Put key value s = s\<lparr>batch := batch s @ [WPut key value]\<rparr>"

definition bl_Delete :: "bytes \<Rightarrow> ssdb \<Rightarrow> ssdb" where
  "bl_Delete key s = s\<lparr>batch := batch s @ [WDel key]\<rparr>"

text \<open>
  The scope of a \<open>Transaction\<close> object: the constructor begins, the destructor rolls back, on
  every path out of the body.
\<close>

definition transaction :: "(ssdb \<Rightarrow> 'r \<times> ssdb) \<Rightarrow> ssdb \<Rightarrow> 'r \<times> ssdb" where
  "transaction body s = (let (r, s') = body (bl_begin s) in (r, bl_rollback s'))"

text \<open>The commit that ends most operations: \<open>r\<close> if it succeeds, -1 if it does not.\<close>

definition commit_ret :: "int \<Rightarrow> ssdb \<Rightarrow> int \<times> ssdb" where
  "commit_ret r s = (let (ok, s') = bl_commit s in if ok then (r, s') else (-1, s'))"

section \<open>Reading the log\<close>

definition bl_get :: "ssdb \<Rightarrow> u64 \<Rightarrow> bytes option" where
  "bl_get s seq =
     (case ldb_get (db s) (encode_seq_key seq) of Found val \<Rightarrow> binlog_load val | _ \<Rightarrow> None)"

text \<open>1 with the record, 0 (nothing found), -1 (the record is malformed).\<close>

definition load_at :: "liter \<Rightarrow> int \<times> bytes option" where
  "load_at it =
     (if valid it \<and> decode_seq_key (lkey it) \<noteq> 0
      then (case binlog_load (lvalue it) of None \<Rightarrow> (-1, None) | Some log \<Rightarrow> (1, Some log))
      else (0, None))"

definition find_next :: "ssdb \<Rightarrow> u64 \<Rightarrow> int \<times> bytes option" where
  "find_next s next_seq =
     (case bl_get s next_seq of
        Some log \<Rightarrow> (1, Some log)
      | None \<Rightarrow> load_at (seek (encode_seq_key next_seq) (liter_new (db s))))"

definition find_last :: "ssdb \<Rightarrow> int \<times> bytes option" where
  "find_last s =
     (let it = seek (encode_seq_key (- 1)) (liter_new (db s))
      in load_at (if \<not> valid it then seek_last it else lprev it))"

definition bl_update :: "u64 \<Rightarrow> u8 \<Rightarrow> u8 \<Rightarrow> bytes \<Rightarrow> ssdb \<Rightarrow> int \<times> ssdb" where
  "bl_update seq type cmd key s =
     (let (ok, d) = ldb_put (encode_seq_key seq) (binlog_new seq type cmd key) (db s)
      in (if ok then 0 else -1, s\<lparr>db := d\<rparr>))"

definition bl_del :: "u64 \<Rightarrow> ssdb \<Rightarrow> int \<times> ssdb" where
  "bl_del seq s =
     (let (ok, d) = ldb_delete (encode_seq_key seq) (db s)
      in (if \<not> ok then -1 else 0, s\<lparr>db := d\<rparr>))"

text \<open>
  \<open>BinlogQueue::BinlogQueue\<close>. The signed capacity is converted to \<open>uint64_t\<close> where it meets a
  sequence number. Starting the cleaning thread is left to the environment.
\<close>

definition bl_open :: "ldb \<Rightarrow> bool \<Rightarrow> int \<Rightarrow> ssdb" where
  "bl_open d en cap =
     (let s0 = \<lparr>db = d, min_seq = 0, last_seq = 0, tran_seq = 0, capacity = cap, batch = [],
                enabled = en\<rparr>;
          s1 = (case find_last s0 of
                  (r, Some log) \<Rightarrow> (if r = 1 then s0\<lparr>last_seq := binlog_seq log\<rparr> else s0)
                | _ \<Rightarrow> s0);
          s2 = (if last_seq s1 > word_of_int cap
                then s1\<lparr>min_seq := last_seq s1 - word_of_int cap\<rparr>
                else s1\<lparr>min_seq := 0\<rparr>)
      in (case find_next s2 (min_seq s2) of
            (r, Some log) \<Rightarrow> (if r = 1 then s2\<lparr>min_seq := binlog_seq log\<rparr> else s2)
          | _ \<Rightarrow> s2))"

section \<open>Deleting ranges of the log\<close>

fun del_chunk :: "nat \<Rightarrow> u64 \<Rightarrow> u64 \<Rightarrow> batch \<times> u64" where
  "del_chunk 0 start end = ([], start)"
| "del_chunk (Suc n) start end =
     (if start \<le> end
      then let (ops, start') = del_chunk n (start + 1) end
           in (WDel (encode_seq_key start) # ops, start')
      else ([], start))"

text \<open>
  The loop runs until \<open>start\<close> passes \<open>end\<close>, which never happens when \<open>end\<close> is the largest
  number: then the result is \<open>None\<close> unless a write fails.
\<close>

partial_function (option) del_range :: "u64 \<Rightarrow> u64 \<Rightarrow> ssdb \<Rightarrow> (int \<times> ssdb) option" where
  "del_range start end s =
     (if start \<le> end
      then (let (ops, start') = del_chunk 1000 start end; (ok, d) = ldb_write ops (db s)
            in if \<not> ok then Some (-1, s\<lparr>db := d\<rparr>)
               else del_range start' end (s\<lparr>db := d\<rparr>))
      else Some (0, s))"

definition bl_flush :: "ssdb \<Rightarrow> ssdb option" where
  "bl_flush s = map_option snd (del_range (min_seq s) (last_seq s) s)"

text \<open>One turn of the loop of \<open>log_clean_thread_func\<close>; \<open>False\<close> means it slept.\<close>

definition clean_turn :: "ssdb \<Rightarrow> (bool \<times> ssdb) option" where
  "clean_turn s =
     (if last_seq s - min_seq s < word_of_int (capacity s + 10000) then Some (False, s)
      else let start = min_seq s; end = last_seq s - word_of_int (capacity s)
           in map_option (\<lambda>(r, s'). (True, s'\<lparr>min_seq := end + 1\<rparr>)) (del_range start end s))"

section \<open>Maintenance\<close>

text \<open>
  \<open>clean_obsolete_binlogs\<close> walks back from the first record that counts. The iterator is on a
  snapshot, so the walk does not see its own deletions; a failed deletion is ignored.
\<close>

function clean_back :: "liter \<Rightarrow> ssdb \<Rightarrow> ssdb" where
  "clean_back i s =
     (if \<not> valid i then s
      else let seq = decode_seq_key (lkey i)
           in if seq = 0 then s else clean_back (lprev i) (snd (bl_del seq s)))"
  by pat_completeness auto
termination
  by (relation "measure (\<lambda>(i, s). case pos i of None \<Rightarrow> 0 | Some n \<Rightarrow> Suc n)")
    (auto simp: valid_def lprev_def liter_at_def split: option.splits)

declare clean_back.simps [simp del]

definition clean_obsolete_binlogs :: "ssdb \<Rightarrow> ssdb" where
  "clean_obsolete_binlogs s =
     (let i = seek (encode_seq_key (min_seq s)) (liter_new (db s));
          i = (if valid i then lprev i else i)
      in clean_back i s)"

text \<open>
  \<open>merge\<close>, which nothing calls: a later record on the same key turns the earlier one into a
  no-op. Like \<open>del_range\<close> it would not end at the largest number.
\<close>

partial_function (option) merge_loop ::
    "(bytes \<rightharpoonup> u64) \<Rightarrow> u64 \<Rightarrow> u64 \<Rightarrow> ssdb \<Rightarrow> ssdb option" where
  "merge_loop key_map start end s =
     (if start \<le> end
      then (case bl_get s start of
              None \<Rightarrow> merge_loop key_map (start + 1) end s
            | Some log \<Rightarrow>
                if binlog_type log = BT_NOOP then merge_loop key_map (start + 1) end s
                else let key = binlog_key log;
                         s' = (case key_map key of
                                 None \<Rightarrow> s
                               | Some seq \<Rightarrow> snd (bl_update seq BT_NOOP BC_NONE [] s))
                     in merge_loop (key_map(key \<mapsto> binlog_seq log)) (start + 1) end s')
      else Some s)"

definition bl_merge :: "ssdb \<Rightarrow> ssdb option" where
  "bl_merge s = merge_loop Map.empty (min_seq s) (last_seq s) s"

definition bl_stats :: "ssdb \<Rightarrow> bytes" where
  "bl_stats s =
     lit ''    capacity : '' @ str_int (capacity s) @ [10] @
     lit ''    min_seq  : '' @ str_u64 (min_seq s) @ [10] @
     lit ''    max_seq  : '' @ str_u64 (last_seq s)"

section \<open>Log keys and data keys\<close>

definition is_log_key :: "bytes \<Rightarrow> bool" where
  "is_log_key k \<longleftrightarrow> prefix [DT_SYNCLOG] k"

lemma is_log_key_encode [simp]: "is_log_key (encode_seq_key q)"
  by (simp add: is_log_key_def encode_seq_key_def)

lemma is_log_key_Cons [simp]: "is_log_key (b # k) \<longleftrightarrow> b = 1"
  by (auto simp: is_log_key_def)

lemma is_log_key_Nil [simp]: "\<not> is_log_key []"
  by (simp add: is_log_key_def)

text \<open>The part of the database that is not the log, as a map.\<close>

definition data_map :: "table \<Rightarrow> bytes \<rightharpoonup> bytes" where
  "data_map t k = (if is_log_key k then None else map_of t k)"

abbreviation data :: "ssdb \<Rightarrow> bytes \<rightharpoonup> bytes" where
  "data s \<equiv> data_map (tbl (db s))"

definition data_op :: "(bytes, bytes) wop \<Rightarrow> bool" where
  "data_op w \<longleftrightarrow> \<not> is_log_key (wop_key w)"

lemma data_op_simps [simp]:
  "data_op (WPut k v) \<longleftrightarrow> \<not> is_log_key k" "data_op (WDel k) \<longleftrightarrow> \<not> is_log_key k"
  by (simp_all add: data_op_def)

lemma data_map_tstep:
  "data_map (tstep w t) = (if data_op w then mstep w (data_map t) else data_map t)"
  by (rule ext, cases w) (auto simp: data_map_def map_of_tput map_of_tdel)

lemma data_map_tbatch [db_simps]:
  "data_map (tbatch ops t) = fold mstep (filter data_op ops) (data_map t)"
  unfolding tbatch_def by (induction ops arbitrary: t) (simp_all add: data_map_tstep)

lemma ldb_get_data:
  "\<not> is_log_key k \<Longrightarrow> k \<notin> unreadable d \<Longrightarrow>
     ldb_get d k = (case data_map (tbl d) k of None \<Rightarrow> NotFound | Some v \<Rightarrow> Found v)"
  by (simp add: ldb_get_readable data_map_def)

text \<open>Whether the next write succeeds.\<close>

definition write_ok :: "ldb \<Rightarrow> bool" where
  "write_ok d \<longleftrightarrow> (case wfaults d of True # fs \<Rightarrow> False | _ \<Rightarrow> True)"

lemma ldb_write_write_ok: "fst (ldb_write ops d) = write_ok d"
  by (auto simp: ldb_write_def write_ok_def split: list.splits bool.splits)

lemma ldb_write_eq:
  "ldb_write ops d = (write_ok d, d\<lparr>wfaults := tl (wfaults d),
      tbl := (if write_ok d then tbatch ops (tbl d) else tbl d)\<rparr>)"
  by (cases "wfaults d") (auto simp: ldb_write_def write_ok_def split: bool.splits)

text \<open>A storage that never fails.\<close>

definition reliable :: "ldb \<Rightarrow> bool" where
  "reliable d \<longleftrightarrow> wfaults d = [] \<and> unreadable d = {}"

lemma write_ok_reliable [simp]: "reliable d \<Longrightarrow> write_ok d"
  by (simp add: reliable_def write_ok_def)

lemma ldb_get_reliable:
  "reliable d \<Longrightarrow> ldb_get d k = (case map_of (tbl d) k of None \<Rightarrow> NotFound | Some v \<Rightarrow> Found v)"
  by (simp add: reliable_def ldb_get_def)

section \<open>What a transaction does\<close>

text \<open>
  The calls an operation makes on the open transaction, as data: every operation of the server
  is a run of these followed by a commit.
\<close>

datatype act = APut bytes bytes | ADel bytes | ALog u8 bytes

fun run_act :: "u8 \<Rightarrow> act \<Rightarrow> ssdb \<Rightarrow> ssdb" where
  "run_act lt (APut k v) s = bl_Put k v s"
| "run_act lt (ADel k) s = bl_Delete k s"
| "run_act lt (ALog c k) s = add_log lt c k s"

definition run_acts :: "u8 \<Rightarrow> act list \<Rightarrow> ssdb \<Rightarrow> ssdb" where
  "run_acts lt as s = fold (run_act lt) as s"

fun act_op :: "act \<Rightarrow> (bytes, bytes) wop list" where
  "act_op (APut k v) = [WPut k v]"
| "act_op (ADel k) = [WDel k]"
| "act_op (ALog c k) = []"

fun act_log :: "act \<Rightarrow> (u8 \<times> bytes) list" where
  "act_log (ALog c k) = [(c, k)]"
| "act_log _ = []"

definition acts_ops :: "act list \<Rightarrow> batch" where "acts_ops as = concat (map act_op as)"
definition acts_logs :: "act list \<Rightarrow> (u8 \<times> bytes) list" where "acts_logs as = concat (map act_log as)"

lemma acts_simps [simp]:
  "acts_ops [] = []" "acts_ops (a # as) = act_op a @ acts_ops as"
  "acts_ops (as @ bs) = acts_ops as @ acts_ops bs"
  "acts_logs [] = []" "acts_logs (a # as) = act_log a @ acts_logs as"
  "acts_logs (as @ bs) = acts_logs as @ acts_logs bs"
  by (simp_all add: acts_ops_def acts_logs_def)

text \<open>The log entries a run adds, numbered from the transaction's sequence number.\<close>

fun log_writes :: "u8 \<Rightarrow> u64 \<Rightarrow> (u8 \<times> bytes) list \<Rightarrow> batch" where
  "log_writes lt q [] = []"
| "log_writes lt q ((c, k) # ls) =
     WPut (encode_seq_key (q + 1)) (binlog_new (q + 1) lt c k) # log_writes lt (q + 1) ls"

lemma run_acts_simps [simp]:
  "run_acts lt [] s = s" "run_acts lt (a # as) s = run_acts lt as (run_act lt a s)"
  by (simp_all add: run_acts_def)

lemma run_acts_append: "run_acts lt (as @ bs) s = run_acts lt bs (run_acts lt as s)"
  by (simp add: run_acts_def)

lemma run_acts_frame [simp]:
  "db (run_acts lt as s) = db s" "enabled (run_acts lt as s) = enabled s"
  "last_seq (run_acts lt as s) = last_seq s" "min_seq (run_acts lt as s) = min_seq s"
  "capacity (run_acts lt as s) = capacity s"
proof -
  have a: "db (run_act lt a s) = db s \<and> enabled (run_act lt a s) = enabled s \<and>
    last_seq (run_act lt a s) = last_seq s \<and> min_seq (run_act lt a s) = min_seq s \<and>
    capacity (run_act lt a s) = capacity s" for a s
    by (cases a) (simp_all add: bl_Put_def bl_Delete_def add_log_def Let_def)
  have "db (run_acts lt as s) = db s \<and> enabled (run_acts lt as s) = enabled s \<and>
    last_seq (run_acts lt as s) = last_seq s \<and> min_seq (run_acts lt as s) = min_seq s \<and>
    capacity (run_acts lt as s) = capacity s"
    by (induction as arbitrary: s) (simp_all add: a)
  then show "db (run_acts lt as s) = db s" "enabled (run_acts lt as s) = enabled s"
    "last_seq (run_acts lt as s) = last_seq s" "min_seq (run_acts lt as s) = min_seq s"
    "capacity (run_acts lt as s) = capacity s" by simp_all
qed

lemma run_acts_tran_seq:
  "tran_seq (run_acts lt as s) =
     (if enabled s then tran_seq s + of_nat (length (acts_logs as)) else tran_seq s)"
proof (induction as arbitrary: s)
  case (Cons a as)
  then show ?case by (cases a) (simp_all add: bl_Put_def bl_Delete_def add_log_def Let_def)
qed simp

lemma run_acts_data_ops:
  assumes "\<forall>w \<in> set (acts_ops as). data_op w"
  shows "filter data_op (batch (run_acts lt as s)) = filter data_op (batch s) @ acts_ops as"
  using assms
proof (induction as arbitrary: s)
  case (Cons a as)
  then show ?case by (cases a) (simp_all add: bl_Put_def bl_Delete_def add_log_def Let_def)
qed simp

lemma run_acts_log_ops:
  assumes "\<forall>w \<in> set (acts_ops as). data_op w"
  shows "filter (\<lambda>w. \<not> data_op w) (batch (run_acts lt as s)) =
    filter (\<lambda>w. \<not> data_op w) (batch s) @
      (if enabled s then log_writes lt (tran_seq s) (acts_logs as) else [])"
  using assms
proof (induction as arbitrary: s)
  case (Cons a as)
  then show ?case by (cases a) (simp_all add: bl_Put_def bl_Delete_def add_log_def Let_def)
qed simp

text \<open>
  The outcome of an operation with actions \<open>as\<close> and result \<open>r\<close>. When the write fails the
  database keeps its contents, the result is -1 and no sequence number is used.
\<close>

definition act_tran :: "u8 \<Rightarrow> act list \<Rightarrow> int \<Rightarrow> ssdb \<Rightarrow> int \<times> ssdb" where
  "act_tran lt as r s = transaction (\<lambda>s. commit_ret r (run_acts lt as s)) s"

lemma act_tran_result: "fst (act_tran lt as r s) = (if write_ok (db s) then r else -1)"
  by (simp add: act_tran_def transaction_def commit_ret_def bl_commit_def bl_begin_def
      ldb_write_eq split: prod.split)

lemma act_tran_tbl:
  "tbl (db (snd (act_tran lt as r s))) =
     (if write_ok (db s) then tbatch (batch (run_acts lt as (bl_begin s))) (tbl (db s))
      else tbl (db s))"
  by (simp add: act_tran_def transaction_def commit_ret_def bl_commit_def bl_begin_def
      bl_rollback_def ldb_write_eq)

lemma act_tran_frame [simp]:
  "unreadable (db (snd (act_tran lt as r s))) = unreadable (db s)"
  "wfaults (db (snd (act_tran lt as r s))) = tl (wfaults (db s))"
  "enabled (snd (act_tran lt as r s)) = enabled s"
  "min_seq (snd (act_tran lt as r s)) = min_seq s"
  "capacity (snd (act_tran lt as r s)) = capacity s"
  "tran_seq (snd (act_tran lt as r s)) = 0"
  by (simp_all add: act_tran_def transaction_def commit_ret_def bl_commit_def bl_begin_def
      bl_rollback_def ldb_write_eq)

lemma act_tran_last_seq:
  "last_seq (snd (act_tran lt as r s)) =
     (if write_ok (db s) \<and> enabled s then last_seq s + of_nat (length (acts_logs as))
      else last_seq s)"
  by (simp add: act_tran_def transaction_def commit_ret_def bl_commit_def bl_begin_def
      bl_rollback_def ldb_write_eq run_acts_tran_seq)

lemma act_tran_data:
  assumes "\<forall>w \<in> set (acts_ops as). data_op w"
  shows "data (snd (act_tran lt as r s)) =
    (if write_ok (db s) then fold mstep (acts_ops as) (data s) else data s)"
  using run_acts_data_ops [OF assms, of lt "bl_begin s"]
  by (simp add: act_tran_tbl data_map_tbatch) (simp add: bl_begin_def)

lemma act_tran_sorted:
  "sorted_keys (tbl (db s)) \<Longrightarrow> sorted_keys (tbl (db (snd (act_tran lt as r s))))"
  by (simp add: act_tran_tbl sorted_tbatch)

lemmas act_tran_facts = act_tran_result act_tran_tbl act_tran_frame act_tran_last_seq

lemma act_tran_reliable [simp]: "reliable (db s) \<Longrightarrow> reliable (db (snd (act_tran lt as r s)))"
  by (simp add: reliable_def)

text \<open>
  The same on an abstract state: \<open>w\<close> says whether the storage accepts the write; if not, the
  answer is -1 and the state stays.
\<close>

definition spec_write :: "bool \<Rightarrow> int \<Rightarrow> 'o \<Rightarrow> 'm \<Rightarrow> 'm \<Rightarrow> (int \<times> 'o) \<times> 'm" where
  "spec_write w r out m m' = (if w then ((r, out), m') else ((-1, out), m))"

text \<open>A transaction that returns before its commit.\<close>

definition abandon :: "ssdb \<Rightarrow> ssdb" where
  "abandon s = s\<lparr>batch := [], tran_seq := 0\<rparr>"

lemma abandon_simps [simp]:
  "db (abandon s) = db s" "last_seq (abandon s) = last_seq s" "min_seq (abandon s) = min_seq s"
  "enabled (abandon s) = enabled s" "capacity (abandon s) = capacity s"
  by (simp_all add: abandon_def)

lemma bl_rollback_begin [simp]: "bl_rollback (bl_begin s) = abandon s"
  by (simp add: bl_begin_def bl_rollback_def abandon_def)

lemma bl_rollback_frame [simp]:
  "db (bl_rollback s) = db s" "last_seq (bl_rollback s) = last_seq s"
  "enabled (bl_rollback s) = enabled s" "min_seq (bl_rollback s) = min_seq s"
  "capacity (bl_rollback s) = capacity s"
  by (simp_all add: bl_rollback_def)

lemma bl_begin_frame [simp]:
  "db (bl_begin s) = db s" "last_seq (bl_begin s) = last_seq s"
  "enabled (bl_begin s) = enabled s" "min_seq (bl_begin s) = min_seq s"
  "capacity (bl_begin s) = capacity s"
  by (simp_all add: bl_begin_def)

lemma transaction_commit:
  "transaction (\<lambda>s. commit_ret r (run_acts lt as s)) s = act_tran lt as r s"
  by (simp add: act_tran_def)

text \<open>A body that reads, and then commits the actions it has chosen, with an extra result.\<close>

lemma transaction_commit_with:
  "transaction (\<lambda>s'. let (r, s'') = commit_ret r0 (run_acts lt as s') in (f r, s'')) s =
     (f (fst (act_tran lt as r0 s)), snd (act_tran lt as r0 s))"
  by (simp add: act_tran_def transaction_def split: prod.split)

section \<open>The log a transaction leaves\<close>

lemma filter_split_map_of:
  assumes "\<not> Q k"
  shows "fold mstep ops m k = fold mstep (filter (\<lambda>w. \<not> Q (wop_key w)) ops) m k"
proof -
  have "fold mstep ops m k = fold mstep (filter (\<lambda>w. \<not> Q (wop_key w)) ops) m' k" if "m k = m' k" for m m'
    using that
  proof (induction ops arbitrary: m m')
    case (Cons w ops)
    show ?case
    proof (cases "Q (wop_key w)")
      case True
      then have "wop_key w \<noteq> k" using assms by auto
      then have "mstep w m k = m k" by (cases w) auto
      with Cons True show ?thesis by simp
    next
      case False
      from Cons.prems have "mstep w m k = mstep w m' k" by (cases w) auto
      with Cons False show ?thesis by simp
    qed
  qed simp
  then show ?thesis by simp
qed

text \<open>The log part of the database as a map from sequence numbers.\<close>

definition log_map :: "table \<Rightarrow> u64 \<rightharpoonup> bytes" where
  "log_map t q = map_of t (encode_seq_key q)"

lemma act_tran_log:
  assumes "\<forall>w \<in> set (acts_ops as). data_op w"
  shows "log_map (tbl (db (snd (act_tran lt as r s)))) q =
    (if write_ok (db s) \<and> enabled s
     then fold mstep (log_writes lt (last_seq s) (acts_logs as)) (map_of (tbl (db s))) (encode_seq_key q)
     else log_map (tbl (db s)) q)"
proof (cases "write_ok (db s)")
  case True
  let ?b = "batch (run_acts lt as (bl_begin s))"
  have "map_of (tbatch ?b (tbl (db s))) (encode_seq_key q) =
      fold mstep (filter (\<lambda>w. \<not> data_op w) ?b) (map_of (tbl (db s))) (encode_seq_key q)"
    using filter_split_map_of [of "\<lambda>k. \<not> is_log_key k" "encode_seq_key q" ?b "map_of (tbl (db s))"]
    by (simp add: map_of_tbatch data_op_def)
  also have "filter (\<lambda>w. \<not> data_op w) ?b =
      (if enabled s then log_writes lt (last_seq s) (acts_logs as) else [])"
    using run_acts_log_ops [OF assms, of lt "bl_begin s"] by (simp add: bl_begin_def)
  finally show ?thesis using True by (simp add: log_map_def act_tran_tbl)
next
  case False
  then show ?thesis by (simp add: log_map_def act_tran_tbl)
qed

text \<open>An operation that logs once: the record it leaves, and all other records as they were.\<close>

lemma act_tran_log_one:
  assumes "\<forall>w \<in> set (acts_ops as). data_op w" "acts_logs as = [(c, k)]"
    and "write_ok (db s)" "enabled s"
  shows "log_map (tbl (db (snd (act_tran lt as r s)))) =
    (log_map (tbl (db s)))(last_seq s + 1 \<mapsto> binlog_new (last_seq s + 1) lt c k)"
  using assms(2-4) by (intro ext) (auto simp: act_tran_log [OF assms(1)], auto simp: log_map_def)

text \<open>
  The log is in order: every log key is a sequence number between 1 and the last one, and holds
  the record with that number.
\<close>

definition log_ok :: "ssdb \<Rightarrow> bool" where
  "log_ok s \<longleftrightarrow>
     (\<forall>e \<in> set (tbl (db s)). is_log_key (fst e) \<longrightarrow>
        (\<exists>q \<in> {1..last_seq s}. \<exists>t c k. e = (encode_seq_key q, binlog_new q t c k)))"

section \<open>Finding records\<close>

lemma log_key_between:
  assumes "encode_seq_key p \<le> k" "k \<le> encode_seq_key q"
  shows "is_log_key k"
  unfolding is_log_key_def
  by (rule prefix_interval [OF _ _ assms]) (simp_all add: encode_seq_key_def)

text \<open>Where the log stands in the table: \<open>load_at\<close> on a position.\<close>

lemma load_at_log:
  assumes "valid it" "lkey it = encode_seq_key q" "q \<noteq> 0" "lvalue it = binlog_new q t c k"
  shows "load_at it = (1, Some (binlog_new q t c k))"
  using assms by (simp add: load_at_def)

lemma load_at_data:
  assumes "\<not> is_log_key (lkey it)"
  shows "load_at it = (0, None)"
proof -
  have "decode_seq_key (lkey it) = 0"
    using assms by (cases "lkey it") (auto simp: decode_seq_key_def)
  then show ?thesis by (simp add: load_at_def)
qed

lemma log_okD:
  assumes "log_ok s" "(key, v) \<in> set (tbl (db s))" "is_log_key key"
  obtains q t c k where "key = encode_seq_key q" "v = binlog_new q t c k" "1 \<le> q" "q \<le> last_seq s"
  using assms unfolding log_ok_def by fastforce

lemma log_map_in:
  "sorted_keys t \<Longrightarrow> log_map t q = Some v \<longleftrightarrow> (encode_seq_key q, v) \<in> set t"
  by (simp add: log_map_def sorted_keys_map_of)

lemma log_map_None:
  "sorted_keys t \<Longrightarrow> log_map t q = None \<longleftrightarrow> (\<forall>e \<in> set t. fst e \<noteq> encode_seq_key q)"
  by (force simp: log_map_def map_of_eq_None_iff)

lemma load_at_log_ok:
  assumes "log_ok s" "valid it" "lkey it = key" "(key, lvalue it) \<in> set (tbl (db s))" "is_log_key key"
  obtains q where "key = encode_seq_key q" "load_at it = (1, Some (lvalue it))"
proof -
  obtain q t c k where q: "key = encode_seq_key q" "lvalue it = binlog_new q t c k" "1 \<le> q"
    using assms(1,4,5) by (rule log_okD)
  then have "q \<noteq> 0" by auto
  with q assms(2,3) have "load_at it = (1, Some (lvalue it))"
    by (simp add: load_at_def)
  with q(1) show thesis by (rule that)
qed

lemma encode_seq_key_le: "encode_seq_key a \<le> encode_seq_key b \<longleftrightarrow> a \<le> b"
  by (simp add: encode_seq_key_less flip: not_less)

text \<open>The outcome of looking for the first record at or past a number.\<close>

definition is_next :: "table \<Rightarrow> u64 \<Rightarrow> int \<times> bytes option \<Rightarrow> bool" where
  "is_next t p res \<longleftrightarrow>
     (case res of
        (r, Some log) \<Rightarrow> r = 1 \<and> (\<exists>q \<ge> p. log_map t q = Some log \<and>
                                   (\<forall>q'. p \<le> q' \<and> q' < q \<longrightarrow> log_map t q' = None))
      | (r, None) \<Rightarrow> r = 0 \<and> (\<forall>q \<ge> p. log_map t q = None))"

lemma load_at_seek_next:
  assumes srt: "sorted_keys (tbl (db s))" and lok: "log_ok s"
  shows "is_next (tbl (db s)) p (load_at (seek (encode_seq_key p) (liter_new (db s))))"
    (is "is_next ?t p (load_at ?it)")
  using srt
proof (cases rule: seek_least [where x = "encode_seq_key p"])
  case out
  then have "log_map ?t q = None" if "q \<ge> p" for q
    using that by (auto simp: log_map_None [OF srt] encode_seq_key_less)
  with out show ?thesis by (simp add: is_next_def load_at_def)
next
  case (at k v)
  have none: "log_map ?t q = None" if "p \<le> q" "encode_seq_key q < k" for q
    using that at by (auto simp: log_map_None [OF srt] encode_seq_key_le)
  show ?thesis
  proof (cases "is_log_key k")
    case True
    then obtain q where q: "k = encode_seq_key q" "load_at ?it = (1, Some v)"
      using load_at_log_ok [OF lok at(1,2)] at by blast
    with at none show ?thesis
      by (auto simp: is_next_def log_map_in [OF srt] encode_seq_key_less encode_seq_key_le)
  next
    case False
    then have "log_map ?t q = None" if "p \<le> q" for q
      using none [OF that] at(5) log_key_between [of p k q]
      by (cases "encode_seq_key q < k") (auto simp: not_less)
    with False at show ?thesis by (simp add: is_next_def load_at_data)
  qed
qed

lemma find_next_is_next:
  assumes "sorted_keys (tbl (db s))" "log_ok s" "encode_seq_key p \<notin> unreadable (db s)"
  shows "is_next (tbl (db s)) p (find_next s p)"
proof (cases "log_map (tbl (db s)) p")
  case (Some v)
  then have "(encode_seq_key p, v) \<in> set (tbl (db s))" by (simp add: log_map_in [OF assms(1)])
  with assms(2) obtain t c k where "v = binlog_new p t c k" by (rule log_okD) auto
  with Some assms(3) have "find_next s p = (1, Some v)"
    by (simp add: find_next_def bl_get_def ldb_get_readable log_map_def)
  with Some show ?thesis by (auto simp: is_next_def)
next
  case None
  with assms(3) have "find_next s p = load_at (seek (encode_seq_key p) (liter_new (db s)))"
    by (simp add: find_next_def bl_get_def ldb_get_readable log_map_def)
  then show ?thesis using load_at_seek_next [OF assms(1,2)] by simp
qed

text \<open>The outcome of looking for the last record.\<close>

definition is_last :: "table \<Rightarrow> int \<times> bytes option \<Rightarrow> bool" where
  "is_last t res \<longleftrightarrow>
     (case res of
        (r, Some log) \<Rightarrow> r = 1 \<and> log_map t (binlog_seq log) = Some log \<and>
                         (\<forall>q > binlog_seq log. q \<noteq> - 1 \<longrightarrow> log_map t q = None)
      | (r, None) \<Rightarrow> r = 0 \<and> (\<forall>q. q \<noteq> - 1 \<longrightarrow> log_map t q = None))"

lemma find_last_seek_before:
  "find_last s = load_at (seek_before (encode_seq_key (- 1)) (liter_new (db s)))"
  by (simp add: find_last_def seek_before_def Let_def)

lemma find_last_is_last:
  assumes srt: "sorted_keys (tbl (db s))" and lok: "log_ok s"
  shows "is_last (tbl (db s)) (find_last s)"
  using srt
proof (cases rule: seek_before_greatest [where x = "encode_seq_key (- 1)"])
  case out
  have "log_map (tbl (db s)) q = None" if "q \<noteq> - 1" for q
    using out that by (auto simp: log_map_None [OF srt] encode_seq_key_le word_order.extremum_unique)
  with out show ?thesis by (simp add: is_last_def find_last_seek_before load_at_def)
next
  case (at k v)
  let ?it = "seek_before (encode_seq_key (- 1)) (liter_new (db s))"
  have none: "log_map (tbl (db s)) q = None" if "k < encode_seq_key q" "q \<noteq> - 1" for q
    using that at by (force simp: log_map_None [OF srt] encode_seq_key_less order.not_eq_order_implies_strict)
  show ?thesis
  proof (cases "is_log_key k")
    case True
    then obtain q where q: "k = encode_seq_key q" "load_at ?it = (1, Some v)"
      using load_at_log_ok [OF lok at(1,2)] at by blast
    moreover have "binlog_seq v = q" using lok at(4) True q by (auto elim!: log_okD)
    ultimately show ?thesis
      using at none by (auto simp: is_last_def find_last_seek_before log_map_in [OF srt] encode_seq_key_less)
  next
    case False
    then have "log_map (tbl (db s)) q = None" if "q \<noteq> - 1" for q
      using none [OF _ that] at(5) log_key_between [of q k "- 1"]
      by (cases "k < encode_seq_key q") (auto simp: not_less)
    with False at show ?thesis by (simp add: is_last_def find_last_seek_before load_at_data)
  qed
qed

section \<open>Ranges\<close>

lemma word_less_succ: "(q :: u64) \<noteq> - 1 \<Longrightarrow> unat (q + 1) = Suc (unat q)"
proof -
  assume "q \<noteq> - 1"
  then have "q < - 1" by (simp add: word_order.not_eq_extremum)
  then have "unat q < 2 ^ 64 - 1"
    by (simp add: word_less_nat_alt unsigned_minus_1_eq_mask mask_eq_exp_minus_1)
  then show ?thesis by (simp add: unat_word_ariths)
qed

lemma fold_dels:
  "\<forall>w \<in> set ws. \<exists>k. w = WDel k \<Longrightarrow>
     fold mstep ws m = (\<lambda>k. if k \<in> wop_key ` set ws then None else m k)"
  by (induction ws arbitrary: m) (auto simp: fun_eq_iff)

lemma del_chunk_spec:
  assumes "end \<noteq> - 1" "del_chunk n start end = (ops, start')"
  shows "start \<le> start' \<and> (0 < n \<and> start \<le> end \<longrightarrow> start < start') \<and>
    (start \<le> end \<longrightarrow> unat start' \<le> unat end + 1) \<and> (\<not> start \<le> end \<longrightarrow> start' = start) \<and>
    (\<forall>w \<in> set ops. \<exists>k. w = WDel k) \<and>
    wop_key ` set ops = encode_seq_key ` {q. start \<le> q \<and> q < start'}"
  using assms(2)
proof (induction n arbitrary: start ops)
  case 0
  then show ?case by (auto simp: word_le_nat_alt word_less_nat_alt)
next
  case (Suc n)
  show ?case
  proof (cases "start \<le> end")
    case True
    then have "start \<noteq> - 1" using assms(1) word_order.extremum_uniqueI by blast
    then have s1: "unat (start + 1) = Suc (unat start)" by (rule word_less_succ)
    obtain ops' where ops: "ops = WDel (encode_seq_key start) # ops'"
        "del_chunk n (start + 1) end = (ops', start')"
      using Suc.prems True by (auto split: prod.splits)
    from Suc.IH [OF ops(2)] have IH: "start + 1 \<le> start'"
      "(start + 1 \<le> end \<longrightarrow> unat start' \<le> unat end + 1)" "(\<not> start + 1 \<le> end \<longrightarrow> start' = start + 1)"
      "\<forall>w \<in> set ops'. \<exists>k. w = WDel k"
      "wop_key ` set ops' = encode_seq_key ` {q. start + 1 \<le> q \<and> q < start'}" by blast+
    have "{q. start \<le> q \<and> q < start'} = insert start {q. start + 1 \<le> q \<and> q < start'}"
      using s1 IH(1) by (auto simp: word_le_nat_alt word_less_nat_alt word_unat_eq_iff)
    moreover have "unat start' \<le> unat end + 1"
      using IH(2,3) s1 True by (cases "start + 1 \<le> end") (auto simp: word_le_nat_alt)
    ultimately show ?thesis
      using ops IH s1 True by (auto simp: word_le_nat_alt word_less_nat_alt)
  next
    case False
    with Suc.prems show ?thesis by auto
  qed
qed

text \<open>What a finished deletion of a range of log numbers leaves.\<close>

definition range_deleted :: "u64 \<Rightarrow> u64 \<Rightarrow> table \<Rightarrow> table \<Rightarrow> bool" where
  "range_deleted start end t t' \<longleftrightarrow>
     map_of t' = (\<lambda>k. if \<exists>q. start \<le> q \<and> q \<le> end \<and> k = encode_seq_key q then None else map_of t k)"

lemma range_deleted_step:
  assumes first: "map_of t1 = (\<lambda>k. if k \<in> encode_seq_key ` {q. start \<le> q \<and> q < start'} then None
      else map_of t k)"
    and bounds: "start \<le> start'" "unat start' \<le> unat end + 1"
    and rest: "range_deleted start' end t1 t2"
  shows "range_deleted start end t t2"
proof -
  have range: "start \<le> q \<and> q \<le> end \<longleftrightarrow> start \<le> q \<and> q < start' \<or> start' \<le> q \<and> q \<le> end" for q
    using bounds by (auto simp: word_le_nat_alt word_less_nat_alt)
  show ?thesis
    unfolding range_deleted_def
  proof
    fix k
    have "map_of t2 k = (if \<exists>q. start' \<le> q \<and> q \<le> end \<and> k = encode_seq_key q then None
        else if k \<in> encode_seq_key ` {q. start \<le> q \<and> q < start'} then None else map_of t k)"
      using rest unfolding range_deleted_def first by (rule fun_cong)
    also have "\<dots> = (if \<exists>q. start \<le> q \<and> q \<le> end \<and> k = encode_seq_key q then None else map_of t k)"
      using range by (auto simp: image_iff)
    finally show "map_of t2 k =
        (if \<exists>q. start \<le> q \<and> q \<le> end \<and> k = encode_seq_key q then None else map_of t k)" .
  qed
qed

lemma del_range_total:
  assumes "end \<noteq> - 1"
  obtains r s' where "del_range start end s = Some (r, s')"
    "r = 0 \<and> range_deleted start end (tbl (db s)) (tbl (db s')) \<or>
     r = -1 \<and> wfaults (db s) \<noteq> []"
    "s\<lparr>db := db s'\<rparr> = s'" "sorted_keys (tbl (db s)) \<longrightarrow> sorted_keys (tbl (db s'))"
proof -
  have "\<exists>r s'. del_range start end s = Some (r, s') \<and>
      (r = 0 \<and> range_deleted start end (tbl (db s)) (tbl (db s')) \<or> r = -1 \<and> wfaults (db s) \<noteq> []) \<and>
      s\<lparr>db := db s'\<rparr> = s' \<and> (sorted_keys (tbl (db s)) \<longrightarrow> sorted_keys (tbl (db s')))"
  proof (induction "unat end + 1 - unat start" arbitrary: start s rule: less_induct)
    case less
    show ?case
    proof (cases "start \<le> end")
      case False
      then have "range_deleted start end (tbl (db s)) (tbl (db s))"
        by (auto simp: range_deleted_def fun_eq_iff)
      with False show ?thesis by (simp add: del_range.simps [of start "end"])
    next
      case True
      obtain ops start' where c: "del_chunk 1000 start end = (ops, start')" by fastforce
      note spec = del_chunk_spec [OF assms c]
      obtain ok d where w: "ldb_write ops (db s) = (ok, d)" by fastforce
      note unf = del_range.simps [of start "end" s]
      show ?thesis
      proof (cases ok)
        case False
        then have "wfaults (db s) \<noteq> []" using w by (auto simp: ldb_write_def)
        with True False c w show ?thesis by (auto simp: unf ldb_write_tbl)
      next
        case ok: True
        let ?s1 = "s\<lparr>db := d\<rparr>"
        have t1: "tbl d = tbatch ops (tbl (db s))" using w ok ldb_write_tbl by simp
        have "unat end + 1 - unat start' < unat end + 1 - unat start"
          using spec True by (auto simp: word_le_nat_alt word_less_nat_alt)
        from less [OF this, of ?s1] obtain r s' where IH:
          "del_range start' end ?s1 = Some (r, s')"
          "r = 0 \<and> range_deleted start' end (tbl d) (tbl (db s')) \<or> r = -1 \<and> wfaults d \<noteq> []"
          "s\<lparr>db := db s'\<rparr> = s'" "sorted_keys (tbl d) \<longrightarrow> sorted_keys (tbl (db s'))"
          by auto
        have "wfaults d \<noteq> [] \<Longrightarrow> wfaults (db s) \<noteq> []"
          using w by (auto simp: ldb_write_def)
        moreover have "range_deleted start' end (tbl d) (tbl (db s')) \<Longrightarrow>
            range_deleted start end (tbl (db s)) (tbl (db s'))"
        proof (rule range_deleted_step)
          have dels: "\<forall>w \<in> set ops. \<exists>k. w = WDel k"
            and keys: "wop_key ` set ops = encode_seq_key ` {q. start \<le> q \<and> q < start'}"
            using spec by blast+
          show "map_of (tbl d) = (\<lambda>k. if k \<in> encode_seq_key ` {q. start \<le> q \<and> q < start'} then None
              else map_of (tbl (db s)) k)"
            unfolding t1 map_of_tbatch fold_dels [OF dels] keys ..
        qed (use spec True in blast)+
        moreover have "del_range start end s = Some (r, s')"
          using True ok c w IH(1) by (simp add: unf)
        moreover have "sorted_keys (tbl (db s)) \<longrightarrow> sorted_keys (tbl (db s'))"
          using IH(4) t1 sorted_tbatch by simp
        ultimately show ?thesis using IH(2,3) by blast
      qed
    qed
  qed
  then show thesis using that by blast
qed

section \<open>A new database\<close>

definition empty_ldb :: ldb where
  "empty_ldb = \<lparr>tbl = [], unreadable = {}, wfaults = []\<rparr>"

definition empty_ssdb :: ssdb where
  "empty_ssdb = bl_open empty_ldb True 20000000"

lemma empty_ssdb_simps [simp]:
  "db empty_ssdb = empty_ldb" "min_seq empty_ssdb = 0" "last_seq empty_ssdb = 0"
  "tran_seq empty_ssdb = 0" "enabled empty_ssdb" "capacity empty_ssdb = 20000000"
  by (simp_all add: empty_ssdb_def bl_open_def Let_def find_last_def find_next_def bl_get_def
      load_at_def ldb_get_def empty_ldb_def seek_def seek_last_def liter_new_def liter_at_def valid_def)

lemma empty_ldb_simps [simp]:
  "tbl empty_ldb = []" "unreadable empty_ldb = {}" "wfaults empty_ldb = []" "reliable empty_ldb"
  by (simp_all add: empty_ldb_def reliable_def)

section \<open>Correctness\<close>

text \<open>
  The key of a log record decodes to its sequence number, and the records lie in the
  database in the order of their numbers.
\<close>

theorem seq_key_codec:
  "decode_seq_key (encode_seq_key p) = p \<and>
   (encode_seq_key p < encode_seq_key q \<longleftrightarrow> unat p < unat q)"
  by (simp add: encode_seq_key_less word_less_nat_alt)

lemma log_writes_map:
  assumes "unat q + length ls < 2 ^ 64"
  shows "fold mstep (log_writes lt q ls) m (encode_seq_key p) =
    (if q < p \<and> unat p \<le> unat q + length ls
     then Some (binlog_new p lt (fst (ls ! (unat p - unat q - 1))) (snd (ls ! (unat p - unat q - 1))))
     else m (encode_seq_key p))"
  using assms
proof (induction ls arbitrary: q m)
  case Nil
  then show ?case by (auto simp: word_less_nat_alt)
next
  case (Cons l ls)
  obtain c k where l: "l = (c, k)" by fastforce
  have "q \<noteq> - 1"
  proof
    assume "q = - 1"
    then have "unat q = 2 ^ 64 - 1" by (simp add: unsigned_minus_1_eq_mask mask_eq_exp_minus_1)
    with Cons.prems show False by simp
  qed
  then have q1: "unat (q + 1) = Suc (unat q)" by (rule word_less_succ)
  have IH: "fold mstep (log_writes lt (q + 1) ls) m' (encode_seq_key p) =
    (if q + 1 < p \<and> unat p \<le> unat (q + 1) + length ls
     then Some (binlog_new p lt (fst (ls ! (unat p - unat (q + 1) - 1))) (snd (ls ! (unat p - unat (q + 1) - 1))))
     else m' (encode_seq_key p))" for m'
    using Cons.prems q1 by (intro Cons.IH) simp
  show ?case
  proof (cases "p = q + 1")
    case True
    have "unat p = Suc (unat q)" using q1 True by simp
    then show ?thesis
      using IH [of "m(encode_seq_key (q + 1) \<mapsto> binlog_new (q + 1) lt c k)"]
      by (simp add: l True [symmetric] word_less_nat_alt)
  next
    case False
    then have ne: "unat p \<noteq> Suc (unat q)" using q1 by (metis word_unat_eq_iff)
    have "(l # ls) ! (unat p - unat q - 1) = ls ! (unat p - Suc (unat q) - 1)"
      if "Suc (unat q) < unat p"
      using that by (simp add: nth_Cons')
    with False ne show ?thesis
      by (auto simp: l IH q1 word_less_nat_alt)
  qed
qed

text \<open>
  C8: a write operation with log entries commits its data and its log in one step: if the write
  succeeds, the data changes as its puts and deletes say, entry \<open>i\<close> of its log stands under the
  number \<open>last_seq + i\<close>, older records stay, and the last number advances by their count; if it
  fails, data, log and number are as before and the result is -1.
\<close>

theorem transaction_atomic:
  assumes "\<forall>w \<in> set (acts_ops as). data_op w" "unat (last_seq s) + length (acts_logs as) < 2 ^ 64"
    and "transaction (\<lambda>s. commit_ret r (run_acts lt as s)) s = (r', s')"
  shows "if write_ok (db s)
    then r' = r \<and> data s' = fold mstep (acts_ops as) (data s) \<and>
      (enabled s \<longrightarrow> unat (last_seq s') = unat (last_seq s) + length (acts_logs as) \<and>
         (\<forall>i < length (acts_logs as).
            log_map (tbl (db s')) (last_seq s + of_nat (Suc i)) =
              Some (binlog_new (last_seq s + of_nat (Suc i)) lt
                      (fst (acts_logs as ! i)) (snd (acts_logs as ! i)))) \<and>
         (\<forall>q \<le> last_seq s. log_map (tbl (db s')) q = log_map (tbl (db s)) q))
    else r' = -1 \<and> tbl (db s') = tbl (db s) \<and> last_seq s' = last_seq s"
proof -
  let ?n = "length (acts_logs as)" and ?q = "last_seq s"
  have t: "r' = fst (act_tran lt as r s)" "s' = snd (act_tran lt as r s)"
    using assms(3) by (simp_all add: transaction_commit)
  have un: "unat (?q + of_nat j) = unat ?q + j" if "j \<le> ?n" for j
    using that assms(2) by (simp add: unat_word_ariths unat_of_nat)
  show ?thesis
  proof (cases "write_ok (db s)")
    case False
    then show ?thesis by (simp add: t act_tran_result act_tran_tbl act_tran_last_seq)
  next
    case True
    have log: "log_map (tbl (db s')) p =
      (if ?q < p \<and> unat p \<le> unat ?q + ?n
       then Some (binlog_new p lt (fst (acts_logs as ! (unat p - unat ?q - 1)))
                    (snd (acts_logs as ! (unat p - unat ?q - 1))))
       else log_map (tbl (db s)) p)" if "enabled s" for p
      unfolding t act_tran_log [OF assms(1)] log_writes_map [OF assms(2)]
      using True that by (simp add: log_map_def)
    have "log_map (tbl (db s')) (?q + of_nat (Suc i)) =
        Some (binlog_new (?q + of_nat (Suc i)) lt (fst (acts_logs as ! i)) (snd (acts_logs as ! i)))"
      if "enabled s" "i < ?n" for i
      using that un [of "Suc i"] by (simp add: log word_less_nat_alt del: of_nat_Suc)
    moreover have "log_map (tbl (db s')) p = log_map (tbl (db s)) p" if "enabled s" "p \<le> ?q" for p
      using that by (simp add: log leD)
    ultimately show ?thesis
      using True un [of ?n]
      by (simp add: t act_tran_result act_tran_data [OF assms(1)] act_tran_last_seq del: of_nat_Suc)
  qed
qed

lemma transaction_atomic_witness:
  "let (r', s') = transaction (\<lambda>s. commit_ret 1 (run_acts BT_SYNC
       [APut [107, 1] [7], ALog BC_KSET [107, 1]] s)) empty_ssdb
   in r' = 1 \<and> data s' [107, 1] = Some [7] \<and>
      log_map (tbl (db s')) 1 = Some (binlog_new 1 BT_SYNC BC_KSET [107, 1])"
proof -
  let ?as = "[APut [107, 1] [7], ALog BC_KSET [107, 1]]"
  obtain r' s' where rs: "transaction (\<lambda>s. commit_ret 1 (run_acts BT_SYNC ?as s)) empty_ssdb = (r', s')"
    by fastforce
  have "\<forall>w \<in> set (acts_ops ?as). data_op w"
    "unat (last_seq empty_ssdb) + length (acts_logs ?as) < 2 ^ 64" by simp_all
  from transaction_atomic [OF this rs] show ?thesis unfolding rs by simp
qed

text \<open>
  with a log in order, \<open>find_next\<close> returns the first record at or past the number, and
  \<open>find_last\<close> the last record; each returns 0 exactly when there is none.
\<close>

theorem find_records:
  assumes "sorted_keys (tbl (db s))" "log_ok s" "encode_seq_key p \<notin> unreadable (db s)"
  shows "is_next (tbl (db s)) p (find_next s p) \<and> is_last (tbl (db s)) (find_last s)"
  using find_next_is_next [OF assms] find_last_is_last [OF assms(1,2)] by simp

definition one_log :: ssdb where
  "one_log = empty_ssdb\<lparr>last_seq := 5,
     db := empty_ldb\<lparr>tbl := [(encode_seq_key 5, binlog_new 5 1 1 [107])]\<rparr>\<rparr>"

lemma find_records_witness: "find_next one_log 2 = (1, Some (binlog_new 5 1 1 [107]))"
proof -
  have "log_ok one_log" by (auto simp: log_ok_def one_log_def)
  moreover have "sorted_keys (tbl (db one_log))" "encode_seq_key 2 \<notin> unreadable (db one_log)"
    by (simp_all add: one_log_def)
  ultimately have n: "is_next (tbl (db one_log)) 2 (find_next one_log 2)"
    using find_records by blast
  have m: "log_map (tbl (db one_log)) = [5 \<mapsto> binlog_new 5 1 1 [107]]"
    by (auto simp: log_map_def one_log_def)
  show ?thesis
    using n by (auto simp: is_next_def m split: prod.splits option.splits if_splits)
qed

text \<open>
  C30: deleting a range of log numbers returns, for every end but the largest number, either with
  all records of the range gone and every other entry in place, or with -1 after a failed write.
\<close>

theorem del_range_returns:
  assumes "end \<noteq> - 1"
  shows "\<exists>r s'. del_range start end s = Some (r, s') \<and>
    (r = 0 \<and> range_deleted start end (tbl (db s)) (tbl (db s')) \<or> r = -1 \<and> wfaults (db s) \<noteq> [])"
  using del_range_total [OF assms, of start s] by metis

lemma del_range_returns_witness:
  "\<exists>s'. del_range 1 7 one_log = Some (0, s') \<and> map_of (tbl (db s')) = Map.empty"
proof -
  have "(7 :: u64) \<noteq> - 1" by simp
  from del_range_returns [OF this, of 1 one_log] obtain r s' where
    "del_range 1 7 one_log = Some (r, s')"
    "r = 0 \<and> range_deleted 1 7 (tbl (db one_log)) (tbl (db s')) \<or> r = -1 \<and> wfaults (db one_log) \<noteq> []"
    by blast
  then have "del_range 1 7 one_log = Some (0, s')" "range_deleted 1 7 (tbl (db one_log)) (tbl (db s'))"
    by (auto simp: one_log_def)
  moreover from this(2) have "map_of (tbl (db s')) k = None" for k
    by (auto simp: range_deleted_def one_log_def)
  ultimately show ?thesis by blast
qed

text \<open>
  C29: opening a database whose log is in order takes up the number of its last record, so
  that the next transaction numbers its records after it.
\<close>

theorem open_resumes:
  assumes "sorted_keys (tbl d)" "log_ok (s\<lparr>db := d\<rparr>)" "log_map (tbl d) q = Some v" "q \<noteq> - 1"
    and "\<forall>p > q. log_map (tbl d) p = None"
  shows "last_seq (bl_open d en cap) = q"
proof -
  let ?s0 = "\<lparr>db = d, min_seq = 0, last_seq = 0, tran_seq = 0, capacity = cap, batch = [],
    enabled = en\<rparr> :: ssdb"
  have "is_last (tbl d) (find_last (s\<lparr>db := d\<rparr>))"
    using find_last_is_last [of "s\<lparr>db := d\<rparr>"] assms(1,2) by simp
  moreover have "find_last (s\<lparr>db := d\<rparr>) = find_last ?s0" by (simp add: find_last_def)
  ultimately obtain log where log: "find_last ?s0 = (1, Some log)"
      "log_map (tbl d) (binlog_seq log) = Some log"
      "\<forall>p > binlog_seq log. p \<noteq> - 1 \<longrightarrow> log_map (tbl d) p = None"
    using assms(3,4) by (cases "find_last ?s0") (auto simp: is_last_def split: option.splits)
  have "binlog_seq log = q"
    using log(2,3) assms(3-5) by (metis linorder_neqE option.distinct(1))
  then show ?thesis
    unfolding bl_open_def Let_def log(1) by (simp split: prod.split option.split)
qed

lemma open_resumes_witness: "last_seq (bl_open (db one_log) True 20000000) = 5"
proof -
  have l: "one_log\<lparr>db := db one_log\<rparr> = one_log" by simp
  have "log_ok (one_log\<lparr>db := db one_log\<rparr>)" unfolding l by (auto simp: log_ok_def one_log_def)
  moreover have m: "log_map (tbl (db one_log)) = [5 \<mapsto> binlog_new 5 1 1 [107]]"
    by (auto simp: log_map_def one_log_def)
  moreover have "sorted_keys (tbl (db one_log))" by (simp add: one_log_def)
  moreover have "log_map (tbl (db one_log)) 5 = Some (binlog_new 5 1 1 [107])"
    "\<forall>p > 5. log_map (tbl (db one_log)) p = None" by (auto simp: m)
  ultimately show ?thesis using open_resumes [of "db one_log" one_log 5] by simp
qed

end
