(* ===== verification/Transaction_Walk.thy ===== *)
theory Transaction_Walk
  imports Binlog
begin

text \<open>
  Reasoning along the code of a transaction. An operation is a chain of pieces that hand over the
  state; it returns early or ends in a commit. \<open>I\<close> is what holds while the transaction is open,
  \<open>Q\<close> what holds once it is over, and the rules below follow the structure of the code: an
  operation is proved by applying them from its outermost construct inwards.
\<close>

definition ends :: "(ssdb \<Rightarrow> bool) \<Rightarrow> (ssdb \<Rightarrow> bool) \<Rightarrow> bool \<Rightarrow> 'r \<times> ssdb \<Rightarrow> bool" where
  "ends I Q open r \<longleftrightarrow> (if open then I (snd r) else Q (snd r))"

lemma ends_if: "ends I Q b x \<Longrightarrow> ends I Q b y \<Longrightarrow> ends I Q b (if c then x else y)"
  by simp

lemma ends_let: "ends I Q b (f x) \<Longrightarrow> ends I Q b (Let x f)"
  by simp

lemma ends_let_state: "I s \<Longrightarrow> (\<And>s'. I s' \<Longrightarrow> ends I Q b (f s')) \<Longrightarrow> ends I Q b (Let s f)"
  by simp

lemma ends_bind:
  "ends I Q True x \<Longrightarrow> (\<And>a s. I s \<Longrightarrow> ends I Q b (f a s)) \<Longrightarrow>
     ends I Q b (case x of (a, s) \<Rightarrow> f a s)"
  by (simp add: ends_def split_beta)

text \<open>A pair that was read from the database holds no state.\<close>

lemma ends_read:
  fixes v :: "'a \<times> 'b option" and w :: "'a \<times> 'n::len word" and e :: "'a \<times> bool"
  shows "(\<And>x y. ends I Q b (f x y)) \<Longrightarrow> ends I Q b (case v of (x, y) \<Rightarrow> f x y)"
    and "(\<And>x y. ends I Q b (g x y)) \<Longrightarrow> ends I Q b (case w of (x, y) \<Rightarrow> g x y)"
    and "(\<And>x y. ends I Q b (h x y)) \<Longrightarrow> ends I Q b (case e of (x, y) \<Rightarrow> h x y)"
  by (simp_all add: split_beta)

text \<open>A piece that hands over two values and the state.\<close>

lemma ends_bind2:
  "I (snd (snd x)) \<Longrightarrow> (\<And>a c s. I s \<Longrightarrow> ends I Q b (f a c s)) \<Longrightarrow>
     ends I Q b (case x of (a, c, s) \<Rightarrow> f a c s)"
  by (simp add: split_beta)

lemmas ends_structure =
  ends_if ends_let_state ends_let ends_read ends_bind2 ends_bind

text \<open>
  The contract between a property of transactions and the rules: what the open state \<open>I\<close> gives
  when the code returns without a commit, when it commits, and that only the sequence number of
  the transaction is reset at the end.
\<close>

locale transaction_walk =
  fixes I Q :: "ssdb \<Rightarrow> bool"
  assumes return: "I s \<Longrightarrow> Q s"
    and commit: "I s \<Longrightarrow> Q (snd (commit_ret r s))"
    and rollback: "Q s \<Longrightarrow> Q (bl_rollback s)"
begin

lemma ends_return: "I s \<Longrightarrow> ends I Q open (a, s)"
  by (simp add: ends_def return)

lemma ends_commit: "I s \<Longrightarrow> ends I Q False (commit_ret r s)"
  by (simp add: ends_def commit)

lemma ends_commit_then: "I s \<Longrightarrow> ends I Q False (case commit_ret r s of (a, s') \<Rightarrow> (g a, s'))"
  using commit [of s r] by (simp add: ends_def split_beta)

lemma ends_transaction:
  "I (bl_begin s) \<Longrightarrow> (\<And>s'. I s' \<Longrightarrow> ends I Q False (body s')) \<Longrightarrow>
     ends I Q False (transaction body s)"
  using rollback by (simp add: ends_def transaction_def split_beta Let_def)

lemma snd_two:
  "I s \<Longrightarrow> I (snd (snd (a, c, s)))"
  "I (snd (snd (f v))) \<Longrightarrow> I (snd (snd (Let v f)))"
  "I (snd (snd x)) \<Longrightarrow> I (snd (snd y)) \<Longrightarrow> I (snd (snd (if p then x else y)))"
  "ends I Q True z \<Longrightarrow> (\<And>a s. I s \<Longrightarrow> I (snd (snd (g a s)))) \<Longrightarrow>
     I (snd (snd (case z of (a, s) \<Rightarrow> g a s)))"
  by (simp_all add: ends_def split_beta)

lemma ends_snd: "ends I Q True r \<Longrightarrow> I (snd r)"
  by (simp add: ends_def)

lemmas ends_rules = ends_return ends_commit_then ends_commit ends_structure snd_two ends_snd

end

end
