(* ===== verification/Util_Bytes.thy ===== *)
theory Util_Bytes
  imports Util_Strings
begin

text \<open>
  \<open>ssdb/util/bytes.h\<close> and \<open>bytes.cpp\<close>: comparison of \<open>Bytes\<close>, the \<open>Decoder\<close> the key codecs
  read with, and the \<open>Buffer\<close> with its length-prefixed records.
\<close>

section \<open>Bytes\<close>

text \<open>
  \<open>memcmp\<close> over the first \<open>n\<close> bytes: the sign of the difference of the first two bytes that
  differ, taken as unsigned.
\<close>

fun memcmp :: "bytes \<Rightarrow> bytes \<Rightarrow> nat \<Rightarrow> int" where
  "memcmp (x # xs) (y # ys) (Suc n) =
     (if x < y then -1 else if y < x then 1 else memcmp xs ys n)"
| "memcmp _ _ _ = 0"

definition bytes_compare :: "bytes \<Rightarrow> bytes \<Rightarrow> int" where
  "bytes_compare a b =
     (let min_len = (if length a < length b then length a else length b);
          r = memcmp a b min_len
      in if r = 0
         then (if length a < length b then -1 else if length a > length b then 1 else r)
         else r)"

definition bytes_eq :: "bytes \<Rightarrow> bytes \<Rightarrow> bool" where
  "bytes_eq x y \<longleftrightarrow> length x = length y \<and> memcmp x y (length x) = 0"

definition bytes_Int64 :: "bytes \<Rightarrow> i64" where
  "bytes_Int64 s = fst (str_to_int64 s)"

definition bytes_Int :: "bytes \<Rightarrow> int" where
  "bytes_Int s = fst (str_to_int s)"

definition bytes_Uint64 :: "bytes \<Rightarrow> u64" where
  "bytes_Uint64 s = fst (str_to_uint64 s)"

lemma bytes_compare_Nil [simp]:
  "bytes_compare [] [] = 0" "bytes_compare [] (y # ys) = -1" "bytes_compare (x # xs) [] = 1"
  by (simp_all add: bytes_compare_def)

lemma bytes_compare_Cons [simp]:
  "bytes_compare (x # xs) (y # ys) =
     (if x < y then -1 else if y < x then 1 else bytes_compare xs ys)"
  by (auto simp: bytes_compare_def Let_def)

lemma bytes_compare_cases:
  "bytes_compare a b = (if a < b then -1 else if b < a then 1 else 0)"
proof (induction a arbitrary: b)
  case Nil
  then show ?case by (cases b) auto
next
  case (Cons x xs)
  then show ?case by (cases b) auto
qed

lemma memcmp_eq: "length x = length y \<Longrightarrow> memcmp x y (length x) = 0 \<longleftrightarrow> x = y"
  by (induction x y rule: list_induct2) auto

text \<open>
  The comparison operators are the lexicographic order of bytes, which is also the order of the
  keys of the database.
\<close>

definition bytes_ne :: "bytes \<Rightarrow> bytes \<Rightarrow> bool" where "bytes_ne x y = (\<not> bytes_eq x y)"
definition bytes_gt :: "bytes \<Rightarrow> bytes \<Rightarrow> bool" where "bytes_gt x y = (bytes_compare x y > 0)"
definition bytes_ge :: "bytes \<Rightarrow> bytes \<Rightarrow> bool" where "bytes_ge x y = (bytes_compare x y \<ge> 0)"
definition bytes_lt :: "bytes \<Rightarrow> bytes \<Rightarrow> bool" where "bytes_lt x y = (bytes_compare x y < 0)"
definition bytes_le :: "bytes \<Rightarrow> bytes \<Rightarrow> bool" where "bytes_le x y = (bytes_compare x y \<le> 0)"

lemma bytes_operators:
  "bytes_ne x y \<longleftrightarrow> x \<noteq> y" "bytes_gt x y \<longleftrightarrow> x > y" "bytes_ge x y \<longleftrightarrow> x \<ge> y"
  "bytes_lt x y \<longleftrightarrow> x < y" "bytes_le x y \<longleftrightarrow> x \<le> y"
  using memcmp_eq [of x y]
  by (auto simp: bytes_ne_def bytes_gt_def bytes_ge_def bytes_lt_def bytes_le_def bytes_compare_cases
      bytes_eq_def)

section \<open>Decoder\<close>

text \<open>
  A decoder is the bytes it has not read. An operation that fails returns \<open>None\<close> for the
  code's \<open>-1\<close>; the callers use no other part of the return value.
\<close>

type_synonym decoder = bytes

definition dec_skip :: "nat \<Rightarrow> decoder \<Rightarrow> decoder option" where
  "dec_skip n d = (if length d < n then None else Some (drop n d))"

definition dec_read_int64 :: "decoder \<Rightarrow> (i64 \<times> decoder) option" where
  "dec_read_int64 d = (if length d < 8 then None else Some (load64 d, drop 8 d))"

definition dec_read_uint64 :: "decoder \<Rightarrow> (u64 \<times> decoder) option" where
  "dec_read_uint64 d = (if length d < 8 then None else Some (load64 d, drop 8 d))"

definition dec_read_data :: "decoder \<Rightarrow> bytes \<times> decoder" where
  "dec_read_data d = (d, [])"

definition dec_read_8_data :: "decoder \<Rightarrow> (bytes \<times> decoder) option" where
  "dec_read_8_data d =
     (case d of
        [] \<Rightarrow> None
      | b # r \<Rightarrow>
          let len = unat b
          in if length r < len then None else Some (take len r, drop len r))"

lemma dec_skip_Cons [simp]: "dec_skip (Suc 0) (b # d) = Some d"
  by (simp add: dec_skip_def)

lemma dec_read_8_data_append [simp]:
  "length s \<le> 255 \<Longrightarrow> dec_read_8_data (of_nat (length s) # s @ d) = Some (s, d)"
  by (simp add: dec_read_8_data_def unat_of_nat)

lemma dec_read_int64_append [simp]: "dec_read_int64 (mem64 w @ d) = Some (w, d)"
  by (simp add: dec_read_int64_def)

lemma dec_read_uint64_append [simp]: "dec_read_uint64 (mem64 w @ d) = Some (w, d)"
  by (simp add: dec_read_uint64_def)

lemma dec_read_uint64_end [simp]: "dec_read_uint64 (mem64 w) = Some (w, [])"
  by (simp add: dec_read_uint64_def)

section \<open>Buffer\<close>

text \<open>
  \<open>off\<close> is \<open>data_ - buf\<close>, \<open>content\<close> the \<open>size_\<close> bytes at \<open>data_\<close>, \<open>total\<close> the size of the
  allocation and \<open>mem_max\<close> the largest size \<open>realloc\<close> grants.
\<close>

record buffer =
  off :: nat
  content :: bytes
  total :: nat
  mem_max :: nat

definition buffer_new :: "nat \<Rightarrow> nat \<Rightarrow> buffer" where
  "buffer_new n m = \<lparr>off = 0, content = [], total = n, mem_max = m\<rparr>"

definition space :: "buffer \<Rightarrow> int" where
  "space b = int (total b) - int (off b) - int (length (content b))"

definition decr :: "nat \<Rightarrow> buffer \<Rightarrow> buffer" where
  "decr n b = b\<lparr>off := off b + n, content := drop n (content b)\<rparr>"

text \<open>
  \<open>buffer_slot\<close>, the offset of the free part, and \<open>buffer_incr\<close> after its caller has stored the bytes \<open>p\<close> there.
\<close>

definition buffer_empty :: "buffer \<Rightarrow> bool" where
  "buffer_empty b = (length (content b) = 0)"

definition buffer_slot :: "buffer \<Rightarrow> nat" where
  "buffer_slot b = off b + length (content b)"

definition buffer_incr :: "bytes \<Rightarrow> buffer \<Rightarrow> buffer" where
  "buffer_incr p b = b\<lparr>content := content b @ p\<rparr>"

definition nice :: "buffer \<Rightarrow> buffer" where
  "nice b = (if content b = [] \<or> off b > total b div 2 then b\<lparr>off := 0\<rparr> else b)"

definition shrink :: "int \<Rightarrow> buffer \<Rightarrow> buffer" where
  "shrink n0 b =
     (let n = (if n0 \<le> 0 then 8 * 1024 else n0)
      in if int (off b) + int (length (content b)) > n then b else b\<lparr>total := nat n\<rparr>)"

text \<open>The size in the code is an \<open>int\<close>; here it is a number, and the memory there is bounds it.\<close>

definition grow_size :: "nat \<Rightarrow> nat" where
  "grow_size t =
     (if t < 8 * 1024 then 8 * 1024 else if t < 512 * 1024 then 8 * t else 2 * t)"

definition grow :: "buffer \<Rightarrow> buffer option" where
  "grow b =
     (let n = grow_size (total b) in if n > mem_max b then None else Some (b\<lparr>total := n\<rparr>))"

lemma grow_size_more: "t < grow_size t"
  by (simp add: grow_size_def)

text \<open>\<open>while(size > this->space()){ if(this->grow() == -1) return -1; }\<close>\<close>

function reserve :: "int \<Rightarrow> buffer \<Rightarrow> bool \<times> buffer" where
  "reserve n b =
     (if n > space b
      then (case grow b of None \<Rightarrow> (False, b) | Some b' \<Rightarrow> reserve n b')
      else (True, b))"
  by pat_completeness auto
termination
proof (relation "measure (\<lambda>(n, b). nat (n - space b))")
  fix n b b' assume "n > space b" "grow b = Some b'"
  moreover from this(2) have "space b < space b'"
    using grow_size_more [of "total b"]
    by (auto simp: grow_def space_def Let_def split: if_splits)
  ultimately show "((n, b'), n, b) \<in> measure (\<lambda>(n, b). nat (n - space b))" by simp
qed simp

declare reserve.simps [simp del]

definition append_mem :: "bytes \<Rightarrow> buffer \<Rightarrow> int \<times> buffer" where
  "append_mem p b =
     (let (ok, b') = reserve (int (length p)) b
      in if \<not> ok then (-1, b')
         else (int (length p), b'\<lparr>content := content b' @ p\<rparr>))"

definition append_record :: "bytes \<Rightarrow> buffer \<Rightarrow> int \<times> buffer" where
  "append_record s b =
     (let (ok, b') = reserve (16 + int (length s) + 1) b
      in if \<not> ok then (-1, b')
         else let len = dec_digits (length s) @ [10]
              in (int (length len + length s + 1), b'\<lparr>content := content b' @ len @ s @ [10]\<rparr>))"

text \<open>
  The outcomes of \<open>read_record\<close>: 0 (no complete record yet), -1 (malformed), 1 with the body,
  and a read at \<open>p\<close> past the data, which the code makes when the 32-bit sum of the lengths wraps.
\<close>

datatype record_result = NoRecord | BadRecord | Record bytes | OutOfBounds

definition wrap32 :: "int \<Rightarrow> int" where
  "wrap32 v = sint (word_of_int v :: 32 word)"

definition atoi :: "bytes \<Rightarrow> int" where
  "atoi s = wrap32 (fst (strtoll s))"

definition read_record :: "buffer \<Rightarrow> record_result \<times> buffer" where
  "read_record b =
     (let head = content b; size = int (length head);
          k = length (takeWhile (\<lambda>c. c \<noteq> 10) head)
      in if k = length head then (NoRecord, b)
         else let head_len = k + 1
         in if \<not> isdigit (hd head) then (BadRecord, b)
         else if head_len + 1 > 20 then (BadRecord, b)
         else let body_len = atoi (take k head)
         in if body_len < 0 then (BadRecord, b)
         else let p = head_len + nat body_len
         in if size \<ge> wrap32 (int head_len + body_len + 1) then
              (if p \<ge> length head then (OutOfBounds, b)
               else if head ! p = 10 then
                 (Record (take (nat body_len) (drop head_len head)), decr (p + 1) b)
               else if head ! p = 13 then
                 (if size \<ge> wrap32 (int head_len + body_len + 2) then
                    (if p + 1 \<ge> length head then (OutOfBounds, b)
                     else if head ! (p + 1) = 10 then
                       (Record (take (nat body_len) (drop head_len head)), decr (p + 2) b)
                     else (BadRecord, b))
                  else (NoRecord, b))
               else (BadRecord, b))
            else (NoRecord, b))"

definition buffer_ok :: "buffer \<Rightarrow> bool" where
  "buffer_ok b \<longleftrightarrow> off b + length (content b) \<le> total b"

lemma reserve_frame:
  "reserve n b = (ok, b') \<Longrightarrow>
     off b' = off b \<and> content b' = content b \<and> total b \<le> total b' \<and> (ok \<longrightarrow> n \<le> space b')"
proof (induction n b rule: reserve.induct)
  case (1 n b)
  show ?case
  proof (cases "n > space b")
    case True
    show ?thesis
    proof (cases "grow b")
      case None
      with "1.prems" True show ?thesis by (simp add: reserve.simps [of n b])
    next
      case (Some c)
      with "1.prems" True have "reserve n c = (ok, b')" by (simp add: reserve.simps [of n b])
      with "1.IH" [OF True Some] Some show ?thesis
        using grow_size_more [of "total b"] by (auto simp: grow_def Let_def split: if_splits)
    qed
  next
    case False
    with "1.prems" show ?thesis by (simp add: reserve.simps [of n b])
  qed
qed

text \<open>Bytes stored in the free part are inside the allocation, and the space shrinks by them.\<close>

lemma buffer_incr_ok:
  assumes "buffer_ok b" "int (length p) \<le> space b"
  shows "buffer_ok (buffer_incr p b)" "buffer_slot (buffer_incr p b) \<le> total b" "space (buffer_incr p b) = space b - int (length p)"
    "\<not> buffer_empty (buffer_incr p b) \<longleftrightarrow> \<not> buffer_empty b \<or> p \<noteq> []"
  using assms by (auto simp: buffer_ok_def buffer_incr_def space_def buffer_slot_def buffer_empty_def)

text \<open>Moving the data to the front never overlaps, so \<open>memcpy\<close> is enough in \<open>nice\<close>.\<close>

lemma nice_no_overlap:
  "buffer_ok b \<Longrightarrow> content b \<noteq> [] \<Longrightarrow> nice b \<noteq> b \<Longrightarrow> length (content b) \<le> off b"
  by (auto simp: buffer_ok_def nice_def split: if_splits)

lemma buffer_ok_ops:
  "buffer_ok (buffer_new n m)"
  "buffer_ok b \<Longrightarrow> n \<le> length (content b) \<Longrightarrow> buffer_ok (decr n b)"
  "buffer_ok b \<Longrightarrow> buffer_ok (nice b)"
  "buffer_ok b \<Longrightarrow> buffer_ok (shrink z b)"
  by (auto simp: buffer_ok_def buffer_new_def decr_def nice_def shrink_def Let_def)

lemma append_mem_ok: "buffer_ok b \<Longrightarrow> append_mem p b = (r, b') \<Longrightarrow> buffer_ok b'"
  by (auto simp: append_mem_def buffer_ok_def space_def split: prod.splits if_splits
      dest!: reserve_frame)

lemma length_dec_digits_int: "n < 2 ^ 31 \<Longrightarrow> length (dec_digits n) \<le> 10"
  by (rule length_dec_digits) auto

lemma append_record_ok:
  assumes "buffer_ok b" "length s < 2 ^ 31" "append_record s b = (r, b')"
  shows "buffer_ok b'"
  using assms length_dec_digits_int [of "length s"]
  by (auto simp: append_record_def buffer_ok_def space_def Let_def split: prod.splits if_splits
      dest!: reserve_frame)

subsection \<open>Records\<close>

lemma wrap32_id: "- 2147483648 \<le> v \<Longrightarrow> v < 2147483648 \<Longrightarrow> wrap32 v = v"
  unfolding wrap32_def by (simp add: signed_of_int signed_take_bit_int_eq_self)

lemma atoi_dec_digits: "n < 2 ^ 31 \<Longrightarrow> atoi (dec_digits n) = int n"
  using strtoll_dec_int [of "int n"]
  by (simp add: atoi_def dec_int_def int64_min_def int64_max_def wrap32_id)

text \<open>What \<open>append_record\<close> writes for one record.\<close>

definition record_bytes :: "bytes \<Rightarrow> bytes" where
  "record_bytes s = dec_digits (length s) @ [10] @ s @ [10]"

lemma append_record_content:
  "append_record s b = (r, b') \<Longrightarrow> r \<noteq> -1 \<Longrightarrow> content b' = content b @ record_bytes s"
  by (auto simp: append_record_def record_bytes_def Let_def split: prod.splits if_splits
      dest!: reserve_frame)

lemma takeWhile_not_newline: "takeWhile (\<lambda>c. c \<noteq> 10) (dec_digits n @ 10 # s) = dec_digits n"
proof -
  have "\<forall>c \<in> set (dec_digits n). c \<noteq> 10"
    using dec_digits_isdigit by (fastforce simp: isdigit_def)
  then show ?thesis by (simp add: takeWhile_append2)
qed

text \<open>Reading back the first record: the body as appended, and the rest stays.\<close>

lemma read_record_bytes:
  assumes "content b = record_bytes s @ rest" "length s < 2 ^ 31 - 20"
  shows "read_record b = (Record s, decr (length (record_bytes s)) b)"
proof -
  let ?d = "dec_digits (length s)"
  have len: "length ?d \<le> 10" using assms(2) by (intro length_dec_digits_int) simp
  have head: "content b = ?d @ 10 # s @ 10 # rest"
    using assms(1) by (simp add: record_bytes_def)
  have digit: "isdigit (hd (content b))"
    unfolding head using dec_digits_isdigit [of "hd ?d" "length s"] by simp
  have at: "atoi ?d = int (length s)" using assms(2) by (intro atoi_dec_digits) simp
  have w: "wrap32 (int (length ?d + 1) + int (length s) + 1) = int (length ?d + length s + 2)"
    using assms(2) len by (subst wrap32_id) auto
  have nl: "content b ! (length ?d + 1 + length s) = 10"
    unfolding head by (simp add: nth_append)
  show ?thesis
    unfolding read_record_def Let_def
    using len digit at w nl by (simp add: head takeWhile_not_newline record_bytes_def)
qed

text \<open>A writer that appends records, stopping at the first failure, and a reader of \<open>n\<close> records.\<close>

fun append_records :: "bytes list \<Rightarrow> buffer \<Rightarrow> buffer option" where
  "append_records [] b = Some b"
| "append_records (s # ss) b =
     (let (r, b') = append_record s b in if r = -1 then None else append_records ss b')"

fun read_records :: "nat \<Rightarrow> buffer \<Rightarrow> record_result list \<times> buffer" where
  "read_records 0 b = ([], b)"
| "read_records (Suc n) b =
     (let (r, b1) = read_record b; (rs, b2) = read_records n b1 in (r # rs, b2))"

lemma append_records_content:
  "append_records ss b = Some b' \<Longrightarrow> content b' = content b @ concat (map record_bytes ss)"
  by (induction ss arbitrary: b) (auto split: prod.splits if_splits dest: append_record_content)

lemma read_records_bytes:
  assumes "content b = concat (map record_bytes ss) @ rest" "\<forall>s \<in> set ss. length s < 2 ^ 31 - 20"
  shows "fst (read_records (length ss) b) = map Record ss \<and>
    content (snd (read_records (length ss) b)) = rest"
  using assms
proof (induction ss arbitrary: b)
  case (Cons s ss)
  let ?b = "decr (length (record_bytes s)) b"
  have "read_record b = (Record s, ?b)"
    using Cons.prems by (intro read_record_bytes) simp_all
  moreover have "content ?b = concat (map record_bytes ss) @ rest"
    using Cons.prems(1) by (simp add: decr_def)
  ultimately show ?case using Cons.IH [of ?b] Cons.prems(2) by (simp add: case_prod_unfold)
qed simp

text \<open>
  C32: records written one after the other by \<open>append_record\<close> are read back by \<open>read_record\<close> in
  the same order, byte for byte, whatever the bodies contain, and nothing is left over. The buffer
  is empty before, and each body has less than 2^31 - 20 bytes.
\<close>

theorem records_roundtrip:
  assumes "content b = []" "append_records ss b = Some b'"
    and "\<forall>s \<in> set ss. length s < 2 ^ 31 - 20"
  shows "fst (read_records (length ss) b') = map Record ss \<and>
    content (snd (read_records (length ss) b')) = []"
  using read_records_bytes [of b' ss "[]"] append_records_content [OF assms(2)] assms(1,3) by simp

lemma records_roundtrip_witness:
  "fst (read_records 2 (the (append_records [[10, 49], []] (buffer_new 8 9000)))) =
     [Record [10, 49], Record []]"
proof -
  have "append_records [[10, 49], []] (buffer_new 8 9000) \<noteq> None"
    by (simp add: append_record_def reserve.simps grow_def grow_size_def space_def buffer_new_def
        dec_digits.simps)
  then obtain b' where b': "append_records [[10, 49], []] (buffer_new 8 9000) = Some b'" by blast
  have "content (buffer_new 8 9000) = []" "\<forall>s \<in> set [[10, 49], [] :: bytes]. length s < 2 ^ 31 - 20"
    by (simp_all add: buffer_new_def)
  from records_roundtrip [OF this(1) b' this(2)] have
    "fst (read_records (length [[10, 49], [] :: bytes]) b') = map Record [[10, 49], []]" by simp
  moreover have "length [[10, 49], [] :: bytes] = 2" by simp
  ultimately show ?thesis by (simp only: b' option.sel list.map)
qed

text \<open>A header of \<open>v\<close> in decimal, and whether the code reads outside the data.\<close>

lemma dec_digits_bound: "n < 10 ^ length (dec_digits n)"
proof (induction n rule: dec_digits.induct)
  case (1 n)
  show ?case
  proof (cases "n < 10")
    case True
    then show ?thesis by (subst dec_digits.simps) simp
  next
    case False
    then have "n div 10 < 10 ^ length (dec_digits (n div 10))" by (rule 1)
    then have "n < 10 * 10 ^ length (dec_digits (n div 10))" by simp
    with False show ?thesis by (subst dec_digits.simps) simp
  qed
qed

lemma wrap32_over:
  assumes "2147483648 \<le> v" "v < 4294967296"
  shows "wrap32 v = v - 4294967296"
proof -
  have "(word_of_int v :: 32 word) = word_of_int (v - 4294967296)"
    by (simp add: word_of_int_eq_iff take_bit_eq_mod)
  then have "wrap32 v = wrap32 (v - 4294967296)" by (simp only: wrap32_def)
  also have "\<dots> = v - 4294967296" by (rule wrap32_id) (use assms in simp_all)
  finally show ?thesis .
qed

text \<open>
  C33: which headers make \<open>read_record\<close> read outside the data. Whatever follows a decimal header
  \<open>v\<close> of an \<open>int\<close>, in any buffer, the code stays inside the data if \<open>v\<close> is less than 2^31 - 12, and
  reads outside it, at offset \<open>v + 11\<close>, if \<open>v\<close> is that or more: the check that the record is complete
  adds the lengths in 32 bits, and the sum is negative. The data has less than 2^31 - 1 bytes.
\<close>

theorem read_record_overflow:
  assumes b: "content b = dec_digits v @ 10 # rest" and v: "v < 2147483648"
    and small: "length (content b) < 2147483647"
  shows "fst (read_record b) = OutOfBounds \<longleftrightarrow> 2147483636 \<le> v"
proof -
  let ?n = "length (dec_digits v)"
  have len: "?n \<le> 10" using v by (intro length_dec_digits_int) simp
  have dig: "isdigit (hd (content b))"
    using dec_digits_isdigit [of "hd (dec_digits v)" v] by (simp add: b)
  have at: "atoi (dec_digits v) = int v" using v by (intro atoi_dec_digits) simp
  have tw: "takeWhile (\<lambda>c. c \<noteq> 10) (content b) = dec_digits v"
    unfolding b by (rule takeWhile_not_newline)
  have k: "?n \<noteq> length (content b)" "take ?n (content b) = dec_digits v" by (simp_all add: b)
  show ?thesis
  proof (cases "2147483636 \<le> v")
    case True
    have "10 \<le> ?n"
    proof (rule ccontr)
      assume "\<not> 10 \<le> ?n"
      then have "(10 :: nat) ^ ?n \<le> 10 ^ 9" by (intro power_increasing) simp_all
      with dec_digits_bound [of v] True show False by simp
    qed
    then have n: "?n = 10" using len by simp
    have "wrap32 (11 + int v + 1) < 0" using True v by (subst wrap32_over) simp_all
    moreover have "\<not> 11 + v < length (content b)" using True small by simp
    ultimately show ?thesis
      using True dig at small unfolding read_record_def Let_def tw k(2) by (simp add: n k(1) [unfolded n])
  next
    case False
    have w: "wrap32 (2 + (int ?n + int v)) = int (?n + v + 2)"
      using False len by (subst wrap32_id) simp_all
    have w2: "wrap32 (3 + (int ?n + int v)) = int (?n + v + 3)" if "?n + v + 2 \<le> length (content b)"
      using that small by (subst wrap32_id) simp_all
    show ?thesis
      using False len dig at k(1) unfolding read_record_def Let_def tw k(2) by (auto simp: w w2)
  qed
qed

lemma read_record_overflow_witness:
  "fst (read_record \<lparr>off = 0, content = dec_digits 2147483647 @ 10 # [], total = 64, mem_max = 64\<rparr>) = OutOfBounds"
proof -
  let ?b = "\<lparr>off = 0, content = dec_digits 2147483647 @ 10 # [], total = 64, mem_max = 64\<rparr>"
  have "length (content ?b) < 2147483647"
    using length_dec_digits_int [of 2147483647] by simp
  with read_record_overflow [of ?b 2147483647 "[]"] show ?thesis by simp
qed

end
