(* ===== verification/Keys.thy ===== *)
theory Keys
  imports Binlog Util_Bytes
begin

text \<open>
  The encoded keys of \<open>t_kv.h\<close>, \<open>t_hash.h\<close>, \<open>t_zset.h\<close> and \<open>t_queue.h\<close>. Every kind of data
  lives in the one ordered key space of the database; the first byte of a key is its
  \<open>DataType\<close>. A decoder returns \<open>None\<close> for -1.
\<close>

section \<open>Encoders and decoders\<close>

definition encode_kv_key :: "bytes \<Rightarrow> bytes" where
  "encode_kv_key key = DT_KV # key"

definition decode_kv_key :: "bytes \<Rightarrow> bytes option" where
  "decode_kv_key sl =
     (case dec_skip 1 sl of None \<Rightarrow> None | Some d \<Rightarrow> Some (fst (dec_read_data d)))"

definition encode_hsize_key :: "bytes \<Rightarrow> bytes" where
  "encode_hsize_key name = DT_HSIZE # name"

definition decode_hsize_key :: "bytes \<Rightarrow> bytes option" where
  "decode_hsize_key sl =
     (case dec_skip 1 sl of None \<Rightarrow> None | Some d \<Rightarrow> Some (fst (dec_read_data d)))"

definition encode_hash_key :: "bytes \<Rightarrow> bytes \<Rightarrow> bytes" where
  "encode_hash_key name key = DT_HASH # of_nat (length name) # name @ [61] @ key"

definition decode_hash_key :: "bytes \<Rightarrow> (bytes \<times> bytes) option" where
  "decode_hash_key sl =
     (case dec_skip 1 sl of None \<Rightarrow> None
      | Some d1 \<Rightarrow> (case dec_read_8_data d1 of None \<Rightarrow> None
      | Some (name, d2) \<Rightarrow> (case dec_skip 1 d2 of None \<Rightarrow> None
      | Some d3 \<Rightarrow> Some (name, fst (dec_read_data d3)))))"

definition encode_zsize_key :: "bytes \<Rightarrow> bytes" where
  "encode_zsize_key name = DT_ZSIZE # name"

definition decode_zsize_key :: "bytes \<Rightarrow> bytes option" where
  "decode_zsize_key sl =
     (case dec_skip 1 sl of None \<Rightarrow> None | Some d \<Rightarrow> Some (fst (dec_read_data d)))"

definition encode_zset_key :: "bytes \<Rightarrow> bytes \<Rightarrow> bytes" where
  "encode_zset_key name key =
     DT_ZSET # of_nat (length name) # name @ [of_nat (length key)] @ key"

definition decode_zset_key :: "bytes \<Rightarrow> (bytes \<times> bytes) option" where
  "decode_zset_key sl =
     (case dec_skip 1 sl of None \<Rightarrow> None
      | Some d1 \<Rightarrow> (case dec_read_8_data d1 of None \<Rightarrow> None
      | Some (name, d2) \<Rightarrow> (case dec_read_8_data d2 of None \<Rightarrow> None
      | Some (key, d3) \<Rightarrow> Some (name, key))))"

text \<open>The score in a key: a sign character and the two's complement number, big-endian.\<close>

definition encode_score :: "i64 \<Rightarrow> bytes" where
  "encode_score s = (if sint s < 0 then 45 else 61) # mem64 (big_endian64 s)"

definition encode_zscore_key :: "bytes \<Rightarrow> bytes \<Rightarrow> bytes \<Rightarrow> bytes" where
  "encode_zscore_key key val score =
     DT_ZSCORE # of_nat (length key) # key @ encode_score (bytes_Int64 score) @ [61] @ val"

definition decode_zscore_key :: "bytes \<Rightarrow> (bytes \<times> bytes \<times> bytes) option" where
  "decode_zscore_key sl =
     (case dec_skip 1 sl of None \<Rightarrow> None
      | Some d1 \<Rightarrow> (case dec_read_8_data d1 of None \<Rightarrow> None
      | Some (name, d2) \<Rightarrow> (case dec_skip 1 d2 of None \<Rightarrow> None
      | Some d3 \<Rightarrow> (case dec_read_int64 d3 of None \<Rightarrow> None
      | Some (s, d4) \<Rightarrow> (case dec_skip 1 d4 of None \<Rightarrow> None
      | Some d5 \<Rightarrow> Some (name, fst (dec_read_data d5), str_i64 (big_endian64 s)))))))"

definition encode_qsize_key :: "bytes \<Rightarrow> bytes" where
  "encode_qsize_key name = DT_QSIZE # name"

definition decode_qsize_key :: "bytes \<Rightarrow> bytes option" where
  "decode_qsize_key sl =
     (case dec_skip 1 sl of None \<Rightarrow> None | Some d \<Rightarrow> Some (fst (dec_read_data d)))"

definition encode_qitem_key :: "bytes \<Rightarrow> u64 \<Rightarrow> bytes" where
  "encode_qitem_key name seq =
     DT_QUEUE # of_nat (length name) # name @ mem64 (big_endian64 seq)"

definition decode_qitem_key :: "bytes \<Rightarrow> (bytes \<times> u64) option" where
  "decode_qitem_key sl =
     (case dec_skip 1 sl of None \<Rightarrow> None
      | Some d1 \<Rightarrow> (case dec_read_8_data d1 of None \<Rightarrow> None
      | Some (name, d2) \<Rightarrow> (case dec_read_uint64 d2 of None \<Rightarrow> None
      | Some (seq, d3) \<Rightarrow> Some (name, big_endian64 seq))))"

section \<open>The codec interface\<close>

text \<open>
  What the containers rely on: on the values they store, the decoder inverts the encoder, and
  all encoded keys carry the type byte.
\<close>

locale key_codec =
  fixes enc :: "'a \<Rightarrow> bytes"
    and dec :: "bytes \<Rightarrow> 'a option"
    and okay :: "'a \<Rightarrow> bool"
    and tag :: u8
  assumes dec_enc: "okay x \<Longrightarrow> dec (enc x) = Some x"
    and enc_tag: "prefix [tag] (enc x)"
    and tag_data: "tag \<noteq> DT_SYNCLOG"
begin

lemma enc_inject: "okay x \<Longrightarrow> okay y \<Longrightarrow> enc x = enc y \<longleftrightarrow> x = y"
  by (metis dec_enc option.inject)

lemma enc_not_log: "\<not> is_log_key (enc x)"
  using enc_tag [of x] tag_data by (cases "enc x") (auto simp: is_log_key_def)

lemma enc_hd: "hd (enc x) = tag" "enc x \<noteq> []"
  using enc_tag [of x] by (auto simp: prefix_def)

end

interpretation kv_key: key_codec encode_kv_key decode_kv_key "\<lambda>_. True" DT_KV
  by unfold_locales (simp_all add: encode_kv_key_def decode_kv_key_def dec_read_data_def)

interpretation hsize_key: key_codec encode_hsize_key decode_hsize_key "\<lambda>_. True" DT_HSIZE
  by unfold_locales (simp_all add: encode_hsize_key_def decode_hsize_key_def dec_read_data_def)

interpretation hash_key: key_codec "\<lambda>(n, k). encode_hash_key n k" decode_hash_key
    "\<lambda>(n, k). length n \<le> 255" DT_HASH
  by unfold_locales
    (auto simp: encode_hash_key_def decode_hash_key_def dec_read_data_def dec_skip_def)

interpretation zsize_key: key_codec encode_zsize_key decode_zsize_key "\<lambda>_. True" DT_ZSIZE
  by unfold_locales (simp_all add: encode_zsize_key_def decode_zsize_key_def dec_read_data_def)

interpretation zset_key: key_codec "\<lambda>(n, k). encode_zset_key n k" decode_zset_key
    "\<lambda>(n, k). length n \<le> 255 \<and> length k \<le> 255" DT_ZSET
proof
  fix x :: "bytes \<times> bytes" assume "case x of (n, k) \<Rightarrow> length n \<le> 255 \<and> length k \<le> 255"
  then show "decode_zset_key (case x of (n, k) \<Rightarrow> encode_zset_key n k) = Some x"
    using dec_read_8_data_append [of "snd x" "[]"]
    by (auto simp: encode_zset_key_def decode_zset_key_def)
qed (auto simp: encode_zset_key_def)

interpretation zscore_key: key_codec "\<lambda>(n, k, s). encode_zscore_key n k s" decode_zscore_key
    "\<lambda>(n, k, s). length n \<le> 255 \<and> (\<exists>v. s = str_i64 v)" DT_ZSCORE
  by unfold_locales
    (auto simp: encode_zscore_key_def decode_zscore_key_def encode_score_def dec_read_data_def
      dec_skip_def bytes_Int64_def str_to_int64_str_i64 big_endian64_involution)

interpretation qsize_key: key_codec encode_qsize_key decode_qsize_key "\<lambda>_. True" DT_QSIZE
  by unfold_locales (simp_all add: encode_qsize_key_def decode_qsize_key_def dec_read_data_def)

interpretation qitem_key: key_codec "\<lambda>(n, q). encode_qitem_key n q" decode_qitem_key
    "\<lambda>(n, q). length n \<le> 255" DT_QUEUE
  by unfold_locales
    (auto simp: encode_qitem_key_def decode_qitem_key_def big_endian64_involution)

text \<open>The shapes that tell the kinds of keys apart.\<close>

lemmas key_heads [key_simps] =
  encode_kv_key_def encode_hsize_key_def encode_hash_key_def encode_zsize_key_def
  encode_zset_key_def encode_zscore_key_def encode_qsize_key_def encode_qitem_key_def

lemma key_not_log [simp]:
  "\<not> is_log_key (encode_kv_key k)" "\<not> is_log_key (encode_hsize_key k)"
  "\<not> is_log_key (encode_hash_key n k)" "\<not> is_log_key (encode_zsize_key k)"
  "\<not> is_log_key (encode_zset_key n k)" "\<not> is_log_key (encode_zscore_key n k sc)"
  "\<not> is_log_key (encode_qsize_key k)" "\<not> is_log_key (encode_qitem_key n q)"
  by (simp_all add: key_heads)

lemma key_inject [simp]:
  "encode_kv_key a = encode_kv_key b \<longleftrightarrow> a = b"
  "encode_hsize_key a = encode_hsize_key b \<longleftrightarrow> a = b"
  "encode_zsize_key a = encode_zsize_key b \<longleftrightarrow> a = b"
  "encode_qsize_key a = encode_qsize_key b \<longleftrightarrow> a = b"
  by (simp_all add: key_heads)

lemma hash_key_inject:
  "length n \<le> 255 \<Longrightarrow> length n' \<le> 255 \<Longrightarrow>
     encode_hash_key n k = encode_hash_key n' k' \<longleftrightarrow> n = n' \<and> k = k'"
  using hash_key.enc_inject [of "(n, k)" "(n', k')"] by simp

lemma zset_key_inject:
  "length n \<le> 255 \<Longrightarrow> length n' \<le> 255 \<Longrightarrow> length k \<le> 255 \<Longrightarrow> length k' \<le> 255 \<Longrightarrow>
     encode_zset_key n k = encode_zset_key n' k' \<longleftrightarrow> n = n' \<and> k = k'"
  using zset_key.enc_inject [of "(n, k)" "(n', k')"] by simp

lemma qitem_key_inject:
  "length n \<le> 255 \<Longrightarrow> length n' \<le> 255 \<Longrightarrow>
     encode_qitem_key n q = encode_qitem_key n' q' \<longleftrightarrow> n = n' \<and> q = q'"
  using qitem_key.enc_inject [of "(n, q)" "(n', q')"] by simp

lemma qitem_key_inject_name [simp]: "encode_qitem_key n q = encode_qitem_key n q' \<longleftrightarrow> q = q'"
  by (simp add: encode_qitem_key_def) (metis big_endian64_involution)

lemma hash_key_inject_name [simp]: "encode_hash_key n k = encode_hash_key n k' \<longleftrightarrow> k = k'"
  by (simp add: encode_hash_key_def)

lemma key_kinds [simp]:
  "encode_kv_key a \<noteq> encode_hsize_key b" "encode_kv_key a \<noteq> encode_hash_key n b"
  "encode_kv_key a \<noteq> encode_zsize_key b" "encode_kv_key a \<noteq> encode_zset_key n b"
  "encode_kv_key a \<noteq> encode_zscore_key n b sc" "encode_kv_key a \<noteq> encode_qsize_key b"
  "encode_kv_key a \<noteq> encode_qitem_key n q"
  "encode_hsize_key a \<noteq> encode_kv_key b" "encode_hsize_key a \<noteq> encode_hash_key n b"
  "encode_hsize_key a \<noteq> encode_zsize_key b" "encode_hsize_key a \<noteq> encode_zset_key n b"
  "encode_hsize_key a \<noteq> encode_zscore_key n b sc" "encode_hsize_key a \<noteq> encode_qsize_key b"
  "encode_hsize_key a \<noteq> encode_qitem_key n q"
  "encode_hash_key n a \<noteq> encode_kv_key b" "encode_hash_key n a \<noteq> encode_hsize_key b"
  "encode_hash_key n a \<noteq> encode_zsize_key b" "encode_hash_key n a \<noteq> encode_zset_key m b"
  "encode_hash_key n a \<noteq> encode_zscore_key m b sc" "encode_hash_key n a \<noteq> encode_qsize_key b"
  "encode_hash_key n a \<noteq> encode_qitem_key m q"
  "encode_zsize_key a \<noteq> encode_kv_key b" "encode_zsize_key a \<noteq> encode_hsize_key b"
  "encode_zsize_key a \<noteq> encode_hash_key n b" "encode_zsize_key a \<noteq> encode_zset_key m b"
  "encode_zsize_key a \<noteq> encode_zscore_key m b sc" "encode_zsize_key a \<noteq> encode_qsize_key b"
  "encode_zsize_key a \<noteq> encode_qitem_key m q"
  "encode_zset_key n a \<noteq> encode_kv_key b" "encode_zset_key n a \<noteq> encode_hsize_key b"
  "encode_zset_key n a \<noteq> encode_hash_key m b" "encode_zset_key n a \<noteq> encode_zsize_key b"
  "encode_zset_key n a \<noteq> encode_zscore_key m b sc" "encode_zset_key n a \<noteq> encode_qsize_key b"
  "encode_zset_key n a \<noteq> encode_qitem_key m q"
  "encode_zscore_key n a sc \<noteq> encode_kv_key b" "encode_zscore_key n a sc \<noteq> encode_hsize_key b"
  "encode_zscore_key n a sc \<noteq> encode_hash_key m b" "encode_zscore_key n a sc \<noteq> encode_zsize_key b"
  "encode_zscore_key n a sc \<noteq> encode_zset_key m b" "encode_zscore_key n a sc \<noteq> encode_qsize_key b"
  "encode_zscore_key n a sc \<noteq> encode_qitem_key m q"
  "encode_qsize_key a \<noteq> encode_kv_key b" "encode_qsize_key a \<noteq> encode_hsize_key b"
  "encode_qsize_key a \<noteq> encode_hash_key n b" "encode_qsize_key a \<noteq> encode_zsize_key b"
  "encode_qsize_key a \<noteq> encode_zset_key n b" "encode_qsize_key a \<noteq> encode_zscore_key n b sc"
  "encode_qsize_key a \<noteq> encode_qitem_key m q"
  "encode_qitem_key n q \<noteq> encode_kv_key b" "encode_qitem_key n q \<noteq> encode_hsize_key b"
  "encode_qitem_key n q \<noteq> encode_hash_key m b" "encode_qitem_key n q \<noteq> encode_zsize_key b"
  "encode_qitem_key n q \<noteq> encode_zset_key m b" "encode_qitem_key n q \<noteq> encode_zscore_key m b sc"
  "encode_qitem_key n q \<noteq> encode_qsize_key b"
  by (simp_all add: key_heads)

section \<open>Order of the keys\<close>

text \<open>The fields of a name: everything of one name shares a prefix no other name has.\<close>

definition name_prefix :: "u8 \<Rightarrow> bytes \<Rightarrow> bytes" where
  "name_prefix tag name = tag # of_nat (length name) # name"

lemma length_byte: "m \<le> 255 \<Longrightarrow> unat (of_nat m :: u8) = m"
  by (simp add: unat_of_nat)

lemma name_prefix_prefix:
  assumes "length n \<le> 255" "length n' \<le> 255"
  shows "prefix (name_prefix tag n) (name_prefix tag' n' @ x) \<longleftrightarrow> tag = tag' \<and> n = n'"
proof -
  have "(of_nat (length n) :: u8) = of_nat (length n') \<longleftrightarrow> length n = length n'"
    using assms length_byte [of "length n"] length_byte [of "length n'"] by metis
  then show ?thesis
    using prefix_append_diff [of n n' "[]" x] by (auto simp: name_prefix_def)
qed

end
