(* ===== verification/Ssdb_Iterator.thy ===== *)
theory Ssdb_Iterator
  imports Keys
begin

text \<open>
  \<open>ssdb/ssdb/iterator.h\<close> and \<open>iterator.cpp\<close>, with \<open>SSDBImpl::iterator\<close> and \<open>rev_iterator\<close> of
  \<open>ssdb_impl.cpp\<close>: the bounded iterator over the database and the three iterators on top of it
  that decode keys. What an iterator has still to yield is a list, and the loops that drain one
  are proved to produce it.
\<close>

section \<open>Iterator\<close>

datatype direction = FORWARD | BACKWARD

record iter =
  it :: liter
  it_end :: bytes
  limit :: u64
  is_first :: bool
  direction :: direction

definition iter_new :: "liter \<Rightarrow> bytes \<Rightarrow> u64 \<Rightarrow> direction \<Rightarrow> iter" where
  "iter_new l e n d = \<lparr>it = l, it_end = e, limit = n, is_first = True, direction = d\<rparr>"

definition iter_key :: "iter \<Rightarrow> bytes" where
  "iter_key i = lkey (it i)"

definition iter_val :: "iter \<Rightarrow> bytes" where
  "iter_val i = lvalue (it i)"

text \<open>The move at the start of \<open>next()\<close>: none the first time.\<close>

definition iter_move :: "iter \<Rightarrow> iter" where
  "iter_move i =
     (if is_first i then i\<lparr>is_first := False\<rparr>
      else if direction i = FORWARD then i\<lparr>it := lnext (it i)\<rparr>
      else i\<lparr>it := lprev (it i)\<rparr>)"

definition iter_next :: "iter \<Rightarrow> bool \<times> iter" where
  "iter_next i =
     (if limit i = 0 then (False, i)
      else let i1 = iter_move i
      in if \<not> valid (it i1) then (False, i1\<lparr>limit := 0\<rparr>)
      else if direction i1 = FORWARD then
        (if it_end i1 \<noteq> [] \<and> bytes_compare (lkey (it i1)) (it_end i1) > 0
         then (False, i1\<lparr>limit := 0\<rparr>) else (True, i1\<lparr>limit := limit i1 - 1\<rparr>))
      else
        (if it_end i1 \<noteq> [] \<and> bytes_compare (lkey (it i1)) (it_end i1) < 0
         then (False, i1\<lparr>limit := 0\<rparr>) else (True, i1\<lparr>limit := limit i1 - 1\<rparr>)))"

text \<open>\<open>skip(offset)\<close>: the loop counts \<open>offset\<close> down.\<close>

fun iter_skip :: "nat \<Rightarrow> iter \<Rightarrow> bool \<times> iter" where
  "iter_skip 0 i = (True, i)"
| "iter_skip (Suc n) i = (let (b, i') = iter_next i in if \<not> b then (False, i') else iter_skip n i')"

definition ssdb_iterator :: "ssdb \<Rightarrow> bytes \<Rightarrow> bytes \<Rightarrow> u64 \<Rightarrow> iter" where
  "ssdb_iterator s start end n =
     (let l = seek start (liter_new (db s));
          l' = (if valid l \<and> lkey l = start then lnext l else l)
      in iter_new l' end n FORWARD)"

definition ssdb_rev_iterator :: "ssdb \<Rightarrow> bytes \<Rightarrow> bytes \<Rightarrow> u64 \<Rightarrow> iter" where
  "ssdb_rev_iterator s start end n =
     (let l = seek start (liter_new (db s));
          l' = (if \<not> valid l then seek_last l else lprev l)
      in iter_new l' end n BACKWARD)"

subsection \<open>What an iterator yields\<close>

definition in_bound :: "direction \<Rightarrow> bytes \<Rightarrow> bytes \<Rightarrow> bool" where
  "in_bound d e k \<longleftrightarrow> e = [] \<or> (case d of FORWARD \<Rightarrow> k \<le> e | BACKWARD \<Rightarrow> e \<le> k)"

definition place :: "iter \<Rightarrow> table" where
  "place i = (case direction i of FORWARD \<Rightarrow> ahead (it i) | BACKWARD \<Rightarrow> behind (it i))"

definition upcoming :: "iter \<Rightarrow> table" where
  "upcoming i =
     take (unat (limit i))
       (takeWhile (\<lambda>e. in_bound (direction i) (it_end i) (fst e))
          (if is_first i then place i else tl (place i)))"

definition iter_ok :: "iter \<Rightarrow> bool" where
  "iter_ok i \<longleftrightarrow> liter_ok (it i)"

definition entry :: "iter \<Rightarrow> bytes \<times> bytes" where
  "entry i = (iter_key i, iter_val i)"

lemma unat_pred:
  assumes "(n :: u64) \<noteq> 0"
  shows "unat n = Suc (unat (n - 1))"
proof -
  have "n - 1 \<noteq> - 1" using assms by (metis diff_add_cancel add.left_inverse)
  from word_less_succ [OF this] show ?thesis by simp
qed

lemma iter_move_simps [simp]:
  "direction (iter_move i) = direction i" "it_end (iter_move i) = it_end i"
  "limit (iter_move i) = limit i" "\<not> is_first (iter_move i)"
  "iter_ok i \<Longrightarrow> iter_ok (iter_move i)"
  by (simp_all add: iter_move_def iter_ok_def)

lemma place_limit [simp]: "place (i\<lparr>limit := n\<rparr>) = place i"
  by (simp add: place_def cong: direction.case_cong)

lemma place_move: "iter_ok i \<Longrightarrow> place (iter_move i) = (if is_first i then place i else tl (place i))"
  by (cases "direction i")
    (simp_all add: iter_move_def iter_ok_def place_def ahead_props(3) behind_props(3))

lemma place_valid:
  assumes "iter_ok i"
  shows "valid (it i) \<longleftrightarrow> place i \<noteq> []" "valid (it i) \<Longrightarrow> entry i = hd (place i)"
  using assms ahead_props(1,2) [of "it i"] behind_props(1,2) [of "it i"]
  by (cases "direction i"; simp add: iter_ok_def place_def entry_def iter_key_def iter_val_def)+

lemma bytes_compare_signs:
  "bytes_compare a b > 0 \<longleftrightarrow> b < a" "bytes_compare a b < 0 \<longleftrightarrow> a < b"
  by (auto simp: bytes_compare_cases)

lemma iter_next_eq:
  "iter_next i =
     (if limit i = 0 then (False, i)
      else if valid (it (iter_move i)) \<and>
              in_bound (direction i) (it_end i) (iter_key (iter_move i))
      then (True, (iter_move i)\<lparr>limit := limit i - 1\<rparr>)
      else (False, (iter_move i)\<lparr>limit := 0\<rparr>))"
  by (cases "direction i")
    (auto simp: iter_next_def Let_def in_bound_def iter_key_def bytes_compare_signs)

lemma iter_next_limit: "iter_next i = (True, i') \<Longrightarrow> unat (limit i') < unat (limit i)"
  by (auto simp: iter_next_eq unat_pred split: if_splits)

lemma iter_next_Nil:
  assumes "iter_ok i" "upcoming i = []"
  obtains i' where "iter_next i = (False, i')" "upcoming i' = []" "iter_ok i'"
proof (cases "limit i = 0")
  case True
  then show thesis using that [of i] assms by (simp add: iter_next_def)
next
  case False
  let ?m = "iter_move i"
  have "takeWhile (\<lambda>e. in_bound (direction i) (it_end i) (fst e)) (place ?m) = []"
    using assms False by (simp add: upcoming_def place_move unat_eq_zero)
  then have "\<not> (valid (it ?m) \<and> in_bound (direction i) (it_end i) (iter_key ?m))"
    using place_valid [of ?m] assms(1)
    by (cases "place ?m") (auto simp: entry_def split: if_splits)
  then have "iter_next i = (False, ?m\<lparr>limit := 0\<rparr>)" using False by (simp add: iter_next_eq)
  moreover have "iter_ok ?m" using assms(1) by simp
  then have "iter_ok (?m\<lparr>limit := 0\<rparr>)" by (simp add: iter_ok_def)
  ultimately show thesis using that by (simp add: upcoming_def)
qed

lemma iter_next_Cons:
  assumes "iter_ok i" "upcoming i = e # es"
  obtains i' where "iter_next i = (True, i')" "entry i' = e" "upcoming i' = es" "iter_ok i'"
proof -
  let ?m = "iter_move i" and ?P = "\<lambda>e. in_bound (direction i) (it_end i) (fst e)"
  have lim: "limit i \<noteq> 0" using assms(2) by (auto simp: upcoming_def)
  obtain xs where pl: "place ?m = e # xs" and P: "?P e"
    and es: "es = take (unat (limit i - 1)) (takeWhile ?P xs)"
    using assms lim
    by (cases "place ?m") (auto simp: upcoming_def unat_pred place_move split: if_splits)
  then have v: "valid (it ?m)" and k: "entry ?m = e" using place_valid [of ?m] assms(1) by auto
  let ?i' = "?m\<lparr>limit := limit i - 1\<rparr>"
  have "iter_next i = (True, ?i')" using lim v k P by (auto simp: iter_next_eq entry_def)
  moreover have "entry ?i' = e" using k by (simp add: entry_def iter_key_def iter_val_def)
  moreover have "upcoming ?i' = es" by (simp add: upcoming_def es pl)
  moreover have "iter_ok ?m" using assms(1) by simp
  then have "iter_ok ?i'" by (simp add: iter_ok_def)
  ultimately show thesis using that by blast
qed

subsection \<open>Ranges\<close>

lemma takeWhile_le_filter:
  "sorted_keys t \<Longrightarrow> takeWhile (\<lambda>e. fst e \<le> k) t = filter (\<lambda>e. fst e \<le> k) t"
proof (induction t)
  case (Cons e t)
  show ?case
  proof (cases "fst e \<le> k")
    case False
    with Cons.prems have "\<forall>x \<in> set t. \<not> fst x \<le> k" by (auto intro: order.strict_trans1)
    with False show ?thesis by simp
  qed (use Cons in simp)
qed simp

lemma takeWhile_ge_filter_rev:
  "sorted_keys t \<Longrightarrow> takeWhile (\<lambda>e. k \<le> fst e) (rev t) = filter (\<lambda>e. k \<le> fst e) (rev t)"
proof (induction t rule: rev_induct)
  case (snoc e t)
  then have srt: "sorted_keys t" and lt: "\<forall>x \<in> set t. fst x < fst e"
    by (auto simp: sorted_keys_append)
  show ?case
  proof (cases "k \<le> fst e")
    case False
    with lt have "\<forall>x \<in> set t. \<not> k \<le> fst x" by (auto intro: order.strict_trans)
    with False show ?thesis by (simp add: filter_empty_conv)
  qed (use snoc srt in simp)
qed simp

lemma tl_filter_ge:
  assumes "sorted_keys t"
  shows "(if filter (\<lambda>e. \<not> fst e < k) t \<noteq> [] \<and> fst (hd (filter (\<lambda>e. \<not> fst e < k) t)) = k
          then tl (filter (\<lambda>e. \<not> fst e < k) t) else filter (\<lambda>e. \<not> fst e < k) t) =
    filter (\<lambda>e. k < fst e) t"
  using assms
proof (induction t)
  case (Cons e t)
  then have lt: "\<forall>x \<in> set t. fst e < fst x" and srt: "sorted_keys t" by simp_all
  show ?case
  proof (cases "fst e" k rule: linorder_cases)
    case less
    then have "filter (\<lambda>e. \<not> fst e < k) (e # t) = filter (\<lambda>e. \<not> fst e < k) t"
      "filter (\<lambda>e. k < fst e) (e # t) = filter (\<lambda>e. k < fst e) t" by auto
    then show ?thesis using Cons.IH [OF srt] by (simp only:)
  next
    case equal
    with lt have "\<forall>x \<in> set t. \<not> fst x < k \<and> k < fst x" by auto
    then have "filter (\<lambda>x. \<not> fst x < k) t = t" "filter (\<lambda>x. k < fst x) t = t"
      by (auto simp: filter_id_conv)
    with equal show ?thesis by simp
  next
    case greater
    with lt have "\<forall>x \<in> set t. \<not> fst x < k \<and> k < fst x" by auto
    then have "filter (\<lambda>x. \<not> fst x < k) t = t" "filter (\<lambda>x. k < fst x) t = t"
      by (auto simp: filter_id_conv)
    with greater show ?thesis by auto
  qed
qed simp

text \<open>\<open>(start, end]\<close> in ascending order; an empty \<open>end\<close> is no bound.\<close>

definition range_asc :: "table \<Rightarrow> bytes \<Rightarrow> bytes \<Rightarrow> table" where
  "range_asc t start end = filter (\<lambda>e. start < fst e \<and> in_bound FORWARD end (fst e)) t"

text \<open>\<open>[end, start)\<close> in descending order.\<close>

definition range_desc :: "table \<Rightarrow> bytes \<Rightarrow> bytes \<Rightarrow> table" where
  "range_desc t start end = rev (filter (\<lambda>e. fst e < start \<and> in_bound BACKWARD end (fst e)) t)"

lemma upcoming_iterator:
  assumes "sorted_keys (tbl (db s))"
  shows "iter_ok (ssdb_iterator s start end n)"
    and "upcoming (ssdb_iterator s start end n) = take (unat n) (range_asc (tbl (db s)) start end)"
proof -
  let ?t = "tbl (db s)" and ?l = "seek start (liter_new (db s))"
  let ?l' = "if valid ?l \<and> lkey ?l = start then lnext ?l else ?l"
  show "iter_ok (ssdb_iterator s start end n)"
    by (simp add: ssdb_iterator_def iter_ok_def iter_new_def Let_def)
  have ah: "ahead ?l = filter (\<lambda>e. \<not> fst e < start) ?t" using assms by (simp add: ahead_seek)
  have "ahead ?l' = (if ahead ?l \<noteq> [] \<and> fst (hd (ahead ?l)) = start then tl (ahead ?l) else ahead ?l)"
  proof -
    have "valid ?l \<Longrightarrow> lkey ?l = fst (hd (ahead ?l))"
      using ahead_props(2) [of ?l] by (metis fst_conv liter_ok_ops(3))
    then show ?thesis using ahead_props(1,3) [of ?l] by auto
  qed
  also have "\<dots> = filter (\<lambda>e. start < fst e) ?t" unfolding ah by (rule tl_filter_ge [OF assms])
  finally have pl: "ahead ?l' = filter (\<lambda>e. start < fst e) ?t" .
  have "takeWhile (\<lambda>e. in_bound FORWARD end (fst e)) (filter (\<lambda>e. start < fst e) ?t) =
      range_asc ?t start end"
    using takeWhile_le_filter [OF sorted_keys_filter [OF assms], of "end" "\<lambda>e. start < fst e"]
    by (cases "end = []") (simp_all add: in_bound_def range_asc_def conj_commute)
  with pl show "upcoming (ssdb_iterator s start end n) = take (unat n) (range_asc ?t start end)"
    by (simp add: ssdb_iterator_def upcoming_def iter_new_def place_def Let_def)
qed

lemma upcoming_rev_iterator:
  assumes "sorted_keys (tbl (db s))"
  shows "iter_ok (ssdb_rev_iterator s start end n)"
    and "upcoming (ssdb_rev_iterator s start end n) = take (unat n) (range_desc (tbl (db s)) start end)"
proof -
  let ?t = "tbl (db s)" and ?l = "seek start (liter_new (db s))"
  have l': "(if \<not> valid ?l then seek_last ?l else lprev ?l) = seek_before start (liter_new (db s))"
    by (simp add: seek_before_def)
  show "iter_ok (ssdb_rev_iterator s start end n)"
    by (simp add: ssdb_rev_iterator_def iter_ok_def iter_new_def Let_def)
  have pl: "behind (seek_before start (liter_new (db s))) = rev (filter (\<lambda>e. fst e < start) ?t)"
    using assms by (simp add: behind_seek_before)
  have "takeWhile (\<lambda>e. in_bound BACKWARD end (fst e)) (rev (filter (\<lambda>e. fst e < start) ?t)) =
      range_desc ?t start end"
    using takeWhile_ge_filter_rev [OF sorted_keys_filter [OF assms], of "end" "\<lambda>e. fst e < start"]
    by (cases "end = []") (simp_all add: in_bound_def range_desc_def conj_commute rev_filter)
  with pl l' show "upcoming (ssdb_rev_iterator s start end n) =
      take (unat n) (range_desc ?t start end)"
    by (simp add: ssdb_rev_iterator_def upcoming_def iter_new_def place_def Let_def)
qed

text \<open>
  From a start inside or before the block of keys with one prefix, the block comes first.
\<close>

lemma takeWhile_take: "takeWhile P (take n xs) = take n (takeWhile P xs)"
  by (induction xs arbitrary: n) (auto simp: take_Cons split: nat.split)

lemma takeWhile_block:
  assumes "\<And>i j. i < j \<Longrightarrow> j < length xs \<Longrightarrow> P (xs ! j) \<Longrightarrow> P (xs ! i)"
  shows "takeWhile P xs = filter P xs"
  using assms
proof (induction xs)
  case (Cons x xs)
  show ?case
  proof (cases "P x")
    case True
    have "P (xs ! i)" if "i < j" "j < length xs" "P (xs ! j)" for i j
      using Cons.prems [of "Suc i" "Suc j"] that by simp
    with Cons.IH True show ?thesis by simp
  next
    case False
    then have "\<not> P y" if "y \<in> set xs" for y
      using that Cons.prems [of 0 "Suc j" for j] by (auto simp: in_set_conv_nth)
    with False show ?thesis by (simp add: filter_empty_conv)
  qed
qed simp

lemma takeWhile_prefix_asc:
  assumes "sorted_keys t" "\<forall>e \<in> set t. p \<le> fst e"
  shows "takeWhile (\<lambda>e. prefix p (fst e)) t = filter (\<lambda>e. prefix p (fst e)) t"
proof (rule takeWhile_block)
  fix i j assume ij: "i < j" "j < length t" "prefix p (fst (t ! j))"
  then have "fst (t ! i) < fst (t ! j)"
    using assms(1) by (simp add: sorted_keys_def sorted_wrt_iff_nth_less)
  moreover have "p \<le> fst (t ! i)" using assms(2) ij by simp
  ultimately show "prefix p (fst (t ! i))"
    using prefix_interval [of p p "fst (t ! j)" "fst (t ! i)"] ij(3) by simp
qed

lemma takeWhile_prefix_desc:
  assumes "sorted_keys t" "\<forall>e \<in> set t. fst e < p \<or> prefix p (fst e)"
  shows "takeWhile (\<lambda>e. prefix p (fst e)) (rev t) = filter (\<lambda>e. prefix p (fst e)) (rev t)"
proof (rule takeWhile_block)
  fix i j assume ij: "i < j" "j < length (rev t)" "prefix p (fst (rev t ! j))"
  then have "fst (rev t ! j) < fst (rev t ! i)"
    using assms(1) by (simp add: sorted_keys_def sorted_wrt_iff_nth_less rev_nth)
  moreover have "p \<le> fst (rev t ! j)" using ij(3) by (rule prefix_le)
  moreover have "fst (rev t ! i) < p \<or> prefix p (fst (rev t ! i))"
    using assms(2) ij nth_mem [of i "rev t"] by simp
  ultimately show "prefix p (fst (rev t ! i))" by auto
qed

lemma sorted_range_asc: "sorted_keys t \<Longrightarrow> sorted_keys (range_asc t a b)"
  by (simp add: range_asc_def sorted_keys_filter)

text \<open>The part of a range inside the block of one prefix, which an iterator reaches first.\<close>

lemma block_asc:
  assumes "sorted_keys t" "p \<le> a"
  shows "takeWhile (\<lambda>e. prefix p (fst e)) (take n (range_asc t a b)) =
    take n (filter (\<lambda>e. prefix p (fst e)) (range_asc t a b))"
  unfolding takeWhile_take
  by (subst takeWhile_prefix_asc) (use assms in \<open>auto simp: range_asc_def sorted_keys_filter\<close>)

lemma block_desc:
  assumes "sorted_keys t" "\<And>x. x < a \<Longrightarrow> x < p \<or> prefix p x"
  shows "takeWhile (\<lambda>e. prefix p (fst e)) (take n (range_desc t a b)) =
    take n (filter (\<lambda>e. prefix p (fst e)) (range_desc t a b))"
  unfolding takeWhile_take range_desc_def
  by (subst takeWhile_prefix_desc) (use assms in \<open>auto simp: sorted_keys_filter\<close>)

lemma below_prefix: "prefix p a \<Longrightarrow> x < a \<Longrightarrow> x < p \<or> prefix p (x :: bytes)"
  using prefix_interval [of p p a x] by (cases "x < p") simp_all

text \<open>The entries under a prefix, with the prefix taken off: a table of their own.\<close>

definition block_entries :: "bytes \<Rightarrow> table \<Rightarrow> table" where
  "block_entries p t =
     map (\<lambda>e. (drop (length p) (fst e), snd e)) (filter (\<lambda>e. prefix p (fst e)) t)"

lemma block_entries_simps [simp]:
  "block_entries p [] = []"
  "block_entries p (e # t) =
     (if prefix p (fst e) then (drop (length p) (fst e), snd e) # block_entries p t
      else block_entries p t)"
  by (simp_all add: block_entries_def)

lemma prefix_drop: "prefix p x \<Longrightarrow> p @ drop (length p) x = x"
  by (auto simp: prefix_def)

lemma map_of_block_entries: "map_of (block_entries p t) k = map_of t (p @ k)"
proof (induction t)
  case (Cons e t)
  show ?case
  proof (cases "prefix p (fst e)")
    case True
    then have "drop (length p) (fst e) = k \<longleftrightarrow> fst e = p @ k" by (auto simp: prefix_def)
    with True Cons show ?thesis by (cases "fst e = p @ k") auto
  next
    case False
    then have "fst e \<noteq> p @ k" by auto
    with False Cons show ?thesis by simp
  qed
qed simp

lemma block_entries_mem: "(k, v) \<in> set (block_entries p t) \<longleftrightarrow> (p @ k, v) \<in> set t"
  by (induction t) (auto simp: prefix_drop)

lemma sorted_block_entries: "sorted_keys t \<Longrightarrow> sorted_keys (block_entries p t)"
proof (induction t)
  case (Cons e t)
  have "fst e < p @ k \<Longrightarrow> prefix p (fst e) \<Longrightarrow> drop (length p) (fst e) < k" for k
    by (metis append_less_append prefix_drop)
  with Cons show ?case by (fastforce simp: block_entries_mem)
qed simp

lemma card_block_entries:
  "sorted_keys t \<Longrightarrow> card (dom (\<lambda>k. map_of t (p @ k))) = length (block_entries p t)"
proof -
  assume "sorted_keys t"
  then have d: "distinct (map fst (block_entries p t))"
    by (simp add: sorted_block_entries sorted_keys_distinct)
  have "(\<lambda>k. map_of t (p @ k)) = map_of (block_entries p t)"
    by (rule ext) (simp add: map_of_block_entries)
  then show ?thesis
    using distinct_card [OF d] by (simp add: dom_map_of_conv_image_fst)
qed

lemma filter_block_entries:
  "block_entries p (filter (\<lambda>e. P (fst e)) t) = filter (\<lambda>e. P (p @ fst e)) (block_entries p t)"
  by (induction t) (auto simp: prefix_drop)

lemma block_entries_rev: "block_entries p (rev t) = rev (block_entries p t)"
  by (simp add: block_entries_def rev_filter [symmetric] rev_map)

lemma block_entries_asc:
  "block_entries p (range_asc t (p @ a) (if b \<noteq> [] then p @ b else [])) =
     filter (\<lambda>e. a < fst e \<and> (b = [] \<or> fst e \<le> b)) (block_entries p t)"
  unfolding range_asc_def
  by (subst filter_block_entries [of p "\<lambda>k. p @ a < k \<and> in_bound FORWARD (if b \<noteq> [] then p @ b else []) k"])
    (simp add: in_bound_def)

lemma block_entries_desc:
  "block_entries p (range_desc t (p @ a) (if b \<noteq> [] then p @ b else [])) =
     rev (filter (\<lambda>e. fst e < a \<and> b \<le> fst e) (block_entries p t))"
  unfolding range_desc_def block_entries_rev
  by (subst filter_block_entries [of p "\<lambda>k. k < p @ a \<and> in_bound BACKWARD (if b \<noteq> [] then p @ b else []) k"])
    (simp add: in_bound_def prefix_le)

section \<open>The decoding iterators\<close>

text \<open>
  \<open>ks.data()[0]\<close>. The database holds no empty key; for one, the byte read is outside the slice
  and is taken to be no type.
\<close>

definition key_type :: "bytes \<Rightarrow> u8" where
  "key_type ks = (case ks of [] \<Rightarrow> 0 | b # _ \<Rightarrow> b)"

lemma key_type_prefix: "b \<noteq> 0 \<Longrightarrow> key_type k = b \<longleftrightarrow> prefix [b] k"
  by (cases k) (auto simp: key_type_def)

lemma map_filter_all:
  "\<forall>x \<in> set xs. f x = Some (g x) \<Longrightarrow> List.map_filter f xs = map g xs"
  by (induction xs) (simp_all add: List.map_filter_simps)

record kiter =
  kit :: iter
  kkey :: bytes
  kval :: bytes
  kreturn_val :: bool

definition kiter_new :: "iter \<Rightarrow> kiter" where
  "kiter_new i = \<lparr>kit = i, kkey = [], kval = [], kreturn_val = True\<rparr>"

function kiter_next :: "kiter \<Rightarrow> bool \<times> kiter" where
  "kiter_next k =
     (case iter_next (kit k) of
        (False, i) \<Rightarrow> (False, k\<lparr>kit := i\<rparr>)
      | (True, i) \<Rightarrow>
          if key_type (iter_key i) \<noteq> DT_KV then (False, k\<lparr>kit := i\<rparr>)
          else (case decode_kv_key (iter_key i) of
                  None \<Rightarrow> kiter_next (k\<lparr>kit := i\<rparr>)
                | Some key \<Rightarrow>
                    (True, k\<lparr>kit := i, kkey := key,
                             kval := (if kreturn_val k then iter_val i else kval k)\<rparr>)))"
  by pat_completeness auto
termination
  by (relation "measure (\<lambda>k. unat (limit (kit k)))") (auto dest: iter_next_limit [OF sym])

record hiter =
  hit :: iter
  hname :: bytes
  hkey :: bytes
  hval :: bytes
  hreturn_val :: bool

definition hiter_new :: "iter \<Rightarrow> bytes \<Rightarrow> hiter" where
  "hiter_new i name = \<lparr>hit = i, hname = name, hkey = [], hval = [], hreturn_val = True\<rparr>"

function hiter_next :: "hiter \<Rightarrow> bool \<times> hiter" where
  "hiter_next h =
     (case iter_next (hit h) of
        (False, i) \<Rightarrow> (False, h\<lparr>hit := i\<rparr>)
      | (True, i) \<Rightarrow>
          if key_type (iter_key i) \<noteq> DT_HASH then (False, h\<lparr>hit := i\<rparr>)
          else (case decode_hash_key (iter_key i) of
                  None \<Rightarrow> hiter_next (h\<lparr>hit := i\<rparr>)
                | Some (n, key) \<Rightarrow>
                    if n \<noteq> hname h then (False, h\<lparr>hit := i, hkey := key\<rparr>)
                    else (True, h\<lparr>hit := i, hkey := key,
                                  hval := (if hreturn_val h then iter_val i else hval h)\<rparr>)))"
  by pat_completeness auto
termination
  by (relation "measure (\<lambda>h. unat (limit (hit h)))") (auto dest: iter_next_limit [OF sym])

record ziter =
  zit :: iter
  zname :: bytes
  zkey :: bytes
  zscore :: bytes

definition ziter_new :: "iter \<Rightarrow> bytes \<Rightarrow> ziter" where
  "ziter_new i name = \<lparr>zit = i, zname = name, zkey = [], zscore = []\<rparr>"

function ziter_next :: "ziter \<Rightarrow> bool \<times> ziter" where
  "ziter_next z =
     (case iter_next (zit z) of
        (False, i) \<Rightarrow> (False, z\<lparr>zit := i\<rparr>)
      | (True, i) \<Rightarrow>
          if key_type (iter_key i) \<noteq> DT_ZSCORE then (False, z\<lparr>zit := i\<rparr>)
          else (case decode_zscore_key (iter_key i) of
                  None \<Rightarrow> ziter_next (z\<lparr>zit := i\<rparr>)
                | Some (n, key, score) \<Rightarrow> (True, z\<lparr>zit := i, zkey := key, zscore := score\<rparr>)))"
  by pat_completeness auto
termination
  by (relation "measure (\<lambda>z. unat (limit (zit z)))") (auto dest: iter_next_limit [OF sym])

fun ziter_skip :: "nat \<Rightarrow> ziter \<Rightarrow> bool \<times> ziter" where
  "ziter_skip 0 z = (True, z)"
| "ziter_skip (Suc n) z =
     (let (b, z') = ziter_next z in if \<not> b then (False, z') else ziter_skip n z')"

declare kiter_next.simps [simp del] hiter_next.simps [simp del] ziter_next.simps [simp del]

subsection \<open>The contract of a decoding iterator\<close>

text \<open>
  All three wrap the bounded iterator in the same way: they end at the first entry that is not
  theirs (\<open>stop\<close>), pass over entries that do not decode (\<open>view\<close> is \<open>None\<close>), and present the
  others.
\<close>

locale decoding_iterator =
  fixes nxt :: "'w \<Rightarrow> bool \<times> 'w"
    and raw :: "'w \<Rightarrow> iter"
    and item :: "'w \<Rightarrow> 'a"
    and stop :: "'w \<Rightarrow> bytes \<times> bytes \<Rightarrow> bool"
    and view :: "'w \<Rightarrow> bytes \<times> bytes \<Rightarrow> 'a option"
    and good :: "'w \<Rightarrow> bool"
  assumes at_end: "good w \<Longrightarrow> iter_next (raw w) = (False, i) \<Longrightarrow> \<exists>w'. nxt w = (False, w') \<and> raw w' = i"
    and at_stop: "good w \<Longrightarrow> iter_next (raw w) = (True, i) \<Longrightarrow> stop w (entry i) \<Longrightarrow>
      \<exists>w'. nxt w = (False, w')"
    and at_skip: "good w \<Longrightarrow> iter_next (raw w) = (True, i) \<Longrightarrow> \<not> stop w (entry i) \<Longrightarrow>
      view w (entry i) = None \<Longrightarrow>
      \<exists>w'. nxt w = nxt w' \<and> raw w' = i \<and> good w' \<and> stop w' = stop w \<and> view w' = view w"
    and at_item: "good w \<Longrightarrow> iter_next (raw w) = (True, i) \<Longrightarrow> \<not> stop w (entry i) \<Longrightarrow>
      view w (entry i) = Some a \<Longrightarrow>
      \<exists>w'. nxt w = (True, w') \<and> raw w' = i \<and> good w' \<and> item w' = a \<and> stop w' = stop w \<and>
        view w' = view w"
begin

definition pending :: "'w \<Rightarrow> 'a list" where
  "pending w = List.map_filter (view w) (takeWhile (\<lambda>e. \<not> stop w e) (upcoming (raw w)))"

lemma nxt_Nil:
  assumes "good w" "iter_ok (raw w)" "pending w = []"
  shows "\<not> fst (nxt w)"
  using assms
proof (induction "upcoming (raw w)" arbitrary: w)
  case Nil
  then obtain i where "iter_next (raw w) = (False, i)" by (metis iter_next_Nil)
  then show ?case using at_end [OF Nil.prems(1)] by fastforce
next
  case (Cons e es)
  from Cons.hyps(2) Cons.prems(2) obtain i where
    i: "iter_next (raw w) = (True, i)" "entry i = e" "upcoming i = es" "iter_ok i"
    by (metis iter_next_Cons)
  show ?case
  proof (cases "stop w e")
    case True
    then show ?thesis using at_stop [OF Cons.prems(1)] i by fastforce
  next
    case False
    with Cons.prems(3) Cons.hyps(2) [symmetric] have "view w e = None"
      by (auto simp: pending_def List.map_filter_simps split: option.splits)
    with at_skip [of w i] i False Cons.prems(1) obtain w' where
      w': "nxt w = nxt w'" "raw w' = i" "good w'" "stop w' = stop w" "view w' = view w" by auto
    moreover have "pending w' = []"
      using Cons.prems(3) Cons.hyps(2) [symmetric] False \<open>view w e = None\<close> w' i
      by (simp add: pending_def List.map_filter_simps)
    ultimately show ?thesis using Cons.hyps(1) [of w'] i by simp
  qed
qed

lemma nxt_Cons:
  assumes "good w" "iter_ok (raw w)" "pending w = a # as"
  obtains w' where "nxt w = (True, w')" "item w' = a" "pending w' = as" "good w'" "iter_ok (raw w')"
    "stop w' = stop w" "view w' = view w"
  using assms
proof (induction "upcoming (raw w)" arbitrary: w thesis)
  case Nil
  then show ?case by (simp add: pending_def List.map_filter_simps flip: Nil.hyps)
next
  case (Cons e es)
  from Cons.hyps(2) Cons.prems(3) obtain i where
    i: "iter_next (raw w) = (True, i)" "entry i = e" "upcoming i = es" "iter_ok i"
    by (metis iter_next_Cons)
  have ns: "\<not> stop w e"
    using Cons.prems(4) Cons.hyps(2) [symmetric] by (auto simp: pending_def List.map_filter_simps)
  show ?case
  proof (cases "view w e")
    case None
    with at_skip [of w i] i ns Cons.prems(2) obtain w' where
      w': "nxt w = nxt w'" "raw w' = i" "good w'" "stop w' = stop w" "view w' = view w" by auto
    moreover have "pending w' = a # as"
      using Cons.prems(4) Cons.hyps(2) [symmetric] ns None w' i
      by (simp add: pending_def List.map_filter_simps)
    ultimately show ?thesis using Cons.hyps(1) [of w'] Cons.prems(1) i by metis
  next
    case (Some b)
    with at_item [of w i b] i ns Cons.prems(2) obtain w' where
      w': "nxt w = (True, w')" "raw w' = i" "good w'" "item w' = b" "stop w' = stop w" "view w' = view w" by auto
    moreover have "b = a" "pending w' = as"
      using Cons.prems(4) Cons.hyps(2) [symmetric] ns Some w' i
      by (simp_all add: pending_def List.map_filter_simps)
    ultimately show ?thesis using Cons.prems(1) i by metis
  qed
qed

lemma length_pending: "length (pending w) \<le> unat (limit (raw w))"
proof -
  have "length (List.map_filter f xs) \<le> length xs" for f :: "bytes \<times> bytes \<Rightarrow> 'a option" and xs
    by (induction xs) (auto simp: List.map_filter_simps split: option.splits)
  moreover have "length (takeWhile P xs) \<le> length xs" for P and xs :: table
    by (rule length_takeWhile_le)
  moreover have "length (upcoming (raw w)) \<le> unat (limit (raw w))"
    by (simp add: upcoming_def)
  ultimately show ?thesis unfolding pending_def by (meson order_trans)
qed

end

text \<open>
  A client that calls \<open>next()\<close> until it returns false, with a bound on the number of items. The
  limit of the iterator is always enough.
\<close>

fun drain :: "nat \<Rightarrow> ('w \<Rightarrow> bool \<times> 'w) \<Rightarrow> ('w \<Rightarrow> 'a) \<Rightarrow> 'w \<Rightarrow> 'a list" where
  "drain 0 nxt item w = []"
| "drain (Suc n) nxt item w =
     (let (b, w') = nxt w in if b then item w' # drain n nxt item w' else [])"

context decoding_iterator
begin

lemma drain_pending:
  "good w \<Longrightarrow> iter_ok (raw w) \<Longrightarrow> length (pending w) \<le> n \<Longrightarrow> drain n nxt item w = pending w"
proof (induction n arbitrary: w)
  case (Suc n)
  show ?case
  proof (cases "pending w")
    case Nil
    then show ?thesis using nxt_Nil [OF Suc.prems(1,2)] by (auto split: prod.split)
  next
    case (Cons a as)
    with Suc.prems(1,2) obtain w' where "nxt w = (True, w')" "item w' = a" "pending w' = as"
      "good w'" "iter_ok (raw w')" by (metis nxt_Cons)
    with Suc Cons show ?thesis by simp
  qed
qed simp

lemma drain_all: "good w \<Longrightarrow> iter_ok (raw w) \<Longrightarrow> drain (unat (limit (raw w))) nxt item w = pending w"
  by (rule drain_pending) (simp_all add: length_pending)

end

interpretation kiter: decoding_iterator kiter_next kit "\<lambda>k. (kkey k, kval k)"
    "\<lambda>k e. key_type (fst e) \<noteq> DT_KV" "\<lambda>k e. map_option (\<lambda>key. (key, snd e)) (decode_kv_key (fst e))"
    kreturn_val
  by unfold_locales (subst kiter_next.simps; force simp: entry_def)+

text \<open>Where an iterator over one hash ends.\<close>

definition hiter_stop :: "bytes \<Rightarrow> bytes \<times> bytes \<Rightarrow> bool" where
  "hiter_stop name e \<longleftrightarrow> key_type (fst e) \<noteq> DT_HASH \<or>
     (case decode_hash_key (fst e) of Some (n, k) \<Rightarrow> n \<noteq> name | None \<Rightarrow> False)"

lemma hiter_next_skip:
  "iter_next (hit h) = (True, i) \<Longrightarrow> key_type (iter_key i) = DT_HASH \<Longrightarrow>
     decode_hash_key (iter_key i) = None \<Longrightarrow> hiter_next h = hiter_next (h\<lparr>hit := i\<rparr>)"
  by (subst hiter_next.simps) simp

lemma hiter_next_item:
  "iter_next (hit h) = (True, i) \<Longrightarrow> key_type (iter_key i) = DT_HASH \<Longrightarrow>
     decode_hash_key (iter_key i) = Some (hname h, key) \<Longrightarrow> hreturn_val h \<Longrightarrow>
     hiter_next h = (True, h\<lparr>hit := i, hkey := key, hval := iter_val i\<rparr>)"
  by (subst hiter_next.simps) simp

interpretation hiter: decoding_iterator hiter_next hit "\<lambda>h. (hkey h, hval h)"
    "\<lambda>h. hiter_stop (hname h)"
    "\<lambda>h e. map_option (\<lambda>(n, key). (key, snd e)) (decode_hash_key (fst e))"
    hreturn_val
proof (unfold_locales, goal_cases)
  case (1 h i)
  then show ?case by (subst hiter_next.simps) simp
next
  case (2 h i)
  then show ?case by (subst hiter_next.simps) (auto simp: entry_def hiter_stop_def split: option.splits)
next
  case (3 h i)
  then have "hiter_next h = hiter_next (h\<lparr>hit := i\<rparr>)"
    by (intro hiter_next_skip) (auto simp: entry_def hiter_stop_def)
  with 3(1) show ?case by (intro exI [of _ "h\<lparr>hit := i\<rparr>"]) simp
next
  case (4 h i a)
  from 4(3,4) obtain key where k: "decode_hash_key (iter_key i) = Some (hname h, key)"
    "key_type (iter_key i) = DT_HASH" "a = (key, iter_val i)"
    by (auto simp: entry_def hiter_stop_def split: option.splits)
  with 4(1,2) have "hiter_next h = (True, h\<lparr>hit := i, hkey := key, hval := iter_val i\<rparr>)"
    by (intro hiter_next_item)
  with 4(1) k show ?case by simp
qed

interpretation ziter: decoding_iterator ziter_next zit "\<lambda>z. (zkey z, zscore z)"
    "\<lambda>z e. key_type (fst e) \<noteq> DT_ZSCORE" "\<lambda>z e. map_option snd (decode_zscore_key (fst e))"
    "\<lambda>_. True"
  by unfold_locales (subst ziter_next.simps; force simp: entry_def split: option.splits)+

end
