(* ===== verification/T_kv.thy ===== *)
theory T_kv
  imports Ssdb_Iterator
begin

text \<open>
  \<open>ssdb/ssdb/t_kv.cpp\<close>: the string values. Each operation is the C++ method of the same name;
  out-parameters are part of the result. The abstract state is a map from keys to values,
  \<open>kv_map\<close>, and every operation is related to its effect on that map.
\<close>

section \<open>Operations\<close>

definition kv_get :: "ssdb \<Rightarrow> bytes \<Rightarrow> int \<times> bytes option" where
  "kv_get s key =
     (let buf = encode_kv_key key
      in case ldb_get (db s) buf of
           NotFound \<Rightarrow> (0, None)
         | GetError \<Rightarrow> (-1, None)
         | Found val \<Rightarrow> (1, Some val))"

definition kv_set :: "bytes \<Rightarrow> bytes \<Rightarrow> u8 \<Rightarrow> ssdb \<Rightarrow> int \<times> ssdb" where
  "kv_set key val log_type s =
     (if key = [] then (0, s)
      else if length key > SSDB_KEY_LEN_MAX then (-1, s)
      else transaction (\<lambda>s.
        let buf = encode_kv_key key;
            s = bl_Put buf val s;
            s = add_log log_type BC_KSET buf s
        in commit_ret 1 s) s)"

definition kv_setnx :: "bytes \<Rightarrow> bytes \<Rightarrow> u8 \<Rightarrow> ssdb \<Rightarrow> int \<times> ssdb" where
  "kv_setnx key val log_type s =
     (if key = [] then (0, s)
      else if length key > SSDB_KEY_LEN_MAX then (-1, s)
      else transaction (\<lambda>s.
        let (found, tmp) = kv_get s key
        in if found \<noteq> 0 then (0, s)
           else let buf = encode_kv_key key;
                    s = bl_Put buf val s;
                    s = add_log log_type BC_KSET buf s
                in commit_ret 1 s) s)"

definition kv_getset :: "bytes \<Rightarrow> bytes \<Rightarrow> u8 \<Rightarrow> ssdb \<Rightarrow> (int \<times> bytes option) \<times> ssdb" where
  "kv_getset key newval log_type s =
     (if key = [] then ((0, None), s)
      else if length key > SSDB_KEY_LEN_MAX then ((-1, None), s)
      else transaction (\<lambda>s.
        let (found, val) = kv_get s key;
            buf = encode_kv_key key;
            s = bl_Put buf newval s;
            s = add_log log_type BC_KSET buf s;
            (r, s) = commit_ret found s
        in ((r, val), s)) s)"

definition kv_del :: "bytes \<Rightarrow> u8 \<Rightarrow> ssdb \<Rightarrow> int \<times> ssdb" where
  "kv_del key log_type s =
     (if length key > SSDB_KEY_LEN_MAX then (-1, s)
      else transaction (\<lambda>s.
        let buf = encode_kv_key key;
            s = bl_Delete buf s;
            s = add_log log_type BC_KDEL buf s
        in commit_ret 1 s) s)"

text \<open>
  The sum of \<open>incr\<close> is an addition of \<open>int64_t\<close>; it is taken to wrap, as compiled code does.
  The result carries \<open>*new_val\<close> when the call has set it.
\<close>

definition kv_incr :: "bytes \<Rightarrow> i64 \<Rightarrow> u8 \<Rightarrow> ssdb \<Rightarrow> (int \<times> i64 option) \<times> ssdb" where
  "kv_incr key by log_type s =
     (if length key > SSDB_KEY_LEN_MAX then ((-1, None), s)
      else transaction (\<lambda>s.
        let (ret, old) = kv_get s key
        in if ret = -1 then ((-1, None), s)
           else let (new_val, err) =
                  (case old of
                     None \<Rightarrow> (by, False)
                   | Some o' \<Rightarrow> (let (v, e) = str_to_int64 o' in (v + by, e)))
           in if err then ((0, Some new_val), s)
           else let buf = encode_kv_key key;
                    s = bl_Put buf (str_i64 new_val) s;
                    s = add_log log_type BC_KSET buf s;
                    (r, s) = commit_ret 1 s
                in ((r, Some new_val), s)) s)"

text \<open>
  The loop of \<open>multi_set\<close> steps by two. It returns 0 at a bad key; with a key that has no value
  after it, it reads past the end of the vector.
\<close>

datatype multi_res = MDone | MReturn int | MUndefined

fun multi_set_loop :: "u8 \<Rightarrow> bytes list \<Rightarrow> ssdb \<Rightarrow> multi_res \<times> ssdb" where
  "multi_set_loop lt [] s = (MDone, s)"
| "multi_set_loop lt (key # rest) s =
     (if key = [] then (MReturn 0, s)
      else if length key > SSDB_KEY_LEN_MAX then (MReturn 0, s)
      else case rest of
        [] \<Rightarrow> (MUndefined, s)
      | val # rest' \<Rightarrow>
          let buf = encode_kv_key key
          in multi_set_loop lt rest' (add_log lt BC_KSET buf (bl_Put buf val s)))"

definition kv_multi_set :: "bytes list \<Rightarrow> nat \<Rightarrow> u8 \<Rightarrow> ssdb \<Rightarrow> int option \<times> ssdb" where
  "kv_multi_set kvs offset log_type s =
     transaction (\<lambda>s.
       if offset > length kvs then (None, s)
       else case multi_set_loop log_type (drop offset kvs) s of
         (MReturn r, s) \<Rightarrow> (Some r, s)
       | (MUndefined, s) \<Rightarrow> (None, s)
       | (MDone, s) \<Rightarrow>
           (let (r, s) = commit_ret (int ((length kvs - offset) div 2)) s in (Some r, s))) s"

fun multi_del_loop :: "u8 \<Rightarrow> bytes list \<Rightarrow> ssdb \<Rightarrow> ssdb" where
  "multi_del_loop lt [] s = s"
| "multi_del_loop lt (key # rest) s =
     (let buf = encode_kv_key key
      in multi_del_loop lt rest (add_log lt BC_KDEL buf (bl_Delete buf s)))"

definition kv_multi_del :: "bytes list \<Rightarrow> nat \<Rightarrow> u8 \<Rightarrow> ssdb \<Rightarrow> int option \<times> ssdb" where
  "kv_multi_del keys offset log_type s =
     transaction (\<lambda>s.
       if offset > length keys then (None, s)
       else let s = multi_del_loop log_type (drop offset keys) s;
                (r, s) = commit_ret (int (length keys - offset)) s
            in (Some r, s)) s"

definition kv_scan :: "ssdb \<Rightarrow> bytes \<Rightarrow> bytes \<Rightarrow> u64 \<Rightarrow> kiter" where
  "kv_scan s start end n =
     (let key_start = encode_kv_key start;
          key_end = (if end = [] then [] else encode_kv_key end)
      in kiter_new (ssdb_iterator s key_start key_end n))"

definition kv_rscan :: "ssdb \<Rightarrow> bytes \<Rightarrow> bytes \<Rightarrow> u64 \<Rightarrow> kiter" where
  "kv_rscan s start end n =
     (let key_start = (if start = [] then encode_kv_key start @ [255] else encode_kv_key start);
          key_end = (if end \<noteq> [] then encode_kv_key end else [])
      in kiter_new (ssdb_rev_iterator s key_start key_end n))"

text \<open>
  Bits. A \<open>char\<close> is signed, so \<open>val[len]\<close> is promoted as \<open>sint\<close>. The comparison
  \<open>len >= val.size()\<close> is unsigned: a negative \<open>len\<close> passes it, and \<open>setbit\<close> then writes outside
  the string or fails to resize it, which is \<open>None\<close>.
\<close>

definition bit_len :: "int \<Rightarrow> int" where "bit_len bitoffset = c_div bitoffset 8"
definition bit_no :: "int \<Rightarrow> nat" where "bit_no bitoffset = nat (7 - c_rem bitoffset 8)"

definition kv_setbit :: "bytes \<Rightarrow> int \<Rightarrow> int \<Rightarrow> u8 \<Rightarrow> ssdb \<Rightarrow> int option \<times> ssdb" where
  "kv_setbit key bitoffset on log_type s =
     (if key = [] then (Some 0, s)
      else if length key > SSDB_KEY_LEN_MAX then (Some (-1), s)
      else transaction (\<lambda>s.
        let (ret, v) = kv_get s key
        in if ret = -1 then (Some (-1), s)
           else let val = (case v of None \<Rightarrow> [] | Some x \<Rightarrow> x);
                    len = bit_len bitoffset; bit = bit_no bitoffset
           in if len < 0 then (None, s)
           else let l = nat len;
                    val = (if l \<ge> length val then val @ replicate (l + 1 - length val) 0 else val);
                    orig = sint (val ! l) AND 2 ^ bit;
                    c = (if on = 1 then word_of_int (sint (val ! l) OR 2 ^ bit)
                         else word_of_int (sint (val ! l) AND NOT (2 ^ bit)));
                    buf = encode_kv_key key;
                    s = bl_Put buf (val[l := c]) s;
                    s = add_log log_type BC_KSET buf s;
                    (r, s) = commit_ret orig s
                in (Some r, s)) s)"

definition kv_getbit :: "ssdb \<Rightarrow> bytes \<Rightarrow> int \<Rightarrow> int" where
  "kv_getbit s key bitoffset =
     (let (ret, v) = kv_get s key
      in if ret = -1 then -1
         else let val = (case v of None \<Rightarrow> [] | Some x \<Rightarrow> x);
                  len = bit_len bitoffset; bit = bit_no bitoffset
         in if len < 0 \<or> len \<ge> int (length val) then 0
         else if sint (val ! nat len) AND 2 ^ bit = 0 then 0 else 1)"

section \<open>The map of values\<close>

definition kv_map :: "ssdb \<Rightarrow> bytes \<rightharpoonup> bytes" where
  "kv_map s key = data s (encode_kv_key key)"

definition kv_readable :: "ssdb \<Rightarrow> bytes \<Rightarrow> bool" where
  "kv_readable s key \<longleftrightarrow> encode_kv_key key \<notin> unreadable (db s)"

definition key_ok :: "bytes \<Rightarrow> bool" where
  "key_ok key \<longleftrightarrow> key \<noteq> [] \<and> length key \<le> SSDB_KEY_LEN_MAX"

lemma kv_get_map:
  "kv_get s key =
     (if \<not> kv_readable s key then (-1, None)
      else case kv_map s key of None \<Rightarrow> (0, None) | Some v \<Rightarrow> (1, Some v))"
  by (auto simp: kv_get_def kv_map_def kv_readable_def ldb_get_def data_map_def split: option.split)

lemma kv_get_begin [simp]: "kv_get (bl_begin s) key = kv_get s key"
  by (simp add: kv_get_def bl_begin_def)

section \<open>Each operation as a transaction\<close>

definition kv_put_acts :: "bytes \<Rightarrow> bytes \<Rightarrow> act list" where
  "kv_put_acts key val = [APut (encode_kv_key key) val, ALog BC_KSET (encode_kv_key key)]"

definition kv_del_acts :: "bytes \<Rightarrow> act list" where
  "kv_del_acts key = [ADel (encode_kv_key key), ALog BC_KDEL (encode_kv_key key)]"

lemma run_kv_acts:
  "run_acts lt (kv_put_acts key val) s =
     add_log lt BC_KSET (encode_kv_key key) (bl_Put (encode_kv_key key) val s)"
  "run_acts lt (kv_del_acts key) s =
     add_log lt BC_KDEL (encode_kv_key key) (bl_Delete (encode_kv_key key) s)"
  by (simp_all add: kv_put_acts_def kv_del_acts_def)

lemma kv_acts_ops [simp]:
  "acts_ops (kv_put_acts key val) = [WPut (encode_kv_key key) val]"
  "acts_ops (kv_del_acts key) = [WDel (encode_kv_key key)]"
  "acts_logs (kv_put_acts key val) = [(BC_KSET, encode_kv_key key)]"
  "acts_logs (kv_del_acts key) = [(BC_KDEL, encode_kv_key key)]"
  by (simp_all add: kv_put_acts_def kv_del_acts_def)

lemma kv_set_tran: "key_ok key \<Longrightarrow> kv_set key val lt s = act_tran lt (kv_put_acts key val) 1 s"
  by (simp add: kv_set_def key_ok_def Let_def act_tran_def run_kv_acts)

lemma kv_setnx_tran:
  "key_ok key \<Longrightarrow> kv_setnx key val lt s =
     (if fst (kv_get s key) \<noteq> 0 then (0, abandon s) else act_tran lt (kv_put_acts key val) 1 s)"
  by (auto simp: kv_setnx_def key_ok_def Let_def act_tran_def run_kv_acts transaction_def
      split: prod.split)

lemma kv_getset_tran:
  "key_ok key \<Longrightarrow> kv_getset key val lt s =
     (let (found, old) = kv_get s key; (r, s') = act_tran lt (kv_put_acts key val) found s
      in ((r, old), s'))"
  by (auto simp: kv_getset_def key_ok_def Let_def act_tran_def run_kv_acts transaction_def
      split: prod.split)

lemma kv_del_tran:
  "length key \<le> SSDB_KEY_LEN_MAX \<Longrightarrow> kv_del key lt s = act_tran lt (kv_del_acts key) 1 s"
  by (simp add: kv_del_def Let_def act_tran_def run_kv_acts)

lemma kv_incr_tran:
  "length key \<le> SSDB_KEY_LEN_MAX \<Longrightarrow> kv_incr key by lt s =
     (let (ret, old) = kv_get s key; (v, err) = incr_value old by
      in if ret = -1 then ((-1, None), abandon s)
         else if err then ((0, Some v), abandon s)
         else let (r, s') = act_tran lt (kv_put_acts key (str_i64 v)) 1 s in ((r, Some v), s'))"
  unfolding incr_value_def
  by (auto simp: kv_incr_def Let_def act_tran_def run_kv_acts transaction_def
      split: prod.split option.split)

section \<open>Refinement\<close>

lemma kv_map_act_tran:
  "kv_map (snd (act_tran lt (kv_put_acts key val) r s)) =
     (if write_ok (db s) then (kv_map s)(key \<mapsto> val) else kv_map s)"
  "kv_map (snd (act_tran lt (kv_del_acts key) r s)) =
     (if write_ok (db s) then (kv_map s)(key := None) else kv_map s)"
  by (rule ext, simp add: kv_map_def act_tran_data)+

lemma kv_map_abandon [simp]: "kv_map (abandon s) = kv_map s"
  by (rule ext) (simp add: kv_map_def)

text \<open>The commands on single keys, run on the server and on the abstract map.\<close>

datatype kv_cmd =
    KGet bytes | KSet bytes bytes | KSetnx bytes bytes | KGetset bytes bytes | KDel bytes
  | KIncr bytes i64

fun kv_cmd_key :: "kv_cmd \<Rightarrow> bytes" where
  "kv_cmd_key (KGet k) = k" | "kv_cmd_key (KSet k v) = k" | "kv_cmd_key (KSetnx k v) = k"
| "kv_cmd_key (KGetset k v) = k" | "kv_cmd_key (KDel k) = k" | "kv_cmd_key (KIncr k n) = k"

text \<open>The answer of a command: the return code and the value it hands back, if any.\<close>

fun kv_exec :: "u8 \<Rightarrow> kv_cmd \<Rightarrow> ssdb \<Rightarrow> (int \<times> bytes option) \<times> ssdb" where
  "kv_exec lt (KGet k) s = (kv_get s k, s)"
| "kv_exec lt (KSet k v) s = (let (r, s') = kv_set k v lt s in ((r, None), s'))"
| "kv_exec lt (KSetnx k v) s = (let (r, s') = kv_setnx k v lt s in ((r, None), s'))"
| "kv_exec lt (KGetset k v) s = kv_getset k v lt s"
| "kv_exec lt (KDel k) s = (let (r, s') = kv_del k lt s in ((r, None), s'))"
| "kv_exec lt (KIncr k n) s =
     (let ((r, v), s') = kv_incr k n lt s in ((r, map_option str_i64 v), s'))"

text \<open>The specification over a map.\<close>

fun kv_spec :: "bool \<Rightarrow> kv_cmd \<Rightarrow> (bytes \<rightharpoonup> bytes) \<Rightarrow> (int \<times> bytes option) \<times> (bytes \<rightharpoonup> bytes)" where
  "kv_spec w (KGet k) m = (case m k of None \<Rightarrow> ((0, None), m) | Some v \<Rightarrow> ((1, Some v), m))"
| "kv_spec w (KSet k v) m =
     (if k = [] then ((0, None), m)
      else if length k > 255 then ((-1, None), m)
      else spec_write w 1 None m (m(k \<mapsto> v)))"
| "kv_spec w (KSetnx k v) m =
     (if k = [] then ((0, None), m)
      else if length k > 255 then ((-1, None), m)
      else if k \<in> dom m then ((0, None), m)
      else spec_write w 1 None m (m(k \<mapsto> v)))"
| "kv_spec w (KGetset k v) m =
     (if k = [] then ((0, None), m)
      else if length k > 255 then ((-1, None), m)
      else spec_write w (if k \<in> dom m then 1 else 0) (m k) m (m(k \<mapsto> v)))"
| "kv_spec w (KDel k) m =
     (if length k > 255 then ((-1, None), m) else spec_write w 1 None m (m(k := None)))"
| "kv_spec w (KIncr k n) m =
     (if length k > 255 then ((-1, None), m)
      else let (v, err) = incr_value (m k) n
           in if err then ((0, Some (str_i64 v)), m)
              else spec_write w 1 (Some (str_i64 v)) m (m(k \<mapsto> str_i64 v)))"

lemma kv_set_bad: "\<not> key_ok k \<Longrightarrow> kv_set k v lt s = (if k = [] then 0 else -1, s)"
  by (auto simp: kv_set_def key_ok_def)

lemma kv_setnx_bad: "\<not> key_ok k \<Longrightarrow> kv_setnx k v lt s = (if k = [] then 0 else -1, s)"
  by (auto simp: kv_setnx_def key_ok_def)

lemma kv_getset_bad: "\<not> key_ok k \<Longrightarrow> kv_getset k v lt s = ((if k = [] then 0 else -1, None), s)"
  by (auto simp: kv_getset_def key_ok_def)

lemma kv_del_bad: "\<not> length k \<le> 255 \<Longrightarrow> kv_del k lt s = (-1, s)"
  by (simp add: kv_del_def)

lemma kv_incr_bad: "\<not> length k \<le> 255 \<Longrightarrow> kv_incr k n lt s = ((-1, None), s)"
  by (simp add: kv_incr_def)

lemmas kv_bad = kv_set_bad kv_setnx_bad kv_getset_bad kv_del_bad kv_incr_bad
lemmas kv_trans = kv_set_tran kv_setnx_tran kv_getset_tran kv_del_tran kv_incr_tran

lemma kv_exec_spec:
  assumes "kv_readable s (kv_cmd_key c)"
  shows "kv_spec (write_ok (db s)) c (kv_map s) =
    (fst (kv_exec lt c s), kv_map (snd (kv_exec lt c s)))"
proof -
  note simps = spec_write_def act_tran_result kv_map_act_tran kv_bad kv_trans kv_get_map
    case_prod_unfold Let_def
  show ?thesis
  proof (cases c)
    case (KGet k)
    with assms show ?thesis by (auto simp: kv_get_map split: option.split)
  next
    case (KSet k v)
    then show ?thesis by (cases "key_ok k") (auto simp: simps key_ok_def)
  next
    case (KSetnx k v)
    with assms show ?thesis 
      by (cases "key_ok k") (auto simp: simps key_ok_def split: option.splits)
  next
    case (KGetset k v)
    with assms show ?thesis 
      by (cases "key_ok k") (auto simp: simps key_ok_def split: option.splits)
  next
    case (KDel k)
    then show ?thesis by (cases "length k \<le> 255") (auto simp: simps)
  next
    case (KIncr k n)
    with assms show ?thesis
      by (cases "length k \<le> 255") (auto simp: simps split: option.splits)
  qed
qed


text \<open>A session: the answers of a list of commands, in order.\<close>

fun kv_run :: "u8 \<Rightarrow> kv_cmd list \<Rightarrow> ssdb \<Rightarrow> (int \<times> bytes option) list \<times> ssdb" where
  "kv_run lt [] s = ([], s)"
| "kv_run lt (c # cs) s =
     (let (a, s1) = kv_exec lt c s; (as, s2) = kv_run lt cs s1 in (a # as, s2))"

fun kv_spec_run :: "kv_cmd list \<Rightarrow> (bytes \<rightharpoonup> bytes) \<Rightarrow>
    (int \<times> bytes option) list \<times> (bytes \<rightharpoonup> bytes)" where
  "kv_spec_run [] m = ([], m)"
| "kv_spec_run (c # cs) m =
     (let (a, m1) = kv_spec True c m; (as, m2) = kv_spec_run cs m1 in (a # as, m2))"

lemma kv_readable_reliable [simp]: "reliable (db s) \<Longrightarrow> kv_readable s k"
  by (simp add: reliable_def kv_readable_def)

text \<open>Every command ends in a transaction with actions on its own key, or changes nothing.\<close>

definition kv_step :: "u8 \<Rightarrow> bytes \<Rightarrow> ssdb \<Rightarrow> ssdb \<Rightarrow> bool" where
  "kv_step lt key s s' \<longleftrightarrow>
     s' = s \<or> s' = abandon s \<or>
     (\<exists>as r. s' = snd (act_tran lt as r s) \<and> ((\<exists>v. as = kv_put_acts key v) \<or> as = kv_del_acts key))"

lemma kv_exec_step: "kv_step lt (kv_cmd_key c) s (snd (kv_exec lt c s))"
proof -
  note simps = kv_bad kv_trans case_prod_unfold Let_def
  have put: "kv_step lt k s (snd (act_tran lt (kv_put_acts k v) r s))"
    and del: "kv_step lt k s (snd (act_tran lt (kv_del_acts k) r s))"
    and same: "kv_step lt k s s" "kv_step lt k s (abandon s)" for k v r
    by (auto simp: kv_step_def)
  show ?thesis
  proof (cases c)
    case (KGet k)
    then show ?thesis by (simp add: same)
  next
    case (KSet k v)
    then show ?thesis by (cases "key_ok k") (simp_all add: simps put same)
  next
    case (KSetnx k v)
    then show ?thesis by (cases "key_ok k") (simp_all add: simps put same)
  next
    case (KGetset k v)
    then show ?thesis by (cases "key_ok k") (simp_all add: simps put same)
  next
    case (KDel k)
    then show ?thesis by (cases "length k \<le> 255") (simp_all add: simps del same)
  next
    case (KIncr k n)
    then show ?thesis by (cases "length k \<le> 255") (simp_all add: simps put same)
  qed
qed

lemma kv_step_reliable: "kv_step lt k s s' \<Longrightarrow> reliable (db s) \<Longrightarrow> reliable (db s')"
  by (auto simp: kv_step_def)

lemma kv_step_sorted:
  "kv_step lt k s s' \<Longrightarrow> sorted_keys (tbl (db s)) \<Longrightarrow> sorted_keys (tbl (db s'))"
  by (auto simp: kv_step_def act_tran_sorted)

lemma kv_step_frame:
  "kv_step lt k s s' \<Longrightarrow> x \<noteq> encode_kv_key k \<Longrightarrow> data s' x = data s x"
  by (auto simp: kv_step_def act_tran_data)

section \<open>Batches\<close>

fun pairs :: "bytes list \<Rightarrow> (bytes \<times> bytes) list" where
  "pairs (k # v # r) = (k, v) # pairs r"
| "pairs _ = []"

lemma multi_set_loop_run:
  assumes "even (length kvs)"
  shows "multi_set_loop lt kvs s =
      (if \<forall>(k, v) \<in> set (pairs kvs). key_ok k
       then (MDone, run_acts lt (concat (map (\<lambda>(k, v). kv_put_acts k v) (pairs kvs))) s)
       else (MReturn 0, snd (multi_set_loop lt kvs s)))"
    and "db (snd (multi_set_loop lt kvs s)) = db s"
  using assms
proof (induction kvs arbitrary: s rule: pairs.induct)
  case (1 k v r)
  {
    case 1
    then show ?case
      using "1.IH"(1) [of "add_log lt BC_KSET (encode_kv_key k) (bl_Put (encode_kv_key k) v s)"]
      by (auto simp: key_ok_def run_acts_append run_kv_acts Let_def)
  next
    case 2
    then show ?case
      using "1.IH"(2) [of "add_log lt BC_KSET (encode_kv_key k) (bl_Put (encode_kv_key k) v s)"]
      by (auto simp: Let_def add_log_def bl_Put_def)
  }
qed auto

lemma multi_del_loop_run:
  "multi_del_loop lt ks s = run_acts lt (concat (map kv_del_acts ks)) s"
  by (induction ks arbitrary: s) (simp_all add: kv_del_acts_def Let_def)

lemma data_ops_put_acts:
  "\<forall>w \<in> set (acts_ops (concat (map (\<lambda>(k, v). kv_put_acts k v) ps))). data_op w"
  by (induction ps) auto

lemma data_ops_del_acts: "\<forall>w \<in> set (acts_ops (concat (map kv_del_acts ks))). data_op w"
  by (induction ks) auto

lemma kv_map_fold_puts:
  "fold mstep (acts_ops (concat (map (\<lambda>(k, v). kv_put_acts k v) ps))) m (encode_kv_key x) =
     ((\<lambda>k. m (encode_kv_key k)) ++ map_of (rev ps)) x"
proof (induction ps arbitrary: m)
  case (Cons p ps)
  then show ?case by (cases p) (auto simp: map_add_def split: option.split)
qed simp

lemma kv_map_fold_dels:
  "fold mstep (acts_ops (concat (map kv_del_acts ks))) m (encode_kv_key x) =
     (if x \<in> set ks then None else m (encode_kv_key x))"
  by (induction ks arbitrary: m) auto

lemma transaction_Some:
  "transaction (\<lambda>s. let (r, s) = commit_ret r0 (run_acts lt as s) in (Some r, s)) s =
     (Some (fst (act_tran lt as r0 s)), snd (act_tran lt as r0 s))"
  by (simp add: act_tran_def transaction_def split: prod.split)

lemma kv_multi_set_ok:
  assumes "offset \<le> length kvs" "even (length kvs - offset)"
    and "\<forall>(k, v) \<in> set (pairs (drop offset kvs)). key_ok k"
  shows "kv_multi_set kvs offset lt s =
    (let (r, s') = act_tran lt (concat (map (\<lambda>(k, v). kv_put_acts k v) (pairs (drop offset kvs))))
                     (int ((length kvs - offset) div 2)) s
     in (Some r, s'))"
  using assms multi_set_loop_run(1) [of "drop offset kvs" lt]
  by (simp add: kv_multi_set_def transaction_def act_tran_def split: prod.split)

lemma kv_multi_set_bad:
  assumes "offset \<le> length kvs" "even (length kvs - offset)"
    and "\<not> (\<forall>(k, v) \<in> set (pairs (drop offset kvs)). key_ok k)"
  shows "fst (kv_multi_set kvs offset lt s) = Some 0"
    "db (snd (kv_multi_set kvs offset lt s)) = db s"
proof -
  have "even (length (drop offset kvs))" using assms by simp
  from multi_set_loop_run [OF this, of lt "bl_begin s"]
  have fst_loop: "fst (multi_set_loop lt (drop offset kvs) (bl_begin s)) = MReturn 0"
    and "db (snd (multi_set_loop lt (drop offset kvs) (bl_begin s))) = db s"
    unfolding if_not_P [OF assms(3)] by (metis fst_conv, simp)
  then obtain s1 where "multi_set_loop lt (drop offset kvs) (bl_begin s) = (MReturn 0, s1)"
    "db s1 = db s" by (metis prod.collapse)
  with assms(1) show "fst (kv_multi_set kvs offset lt s) = Some 0"
    "db (snd (kv_multi_set kvs offset lt s)) = db s"
    by (simp_all add: kv_multi_set_def transaction_def)
qed

lemma kv_multi_del_tran:
  assumes "offset \<le> length ks"
  shows "kv_multi_del ks offset lt s =
    (let (r, s') = act_tran lt (concat (map kv_del_acts (drop offset ks)))
                     (int (length ks - offset)) s
     in (Some r, s'))"
  using assms
  by (simp add: kv_multi_del_def transaction_def act_tran_def multi_del_loop_run split: prod.split)

section \<open>Bits\<close>

lemma bit_sint_u8: "n < 8 \<Longrightarrow> bit (sint (b :: u8)) n = bit b n"
  by (simp add: bit_sint_iff min_def)

lemma sint_and_bit:
  fixes b :: u8
  assumes "n < 8"
  shows "sint b AND 2 ^ n = (if bit b n then 2 ^ n else 0)"
  using assms
  by (intro bit_eqI) (auto simp: bit_and_iff bit_exp_iff bit_sint_u8)

lemma set_bit_u8:
  fixes b :: u8
  assumes "n < 8" "m < 8"
  shows "bit (word_of_int (sint b OR 2 ^ n) :: u8) m = (m = n \<or> bit b m)"
    and "bit (word_of_int (sint b AND NOT (2 ^ n)) :: u8) m = (m \<noteq> n \<and> bit b m)"
  using assms
  by (auto simp: bit_word_of_int_iff bit_or_iff bit_and_iff bit_not_iff bit_exp_iff bit_sint_u8)

text \<open>The bit of a value at an offset; outside the value bits are zero.\<close>

definition value_bit :: "bytes \<Rightarrow> int \<Rightarrow> bool" where
  "value_bit val i \<longleftrightarrow> nat (i div 8) < length val \<and> bit (val ! nat (i div 8)) (nat (7 - i mod 8))"

definition the_value :: "bytes option \<Rightarrow> bytes" where
  "the_value v = (case v of None \<Rightarrow> [] | Some x \<Rightarrow> x)"

lemma bit_place:
  assumes "0 \<le> i"
  shows "bit_len i = i div 8" "bit_no i = nat (7 - i mod 8)" "0 \<le> bit_len i" "bit_no i < 8"
proof -
  show "bit_len i = i div 8" "bit_no i = nat (7 - i mod 8)"
    using assms by (simp_all add: bit_len_def bit_no_def c_div_nonneg c_rem_nonneg)
  then show "0 \<le> bit_len i" "bit_no i < 8" using assms by (auto simp: pos_imp_zdiv_nonneg_iff)
qed

lemma bit_no_less [simp]: "nat (7 - i mod 8) < 8" "7 - i mod 8 < (8::int)"
  by (simp_all add: nat_less_iff)

lemma bit_zero_ext:
  "k < length val + n \<Longrightarrow> bit ((val @ replicate n (0::u8)) ! k) m \<longleftrightarrow> k < length val \<and> bit (val ! k) m"
  by (auto simp: nth_append)

lemma kv_getbit_value:
  assumes "kv_readable s key" "0 \<le> i"
  shows "kv_getbit s key i = (if value_bit (the_value (kv_map s key)) i then 1 else 0)"
  using assms bit_place(1-3) [OF assms(2)]
  by (auto simp: kv_getbit_def kv_get_map value_bit_def the_value_def sint_and_bit Let_def
      split: option.splits)

text \<open>The value \<open>setbit\<close> stores.\<close>

definition put_bit :: "bytes \<Rightarrow> int \<Rightarrow> int \<Rightarrow> bytes" where
  "put_bit val i on =
     (let l = nat (i div 8); n = nat (7 - i mod 8);
          val = (if l \<ge> length val then val @ replicate (l + 1 - length val) 0 else val)
      in val[l := (if on = 1 then word_of_int (sint (val ! l) OR 2 ^ n)
                   else word_of_int (sint (val ! l) AND NOT (2 ^ n)))])"

lemma kv_setbit_tran:
  assumes "key_ok key" "kv_readable s key" "0 \<le> i"
  shows "kv_setbit key i on lt s =
    (let val = the_value (kv_map s key);
         (r, s') = act_tran lt (kv_put_acts key (put_bit val i on))
                     (if value_bit val i then 2 ^ nat (7 - i mod 8) else 0) s
     in (Some r, s'))"
proof -
  let ?val = "the_value (kv_map s key)" and ?l = "nat (i div 8)" and ?n = "nat (7 - i mod 8)"
  let ?ext = "if ?l \<ge> length ?val then ?val @ replicate (?l + 1 - length ?val) 0 else ?val"
  have orig: "sint (?ext ! ?l) AND 2 ^ ?n = (if value_bit ?val i then 2 ^ ?n else 0)"
    by (auto simp: sint_and_bit value_bit_def bit_zero_ext)
  have l: "\<not> bit_len i < 0" "nat (bit_len i) = ?l" "bit_no i = ?n" using bit_place [OF assms(3)] by simp_all
  obtain ret where get: "kv_get s key = (ret, kv_map s key)" "ret \<noteq> -1"
    using assms(2) by (cases "kv_map s key") (simp_all add: kv_get_map)
  have body: "kv_setbit key i on lt s = transaction (\<lambda>s'. let (r, s'') = commit_ret
      (if value_bit ?val i then 2 ^ ?n else 0)
      (run_acts lt (kv_put_acts key (put_bit ?val i on)) s') in (Some r, s'')) s"
    using assms(1) unfolding kv_setbit_def key_ok_def transaction_def
    by (simp add: get l the_value_def [symmetric] orig put_bit_def run_kv_acts Let_def
        split del: if_split)
  show ?thesis unfolding body transaction_Some by (simp add: case_prod_unfold Let_def)
qed

lemma value_bit_put_bit:
  assumes "0 \<le> i" "0 \<le> j"
  shows "value_bit (put_bit val i on) j = (if i = j then on = 1 else value_bit val j)"
proof -
  let ?l = "nat (i div 8)" and ?n = "nat (7 - i mod 8)"
  let ?ext = "if ?l \<ge> length val then val @ replicate (?l + 1 - length val) 0 else val"
  have n: "?n < 8" "nat (7 - j mod 8) < 8" by (simp_all add: nat_less_iff)
  have ext: "value_bit ?ext j = value_bit val j"
    by (auto simp: value_bit_def bit_zero_ext)
  have same: "?l = nat (j div 8) \<and> ?n = nat (7 - j mod 8) \<longleftrightarrow> i = j"
  proof
    assume a: "?l = nat (j div 8) \<and> ?n = nat (7 - j mod 8)"
    have "0 \<le> i div 8" "0 \<le> j div 8" using assms by (simp_all add: pos_imp_zdiv_nonneg_iff)
    with a have "i div 8 = j div 8" by (simp only: eq_nat_nat_iff)
    moreover have "0 \<le> 7 - i mod 8" "0 \<le> 7 - j mod 8" by simp_all
    with a have "7 - i mod 8 = 7 - j mod 8" by (simp only: eq_nat_nat_iff)
    then have "i mod 8 = j mod 8" by simp
    ultimately show "i = j" by (metis div_mult_mod_eq)
  qed simp
  have len: "?l < length ?ext" by simp
  have "value_bit (put_bit val i on) j = (if i = j then on = 1 else value_bit ?ext j)"
  proof (cases "?l = nat (j div 8)")
    case True
    define b c where "b = ?ext ! ?l" and "c = (if on = 1 then word_of_int (sint b OR 2 ^ ?n)
      else (word_of_int (sint b AND NOT (2 ^ ?n)) :: u8))"
    have ij: "nat (7 - j mod 8) = ?n \<longleftrightarrow> i = j" using same True by auto
    have "put_bit val i on = ?ext[?l := c]" by (simp only: put_bit_def Let_def b_def c_def)
    then have "value_bit (put_bit val i on) j = bit c (nat (7 - j mod 8))"
      using len True [symmetric] by (simp only: value_bit_def length_list_update nth_list_update_eq) simp
    also have "\<dots> = (if i = j then on = 1 else bit b (nat (7 - j mod 8)))"
      using ij by (simp add: c_def set_bit_u8)
    also have "bit b (nat (7 - j mod 8)) = value_bit ?ext j"
      using len True [symmetric] by (simp only: value_bit_def b_def) simp
    finally show ?thesis .
  next
    case False
    then have "i \<noteq> j" by auto
    with False show ?thesis by (simp add: put_bit_def Let_def value_bit_def)
  qed
  then show ?thesis by (simp only: ext)
qed

section \<open>Scans\<close>

text \<open>The stored pairs, in key order.\<close>

definition kv_entries :: "table \<Rightarrow> table" where
  "kv_entries t = block_entries [DT_KV] t"

lemma decode_kv_prefix: "prefix [DT_KV] k \<Longrightarrow> decode_kv_key k = Some (tl k)"
  using kv_key.dec_enc [of "tl k"] by (cases k) (auto simp: encode_kv_key_def)

text \<open>What a scan yields, when the block of values comes first in its range.\<close>

lemma kiter_pending:
  assumes "upcoming i = take n es"
    and "takeWhile (\<lambda>e. prefix [DT_KV] (fst e)) (take n es) =
         take n (filter (\<lambda>e. prefix [DT_KV] (fst e)) es)"
  shows "kiter.pending (kiter_new i) =
    take n (map (\<lambda>e. (tl (fst e), snd e)) (filter (\<lambda>e. prefix [DT_KV] (fst e)) es))"
proof -
  let ?xs = "take n (filter (\<lambda>e. prefix [DT_KV] (fst e)) es)"
  have "\<forall>e \<in> set ?xs. prefix [DT_KV] (fst e)" by (auto dest: in_set_takeD)
  then have "List.map_filter (\<lambda>e. map_option (\<lambda>key. (key, snd e)) (decode_kv_key (fst e))) ?xs =
      map (\<lambda>e. (tl (fst e), snd e)) ?xs"
    by (intro map_filter_all ballI) (drule (1) bspec, simp add: decode_kv_prefix)
  then have view: "List.map_filter (\<lambda>e. map_option (\<lambda>key. (key, snd e)) (decode_kv_key (fst e))) ?xs =
      take n (map (\<lambda>e. (tl (fst e), snd e)) (filter (\<lambda>e. prefix [DT_KV] (fst e)) es))"
    by (simp only: take_map)
  have kit: "kit (kiter_new i) = i" by (simp add: kiter_new_def)
  have not_stop: "(\<lambda>e :: bytes \<times> bytes. \<not> key_type (fst e) \<noteq> DT_KV) = (\<lambda>e. prefix [DT_KV] (fst e))"
    by (rule ext) (use key_type_prefix [of DT_KV] in simp)
  have "kiter.pending (kiter_new i) =
      List.map_filter (\<lambda>e. map_option (\<lambda>key. (key, snd e)) (decode_kv_key (fst e)))
        (takeWhile (\<lambda>e. prefix [DT_KV] (fst e)) (take n es))"
    unfolding kiter.pending_def kit assms(1) not_stop ..
  also have "\<dots> = List.map_filter (\<lambda>e. map_option (\<lambda>key. (key, snd e)) (decode_kv_key (fst e))) ?xs"
    unfolding assms(2) ..
  finally show ?thesis unfolding view .
qed

lemma encode_kv_app: "encode_kv_key k = [DT_KV] @ k"
  by (simp add: encode_kv_key_def)

lemma kv_block:
  "map (\<lambda>e. (tl (fst e), snd e)) (filter (\<lambda>e. prefix [DT_KV] (fst e)) t) = block_entries [DT_KV] t"
  by (simp add: block_entries_def drop_Suc)

lemma kv_scan_pending:
  assumes "sorted_keys (tbl (db s))"
  shows "kiter.pending (kv_scan s start end n) =
    take (unat n) (filter (\<lambda>e. start < fst e \<and> (end = [] \<or> fst e \<le> end)) (kv_entries (tbl (db s))))"
proof -
  have e: "(if end = [] then [] else [DT_KV] @ end) = (if end \<noteq> [] then [DT_KV] @ end else [])" by simp
  have "[DT_KV] \<le> [DT_KV] @ start" by simp
  note pending = kiter_pending [OF upcoming_iterator(2) [OF assms] block_asc [OF assms this]]
  show ?thesis
    unfolding kv_scan_def Let_def encode_kv_app e pending kv_block block_entries_asc kv_entries_def ..
qed

lemma kv_rscan_pending:
  assumes "sorted_keys (tbl (db s))"
  shows "kiter.pending (kv_rscan s start end n) =
    take (unat n) (rev (filter (\<lambda>e. fst e < (if start = [] then [255] else start) \<and> end \<le> fst e)
      (kv_entries (tbl (db s)))))"
proof -
  let ?s = "if start = [] then [255] else start"
  have s: "(if start = [] then ([DT_KV] @ start) @ [255] else [DT_KV] @ start) = [DT_KV] @ ?s" by simp
  have below: "x < [DT_KV] @ ?s \<Longrightarrow> x < [DT_KV] \<or> prefix [DT_KV] x" for x
    by (erule below_prefix [rotated]) simp
  have block: "takeWhile (\<lambda>e. prefix [DT_KV] (fst e)) (take k (range_desc (tbl (db s)) ([DT_KV] @ ?s) b)) =
      take k (filter (\<lambda>e. prefix [DT_KV] (fst e)) (range_desc (tbl (db s)) ([DT_KV] @ ?s) b))" for k b
    by (rule block_desc [OF assms below])
  note pending = kiter_pending [OF upcoming_rev_iterator(2) [OF assms] block]
  show ?thesis
    unfolding kv_rscan_def Let_def encode_kv_app s pending kv_block block_entries_desc kv_entries_def ..
qed

text \<open>A small database for examples.\<close>

definition two_values :: ssdb where
  "two_values = empty_ssdb\<lparr>db := empty_ldb\<lparr>tbl := [(encode_kv_key [1], [7]), (encode_kv_key [2], [8])]\<rparr>\<rparr>"

text \<open>The list a client gets by calling \<open>next()\<close> until it is false.\<close>

definition kiter_items :: "kiter \<Rightarrow> (bytes \<times> bytes) list" where
  "kiter_items k = drain (unat (limit (kit k))) kiter_next (\<lambda>k. (kkey k, kval k)) k"

lemma kiter_items_pending:
  "kreturn_val k \<Longrightarrow> iter_ok (kit k) \<Longrightarrow> kiter_items k = kiter.pending k"
  unfolding kiter_items_def by (rule kiter.drain_all)

section \<open>Correctness\<close>

lemma kv_scan_frame:
  "kreturn_val (kv_scan s a b n)" "kreturn_val (kv_rscan s a b n)"
  "sorted_keys (tbl (db s)) \<Longrightarrow> iter_ok (kit (kv_scan s a b n))"
  "sorted_keys (tbl (db s)) \<Longrightarrow> iter_ok (kit (kv_rscan s a b n))"
  by (simp_all add: kv_scan_def kv_rscan_def kiter_new_def Let_def upcoming_iterator(1)
      upcoming_rev_iterator(1))

text \<open>
  every single-key command answers and changes the stored map as the specification says,
  with a failed write answered by -1 and no change.
\<close>

theorem kv_exec_refines:
  assumes "kv_readable s (kv_cmd_key c)"
  shows "(fst (kv_exec lt c s), kv_map (snd (kv_exec lt c s))) =
    kv_spec (write_ok (db s)) c (kv_map s)"
  using kv_exec_spec [OF assms] by (rule sym)

lemma kv_exec_refines_witness:
  "fst (kv_exec BT_SYNC (KIncr [1] 5) empty_ssdb) = (1, Some [53])"
proof -
  have "kv_readable empty_ssdb (kv_cmd_key (KIncr [1] 5))" by simp
  from kv_exec_refines [OF this, of BT_SYNC] show ?thesis
    by (simp add: incr_value_def spec_write_def kv_map_def data_map_def str_i64_def dec_int_def
        dec_digits.simps)
qed

text \<open>
  on a storage that does not fail, a session of commands gives the answers of the
  specification run on the stored map, and leaves its final map.
\<close>

theorem kv_session_refines:
  assumes "reliable (db s)"
  shows "fst (kv_run lt cs s) = fst (kv_spec_run cs (kv_map s)) \<and>
    kv_map (snd (kv_run lt cs s)) = snd (kv_spec_run cs (kv_map s))"
  using assms
proof (induction cs arbitrary: s)
  case (Cons c cs)
  obtain a s1 where e: "kv_exec lt c s = (a, s1)" by fastforce
  with Cons.prems have "kv_spec True c (kv_map s) = (a, kv_map s1)"
    using kv_exec_spec [of s c lt] by simp
  moreover have "reliable (db s1)"
    using kv_step_reliable [OF kv_exec_step [of lt c s] Cons.prems] e by simp
  ultimately show ?case using Cons.IH [of s1] e by (simp add: case_prod_unfold Let_def)
qed simp

lemma kv_session_refines_witness:
  "fst (kv_run BT_SYNC [KSet [1] [7], KSetnx [1] [8], KGet [1], KDel [1], KGet [1]] empty_ssdb) =
     [(1, None), (0, None), (1, Some [7]), (1, None), (0, None)]"
proof -
  have "reliable (db empty_ssdb)" by simp
  from kv_session_refines [OF this, of BT_SYNC "[KSet [1] [7], KSetnx [1] [8], KGet [1], KDel [1], KGet [1]]"]
  show ?thesis by (simp add: spec_write_def kv_map_def data_map_def)
qed

text \<open>
  A command on a key leaves every other entry of the database that is not part of the log as
  it was, entries of other keys and of the other kinds of data alike.
\<close>

theorem kv_exec_frame:
  assumes "x \<noteq> encode_kv_key (kv_cmd_key c)"
  shows "data (snd (kv_exec lt c s)) x = data s x"
  using kv_step_frame [OF kv_exec_step assms] .

lemma kv_exec_frame_witness:
  "data (snd (kv_exec BT_SYNC (KSet [1] [7]) empty_ssdb)) (encode_hsize_key [1]) = None"
  using kv_exec_frame [of "encode_hsize_key [1]" "KSet [1] [7]" BT_SYNC empty_ssdb]
  by (simp add: data_map_def)

text \<open>
  C20: \<open>multi_set\<close> on key-value pairs is all or nothing: with good keys it stores every pair, a
  later pair over an earlier one, and returns their number; with a bad key it returns 0 and
  stores none; with a failed write it returns -1 and stores none.
\<close>

theorem kv_multi_set_atomic:
  assumes "offset \<le> length kvs" "even (length kvs - offset)"
  shows "(fst (kv_multi_set kvs offset lt s), kv_map (snd (kv_multi_set kvs offset lt s))) =
    (let ps = pairs (drop offset kvs)
     in if \<not> (\<forall>(k, v) \<in> set ps. key_ok k) then (Some 0, kv_map s)
        else if \<not> write_ok (db s) then (Some (-1), kv_map s)
        else (Some (int ((length kvs - offset) div 2)), kv_map s ++ map_of (rev ps)))"
proof (cases "\<forall>(k, v) \<in> set (pairs (drop offset kvs)). key_ok k")
  case True
  let ?acts = "concat (map (\<lambda>(k, v). kv_put_acts k v) (pairs (drop offset kvs)))"
  have "kv_map (snd (act_tran lt ?acts r s)) =
      (if write_ok (db s) then kv_map s ++ map_of (rev (pairs (drop offset kvs))) else kv_map s)" for r
    by (rule ext) (simp add: kv_map_def [abs_def] act_tran_data [OF data_ops_put_acts] kv_map_fold_puts)
  with True show ?thesis
    by (simp add: kv_multi_set_ok [OF assms True] case_prod_unfold Let_def act_tran_result)
next
  case False
  from kv_multi_set_bad [OF assms False, of lt s] show ?thesis
    unfolding Let_def if_P [OF False] by (simp add: kv_map_def [abs_def])
qed

lemma kv_multi_set_atomic_witness:
  "fst (kv_multi_set [[9], [1], [2], [], [3]] 1 BT_SYNC empty_ssdb) = Some 0 \<and>
   kv_map (snd (kv_multi_set [[1], [2], [1], [3]] 0 BT_SYNC empty_ssdb)) [1] = Some [3]"
proof
  have "1 \<le> length [[9], [1], [2], [], [3 :: u8]]" "even (length [[9], [1], [2], [], [3 :: u8]] - 1)" by simp_all
  from kv_multi_set_atomic [OF this, of BT_SYNC empty_ssdb]
  show "fst (kv_multi_set [[9], [1], [2], [], [3]] 1 BT_SYNC empty_ssdb) = Some 0"
    by (simp add: key_ok_def)
  have "0 \<le> length [[1], [2], [1], [3 :: u8]]" "even (length [[1], [2], [1], [3 :: u8]] - 0)" by simp_all
  from kv_multi_set_atomic [OF this, of BT_SYNC empty_ssdb]
  show "kv_map (snd (kv_multi_set [[1], [2], [1], [3]] 0 BT_SYNC empty_ssdb)) [1] = Some [3]"
    by (simp add: key_ok_def)
qed

text \<open>
  C17: after a successful \<open>setbit\<close>, \<open>getbit\<close> reads the bit that was set at that offset, and at
  every other offset what it read before, also when the value has grown. The record of the key can be
  read, the write succeeds, and the offsets are not negative.
\<close>

theorem kv_setbit_getbit:
  assumes "key_ok key" "kv_readable s key" "write_ok (db s)" "0 \<le> i" "0 \<le> j"
  shows "kv_getbit (snd (kv_setbit key i on lt s)) key j =
    (if j = i then (if on = 1 then 1 else 0) else kv_getbit s key j)"
proof -
  let ?s' = "snd (kv_setbit key i on lt s)"
  have m: "kv_map ?s' key = Some (put_bit (the_value (kv_map s key)) i on)"
    using assms by (simp add: kv_setbit_tran case_prod_unfold Let_def kv_map_act_tran)
  have "kv_readable ?s' key"
    using assms by (simp add: kv_setbit_tran case_prod_unfold Let_def kv_readable_def)
  then have "kv_getbit ?s' key j = (if value_bit (put_bit (the_value (kv_map s key)) i on) j then 1 else 0)"
    using assms(5) by (simp add: kv_getbit_value m the_value_def)
  then show ?thesis
    using assms by (auto simp: value_bit_put_bit kv_getbit_value)
qed

lemma kv_setbit_getbit_witness:
  "kv_getbit (snd (kv_setbit [1] 70000 1 BT_SYNC empty_ssdb)) [1] 70000 = 1"
proof -
  have "key_ok [1]" "kv_readable empty_ssdb [1]" "write_ok (db empty_ssdb)" "0 \<le> (70000 :: int)"
    by (simp_all add: key_ok_def)
  from kv_setbit_getbit [OF this this(4), of 1 BT_SYNC] show ?thesis by simp
qed

text \<open>
  \<open>scan\<close> yields, in key order, the first \<open>limit\<close> stored pairs with a key after \<open>start\<close>, up to
  and including \<open>end\<close> when one is given.
\<close>

theorem kv_scan_items:
  assumes "sorted_keys (tbl (db s))"
  shows "kiter_items (kv_scan s start end n) =
    take (unat n) (filter (\<lambda>e. start < fst e \<and> (end = [] \<or> fst e \<le> end)) (kv_entries (tbl (db s))))"
  unfolding kiter_items_pending [OF kv_scan_frame(1) kv_scan_frame(3) [OF assms]]
  by (rule kv_scan_pending [OF assms])

lemma kv_scan_items_witness: "kiter_items (kv_scan two_values [1] [] 10) = [([2], [8])]"
proof -
  have "sorted_keys (tbl (db two_values))" by (simp add: two_values_def encode_kv_key_def)
  from kv_scan_items [OF this, of "[1]" "[]" 10] show ?thesis
    by (simp add: two_values_def kv_entries_def encode_kv_key_def)
qed

text \<open>
  \<open>rscan\<close> yields, in descending order, the first \<open>limit\<close> stored pairs with a key before
  \<open>start\<close>, down to and including \<open>end\<close>; an empty \<open>start\<close> stands for the single byte 255, so
  keys that begin with that byte are out of its reach.
\<close>

theorem kv_rscan_items:
  assumes "sorted_keys (tbl (db s))"
  shows "kiter_items (kv_rscan s start end n) =
    take (unat n) (rev (filter (\<lambda>e. fst e < (if start = [] then [255] else start) \<and> end \<le> fst e)
      (kv_entries (tbl (db s)))))"
  unfolding kiter_items_pending [OF kv_scan_frame(2) kv_scan_frame(4) [OF assms]]
  by (rule kv_rscan_pending [OF assms])

lemma kv_rscan_items_witness: "kiter_items (kv_rscan two_values [] [] 1) = [([2], [8])]"
proof -
  have "sorted_keys (tbl (db two_values))" by (simp add: two_values_def encode_kv_key_def)
  from kv_rscan_items [OF this, of "[]" "[]" 1] show ?thesis
    by (simp add: two_values_def kv_entries_def encode_kv_key_def)
qed

text \<open>
  The answers of \<open>setbit\<close> and \<open>getbit\<close> for the same bit differ: \<open>setbit\<close> hands back the old
  bit in its place in the byte, here 128, where \<open>getbit\<close> answers 1.
\<close>

theorem setbit_returns_mask:
  "fst (kv_setbit [1] 0 1 BT_SYNC (snd (kv_setbit [1] 0 1 BT_SYNC empty_ssdb))) = Some 128 \<and>
   kv_getbit (snd (kv_setbit [1] 0 1 BT_SYNC empty_ssdb)) [1] 0 = 1"
proof -
  let ?s = "snd (kv_setbit [1] 0 1 BT_SYNC empty_ssdb)"
  have k: "key_ok [1]" by (simp add: key_ok_def)
  have s: "?s = snd (act_tran BT_SYNC (kv_put_acts [1] (put_bit [] 0 1)) 0 empty_ssdb)"
    using kv_setbit_tran [OF k, of empty_ssdb 0 1 BT_SYNC]
    by (simp add: case_prod_unfold Let_def kv_map_def data_map_def the_value_def value_bit_def)
  have r: "kv_readable ?s [1]" "write_ok (db ?s)"
    unfolding s by simp_all
  have m: "the_value (kv_map ?s [1]) = put_bit [] 0 1"
    unfolding s by (simp add: kv_map_act_tran the_value_def)
  have v: "value_bit (put_bit [] 0 1) 0" by (simp add: value_bit_put_bit)
  have "fst (kv_setbit [1] 0 1 BT_SYNC ?s) = Some 128"
    using kv_setbit_tran [OF k r(1), of 0 1 BT_SYNC] r(2) m v
    by (simp add: case_prod_unfold Let_def act_tran_result)
  moreover have "kv_getbit ?s [1] 0 = 1" using r(1) m v by (simp add: kv_getbit_value)
  ultimately show ?thesis ..
qed

end
