(* ===== verification/Containers.thy ===== *)
theory Containers
  imports Ssdb_Iterator
begin

text \<open>
  What the hash, the sorted set and the queue share. Hashes and sorted sets are families of maps
  kept in the one key space, each with a record of its number of members (\<open>counted_family\<close>);
  all three keep one size record for each name, and the listing commands read the names off
  those records (\<open>name_lister\<close>).
\<close>

section \<open>Size records\<close>

text \<open>
  The reading of a size by \<open>hsize\<close> and \<open>zsize\<close>, which is the same code twice: 0 for a missing
  or malformed record, -1 for a failed read, and never a negative number from the record.
\<close>

definition size_of_record :: "get_result \<Rightarrow> int" where
  "size_of_record r =
     (case r of
        NotFound \<Rightarrow> 0
      | GetError \<Rightarrow> -1
      | Found val \<Rightarrow>
          if length val \<noteq> 8 then 0
          else let ret = sint (load64 val) in if ret < 0 then 0 else ret)"

definition size_record :: "nat \<Rightarrow> bytes option" where
  "size_record c = (if c = 0 then None else Some (mem64 (of_nat c)))"

lemma sint_of_int_small: "- (2 ^ 63) \<le> i \<Longrightarrow> i < 2 ^ 63 \<Longrightarrow> sint (of_int i :: u64) = i"
  by (simp add: signed_of_int signed_take_bit_int_eq_self)

lemma sint_of_nat_small: "c < 2 ^ 63 \<Longrightarrow> sint (of_nat c :: u64) = int c"
  using sint_of_int_small [of "int c"] by simp

lemma size_of_record_size_record [simp]:
  "c < 2 ^ 63 \<Longrightarrow>
     size_of_record (case size_record c of None \<Rightarrow> NotFound | Some v \<Rightarrow> Found v) = int c"
  by (simp add: size_of_record_def size_record_def sint_of_nat_small)

lemma size_record_0 [simp]: "size_record 0 = None"
  by (simp add: size_record_def)

text \<open>The action that writes a size record.\<close>

definition size_act :: "bytes \<Rightarrow> nat \<Rightarrow> act" where
  "size_act k c = (case size_record c of None \<Rightarrow> ADel k | Some v \<Rightarrow> APut k v)"

lemma size_act_simps [simp]:
  "act_log (size_act k c) = []"
  "act_op (size_act k c) = [case size_record c of None \<Rightarrow> WDel k | Some v \<Rightarrow> WPut k v]"
  by (auto simp: size_act_def split: option.split)

lemma mstep_size [simp]:
  "mstep (case size_record c of None \<Rightarrow> WDel k | Some v \<Rightarrow> WPut k v) m = m(k := size_record c)"
  "data_op (case size_record c of None \<Rightarrow> WDel k | Some v \<Rightarrow> WPut k v) \<longleftrightarrow> \<not> is_log_key k"
  by (auto split: option.split)

lemma size_put [simp]:
  "WPut x v = (case size_record c of None \<Rightarrow> WDel k | Some u \<Rightarrow> WPut k u) \<longleftrightarrow>
     x = k \<and> size_record c = Some v"
  by (auto split: option.split)

text \<open>What the counters do with a number: delete the record for zero, else write it.\<close>

lemma run_size_act:
  assumes "of_int i + of_int d = (of_nat c :: i64)" "c < 2 ^ 63"
  shows "(if of_int i + of_int d = (0 :: i64) then (0, bl_Delete k s)
          else (0, bl_Put k (mem64 (of_int i + of_int d)) s)) = (0 :: int, run_acts lt [size_act k c] s)"
proof -
  have "(of_nat c :: i64) = 0 \<longleftrightarrow> c = 0"
    using assms(2) by (auto simp: word_of_nat_eq_0_iff dest: dvd_imp_le)
  with assms(1) show ?thesis by (simp add: size_act_def size_record_def)
qed

section \<open>Families of maps with a counter\<close>

text \<open>The members of the map \<open>n\<close> of a family, when \<open>ik n k\<close> is the key of its member \<open>k\<close>.\<close>

definition members :: "(bytes \<Rightarrow> 'k \<Rightarrow> bytes) \<Rightarrow> (bytes \<rightharpoonup> bytes) \<Rightarrow> bytes \<Rightarrow> 'k \<rightharpoonup> bytes" where
  "members ik m n = (\<lambda>k. m (ik n k))"

text \<open>The names and keys the operations store.\<close>

definition member_ok :: "bytes \<Rightarrow> bytes \<Rightarrow> bool" where
  "member_ok n k \<longleftrightarrow> n \<noteq> [] \<and> k \<noteq> [] \<and> length n \<le> 255 \<and> length k \<le> 255"

text \<open>Every size record is the number of members, and that number fits.\<close>

definition sizes_ok :: "(bytes \<Rightarrow> 'k \<Rightarrow> bytes) \<Rightarrow> (bytes \<Rightarrow> bytes) \<Rightarrow> (bytes \<rightharpoonup> bytes) \<Rightarrow> bool" where
  "sizes_ok ik sk m \<longleftrightarrow>
     (\<forall>n. length n \<le> 255 \<longrightarrow> finite (dom (members ik m n)) \<and> card (dom (members ik m n)) < 2 ^ 63 \<and>
        m (sk n) = size_record (card (dom (members ik m n))))"

lemma sizes_okD:
  assumes "sizes_ok ik sk m" "length n \<le> 255"
  shows "finite (dom (members ik m n))" "card (dom (members ik m n)) < 2 ^ 63"
    "m (sk n) = size_record (card (dom (members ik m n)))"
  using assms by (simp_all add: sizes_ok_def)

locale counted_family =
  fixes ik :: "bytes \<Rightarrow> 'k \<Rightarrow> bytes"
    and sk :: "bytes \<Rightarrow> bytes"
  assumes item_inject:
      "length n \<le> 255 \<Longrightarrow> length n' \<le> 255 \<Longrightarrow> ik n k = ik n' k' \<longleftrightarrow> n = n' \<and> k = k'"
    and size_inject: "sk n = sk n' \<longleftrightarrow> n = n'"
    and item_size: "ik n k \<noteq> sk n'"
begin

lemma members_item:
  assumes "length n \<le> 255" "length n' \<le> 255"
  shows "members ik (m(ik n k := v)) n' =
    (if n' = n then (members ik m n)(k := v) else members ik m n')"
  by (rule ext) (use item_inject [OF assms(2,1)] in \<open>auto simp: members_def\<close>)

lemma members_size: "members ik (m(sk n := v)) n' = members ik m n'"
  by (rule ext) (use item_size in \<open>auto simp: members_def\<close>)

lemma members_other: "(\<And>n k. x \<noteq> ik n k) \<Longrightarrow> members ik (m(x := v)) n' = members ik m n'"
  by (rule ext) (auto simp: members_def)

lemma sizes_ok_other:
  assumes "\<And>n k. x \<noteq> ik n k" "\<And>n. x \<noteq> sk n"
  shows "sizes_ok ik sk (m(x := v)) = sizes_ok ik sk m"
  using assms by (auto simp: sizes_ok_def members_other)

text \<open>A member is changed in place.\<close>

lemma sizes_ok_update:
  assumes ok: "sizes_ok ik sk m" and n: "length n \<le> 255" and old: "m (ik n k) \<noteq> None"
  shows "sizes_ok ik sk (m(ik n k \<mapsto> v))"
proof -
  have "k \<in> dom (members ik m n)" using old by (auto simp: members_def)
  then have "insert k (dom (members ik m n)) = dom (members ik m n)" by blast
  with n have dom: "length n' \<le> 255 \<Longrightarrow>
      dom (members ik (m(ik n k \<mapsto> v)) n') = dom (members ik m n')" for n'
    by (simp add: members_item)
  from ok show ?thesis
    by (auto simp: sizes_ok_def dom item_size [symmetric])
qed

text \<open>A member comes or goes, and the size record with it.\<close>

lemma sizes_ok_recount:
  assumes ok: "sizes_ok ik sk m" and n: "length n \<le> 255"
    and c: "card (dom ((members ik m n)(k := v))) = c" "c < 2 ^ 63"
  shows "sizes_ok ik sk (m(ik n k := v, sk n := size_record c))"
  unfolding sizes_ok_def
proof (intro allI impI)
  fix n' :: bytes assume n': "length n' \<le> 255"
  let ?m' = "m(ik n k := v, sk n := size_record c)"
  have mem: "members ik ?m' n' = (if n' = n then (members ik m n)(k := v) else members ik m n')"
    by (simp add: members_size members_item [OF n n'])
  show "finite (dom (members ik ?m' n')) \<and> card (dom (members ik ?m' n')) < 2 ^ 63 \<and>
      ?m' (sk n') = size_record (card (dom (members ik ?m' n')))"
  proof (cases "n' = n")
    case True
    have "finite (dom ((members ik m n)(k := v)))"
      using sizes_okD(1) [OF ok n] by (cases v) simp_all
    moreover have "members ik ?m' n' = (members ik m n)(k := v)" using True mem by simp
    ultimately show ?thesis using c True by (simp del: dom_fun_upd)
  next
    case False
    with sizes_okD [OF ok n'] show ?thesis
      using size_inject [of n' n] item_size [of n k n'] by (simp add: mem)
  qed
qed

lemma sizes_ok_insert:
  assumes "sizes_ok ik sk m" "length n \<le> 255" "m (ik n k) = None"
    and "card (dom (members ik m n)) + 1 < 2 ^ 63"
  shows "sizes_ok ik sk (m(ik n k \<mapsto> v, sk n := size_record (card (dom (members ik m n)) + 1)))"
proof (rule sizes_ok_recount [OF assms(1,2)])
  have "k \<notin> dom (members ik m n)" using assms(3) by (simp add: members_def domIff)
  then show "card (dom ((members ik m n)(k \<mapsto> v))) = card (dom (members ik m n)) + 1"
    using sizes_okD(1) [OF assms(1,2)] by simp
qed (rule assms)

lemma sizes_ok_remove:
  assumes "sizes_ok ik sk m" "length n \<le> 255" "m (ik n k) \<noteq> None"
  shows "sizes_ok ik sk (m(ik n k := None, sk n := size_record (card (dom (members ik m n)) - 1)))"
    and "0 < card (dom (members ik m n))"
proof -
  have k: "k \<in> dom (members ik m n)" using assms(3) by (auto simp: members_def)
  show "sizes_ok ik sk (m(ik n k := None, sk n := size_record (card (dom (members ik m n)) - 1)))"
  proof (rule sizes_ok_recount [OF assms(1,2)])
    show "card (dom ((members ik m n)(k := None))) = card (dom (members ik m n)) - 1"
      using k sizes_okD(1) [OF assms(1,2)] by (simp add: card_Diff_singleton)
    show "card (dom (members ik m n)) - 1 < 2 ^ 63"
      using sizes_okD(2) [OF assms(1,2)] by simp
  qed
  show "0 < card (dom (members ik m n))"
    using k sizes_okD(1) [OF assms(1,2)] by (auto simp: card_gt_0_iff)
qed

end

section \<open>Listing names\<close>

definition names_of :: "u8 \<Rightarrow> table \<Rightarrow> bytes list" where
  "names_of tag t = map fst (block_entries [tag] t)"

text \<open>The loops of \<open>get_hnames\<close>, \<open>get_znames\<close> and \<open>get_qnames\<close>.\<close>

locale name_lister =
  fixes names :: "iter \<Rightarrow> bytes list"
    and dec :: "bytes \<Rightarrow> bytes option"
    and tag :: u8
  assumes unroll: "names i =
      (case iter_next i of
         (False, i') \<Rightarrow> []
       | (True, i') \<Rightarrow>
           if key_type (iter_key i') \<noteq> tag then []
           else (case dec (iter_key i') of None \<Rightarrow> names i' | Some n \<Rightarrow> n # names i'))"
    and dec_tag: "dec (tag # n) = Some n"
    and tag_nonzero: "tag \<noteq> 0"
begin

lemma names_upcoming:
  "iter_ok i \<Longrightarrow>
     names i = map (\<lambda>e. tl (fst e)) (takeWhile (\<lambda>e. prefix [tag] (fst e)) (upcoming i))"
proof (induction "upcoming i" arbitrary: i)
  case Nil
  then obtain i' where "iter_next i = (False, i')" by (metis iter_next_Nil)
  with Nil.hyps [symmetric] show ?case by (subst unroll) simp
next
  case (Cons e es)
  from Cons.hyps(2) Cons.prems obtain i' where
    i': "iter_next i = (True, i')" "entry i' = e" "upcoming i' = es" "iter_ok i'"
    by (metis iter_next_Cons)
  show ?case
  proof (cases "fst e")
    case Nil
    then show ?thesis
      using i' tag_nonzero Cons.hyps(2) [symmetric]
      by (subst unroll) (auto simp: entry_def key_type_def)
  next
    case (Cons b n)
    then show ?thesis
      using i' Cons.hyps(1) [of i'] Cons.hyps(2) [symmetric] dec_tag [of n]
      by (subst unroll) (auto simp: entry_def key_type_def)
  qed
qed

text \<open>Forwards and backwards over a range of names.\<close>

lemma names_block:
  "map (\<lambda>e. tl (fst e)) (take k (filter (\<lambda>e. prefix [tag] (fst e)) t)) =
     take k (map fst (block_entries [tag] t))"
  by (simp add: block_entries_def drop_Suc take_map)

lemma names_asc:
  assumes "sorted_keys (tbl (db s))"
  shows "names (ssdb_iterator s ([tag] @ a) (if b \<noteq> [] then [tag] @ b else []) n) =
    take (unat n) (filter (\<lambda>x. a < x \<and> (b = [] \<or> x \<le> b)) (names_of tag (tbl (db s))))"
proof -
  have le: "[tag] \<le> [tag] @ a" by simp
  show ?thesis
    unfolding names_upcoming [OF upcoming_iterator(1) [OF assms]] upcoming_iterator(2) [OF assms]
      block_asc [OF assms le] names_block block_entries_asc
    by (simp add: names_of_def filter_map comp_def)
qed

lemma names_desc:
  assumes "sorted_keys (tbl (db s))"
  shows "names (ssdb_rev_iterator s ([tag] @ a) (if b \<noteq> [] then [tag] @ b else []) n) =
    take (unat n) (rev (filter (\<lambda>x. x < a \<and> b \<le> x) (names_of tag (tbl (db s)))))"
proof -
  have below: "x < [tag] @ a \<Longrightarrow> x < [tag] \<or> prefix [tag] x" for x by (erule below_prefix [rotated]) simp
  have block: "takeWhile (\<lambda>e. prefix [tag] (fst e)) (take k (range_desc (tbl (db s)) ([tag] @ a) b)) =
      take k (filter (\<lambda>e. prefix [tag] (fst e)) (range_desc (tbl (db s)) ([tag] @ a) b))" for k b
    by (rule block_desc [OF assms below])
  show ?thesis
    unfolding names_upcoming [OF upcoming_rev_iterator(1) [OF assms]]
      upcoming_rev_iterator(2) [OF assms] block names_block block_entries_desc
    by (simp add: names_of_def filter_map comp_def rev_map)
qed

end

section \<open>Sessions\<close>

text \<open>A client that sends one command after the other, and what every answer may rely on.\<close>

fun run_session :: "('c \<Rightarrow> 's \<Rightarrow> 'r \<times> 's) \<Rightarrow> 'c list \<Rightarrow> 's \<Rightarrow> 'r list \<times> 's" where
  "run_session exec [] s = ([], s)"
| "run_session exec (c # cs) s =
     (let (a, s1) = exec c s; (as, s2) = run_session exec cs s1 in (a # as, s2))"

locale counted_session =
  fixes exec :: "'c \<Rightarrow> ssdb \<Rightarrow> 'r \<times> ssdb"
    and good :: "'c \<Rightarrow> bool"
    and inv :: "ssdb \<Rightarrow> bool"
    and count :: "ssdb \<Rightarrow> bytes \<Rightarrow> nat"
    and maximum :: nat
  assumes step: "inv s \<Longrightarrow> unreadable (db s) = {} \<Longrightarrow> good c \<Longrightarrow> \<forall>n. count s n + 1 < maximum \<Longrightarrow>
      inv (snd (exec c s)) \<and> unreadable (db (snd (exec c s))) = {} \<and>
      (\<forall>n. count (snd (exec c s)) n \<le> count s n + 1)"
begin

lemma run_keeps:
  "inv s \<Longrightarrow> unreadable (db s) = {} \<Longrightarrow> \<forall>c \<in> set cs. good c \<Longrightarrow>
     \<forall>n. count s n + length cs < maximum \<Longrightarrow>
     inv (snd (run_session exec cs s)) \<and> unreadable (db (snd (run_session exec cs s))) = {}"
proof (induction cs arbitrary: s)
  case (Cons c cs)
  have "count s n + 1 < maximum" for n using spec [OF Cons.prems(4), of n] by simp
  then have st: "inv (snd (exec c s))" "unreadable (db (snd (exec c s))) = {}"
    "\<forall>n. count (snd (exec c s)) n \<le> count s n + 1"
    using step [OF Cons.prems(1,2), of c] Cons.prems(3) by simp_all
  have "\<forall>n. count (snd (exec c s)) n + length cs < maximum"
  proof
    fix n
    show "count (snd (exec c s)) n + length cs < maximum"
      using spec [OF st(3), of n] spec [OF Cons.prems(4), of n] by simp
  qed
  with Cons.IH [OF st(1,2)] Cons.prems(3) show ?case by (simp add: case_prod_unfold Let_def)
qed simp

end

text \<open>A specification each command refines, and the same for whole sessions.\<close>

locale session_refinement =
  fixes exec :: "'c \<Rightarrow> 's \<Rightarrow> 'r \<times> 's"
    and spec :: "'c \<Rightarrow> 'a \<Rightarrow> 'r \<times> 'a"
    and good :: "'c \<Rightarrow> bool"
    and rel :: "'s \<Rightarrow> 'a \<Rightarrow> bool"
  assumes step: "rel s a \<Longrightarrow> good c \<Longrightarrow>
      fst (exec c s) = fst (spec c a) \<and> rel (snd (exec c s)) (snd (spec c a))"
begin

lemma run_refines:
  "rel s a \<Longrightarrow> \<forall>c \<in> set cs. good c \<Longrightarrow>
     fst (run_session exec cs s) = fst (run_session spec cs a) \<and>
     rel (snd (run_session exec cs s)) (snd (run_session spec cs a))"
proof (induction cs arbitrary: s a)
  case (Cons c cs)
  have st: "fst (exec c s) = fst (spec c a)" "rel (snd (exec c s)) (snd (spec c a))"
    using step [OF Cons.prems(1), of c] Cons.prems(2) by simp_all
  from Cons.IH [OF st(2)] Cons.prems(2) st(1) show ?case by (simp add: case_prod_unfold Let_def)
qed simp

end

end
