(* ===== verification/T_hash.thy ===== *)
theory T_hash
  imports Containers
begin

text \<open>
  \<open>ssdb/ssdb/t_hash.cpp\<close>: the hashes. A member of a hash is one record of the database, and a
  second kind of record holds the number of members. The hashes are a family of maps with a
  counter; every operation keeps the counter right and has the effect its name says.
\<close>

section \<open>Operations\<close>

definition hget :: "ssdb \<Rightarrow> bytes \<Rightarrow> bytes \<Rightarrow> int \<times> bytes option" where
  "hget s name key =
     (let dbkey = encode_hash_key name key
      in case ldb_get (db s) dbkey of
           NotFound \<Rightarrow> (0, None)
         | GetError \<Rightarrow> (-1, None)
         | Found val \<Rightarrow> (1, Some val))"

definition hsize :: "ssdb \<Rightarrow> bytes \<Rightarrow> int" where
  "hsize s name =
     (let size_key = encode_hsize_key name
      in case ldb_get (db s) size_key of
           NotFound \<Rightarrow> 0
         | GetError \<Rightarrow> -1
         | Found val \<Rightarrow>
             if length val \<noteq> 8 then 0
             else let ret = sint (load64 val) in if ret < 0 then 0 else ret)"

text \<open>
  The counter is an \<open>int64_t\<close>; its sum is taken to wrap. Where \<open>hset_one\<close> compares the old
  value with the new one after a failed read, the old value is the empty string.
\<close>

definition incr_hsize :: "bytes \<Rightarrow> int \<Rightarrow> ssdb \<Rightarrow> int \<times> ssdb" where
  "incr_hsize name incr s =
     (let size = of_int (hsize s name) + of_int incr :: i64;
          size_key = encode_hsize_key name
      in if size = 0 then (0, bl_Delete size_key s) else (0, bl_Put size_key (mem64 size) s))"

definition hset_one :: "bytes \<Rightarrow> bytes \<Rightarrow> bytes \<Rightarrow> u8 \<Rightarrow> ssdb \<Rightarrow> int \<times> ssdb" where
  "hset_one name key val log_type s =
     (if name = [] \<or> key = [] then (-1, s)
      else if length name > SSDB_KEY_LEN_MAX then (-1, s)
      else if length key > SSDB_KEY_LEN_MAX then (-1, s)
      else let (found, v) = hget s name key; dbval = (case v of None \<Rightarrow> [] | Some x \<Rightarrow> x)
      in if found = 0
         then let hkey = encode_hash_key name key;
                  s = bl_Put hkey val s;
                  s = add_log log_type BC_HSET hkey s
              in (1, s)
         else if dbval \<noteq> val
         then let hkey = encode_hash_key name key;
                  s = bl_Put hkey val s;
                  s = add_log log_type BC_HSET hkey s
              in (0, s)
         else (0, s))"

definition hdel_one :: "bytes \<Rightarrow> bytes \<Rightarrow> u8 \<Rightarrow> ssdb \<Rightarrow> int \<times> ssdb" where
  "hdel_one name key log_type s =
     (if length name > SSDB_KEY_LEN_MAX then (-1, s)
      else if length key > SSDB_KEY_LEN_MAX then (-1, s)
      else if fst (hget s name key) = 0 then (0, s)
      else let hkey = encode_hash_key name key;
               s = bl_Delete hkey s;
               s = add_log log_type BC_HDEL hkey s
           in (1, s))"

definition hset :: "bytes \<Rightarrow> bytes \<Rightarrow> bytes \<Rightarrow> u8 \<Rightarrow> ssdb \<Rightarrow> int \<times> ssdb" where
  "hset name key val log_type s =
     transaction (\<lambda>s.
       let (ret, s) = hset_one name key val log_type s
       in if ret \<ge> 0
          then let (e, s) = (if ret > 0 then incr_hsize name ret s else (0, s))
               in if e = -1 then (-1, s) else commit_ret ret s
          else (ret, s)) s"

definition hdel :: "bytes \<Rightarrow> bytes \<Rightarrow> u8 \<Rightarrow> ssdb \<Rightarrow> int \<times> ssdb" where
  "hdel name key log_type s =
     transaction (\<lambda>s.
       let (ret, s) = hdel_one name key log_type s
       in if ret \<ge> 0
          then let (e, s) = (if ret > 0 then incr_hsize name (- ret) s else (0, s))
               in if e = -1 then (-1, s) else commit_ret ret s
          else (ret, s)) s"

definition hincr :: "bytes \<Rightarrow> bytes \<Rightarrow> i64 \<Rightarrow> u8 \<Rightarrow> ssdb \<Rightarrow> (int \<times> i64 option) \<times> ssdb" where
  "hincr name key by log_type s =
     transaction (\<lambda>s.
       let (ret, old) = hget s name key
       in if ret = -1 then ((-1, None), s)
          else let (new_val, err) =
                 (case old of
                    None \<Rightarrow> (by, False)
                  | Some o' \<Rightarrow> (let (v, e) = str_to_int64 o' in (v + by, e)))
          in if err then ((0, Some new_val), s)
          else let (ret, s) = hset_one name key (str_i64 new_val) log_type s
          in if ret = -1 then ((-1, Some new_val), s)
          else if ret \<ge> 0
          then let (e, s) = (if ret > 0 then incr_hsize name ret s else (0, s))
               in if e = -1 then ((-1, Some new_val), s)
                  else let (r, s) = commit_ret 1 s in ((r, Some new_val), s)
          else ((1, Some new_val), s)) s"

definition hscan :: "ssdb \<Rightarrow> bytes \<Rightarrow> bytes \<Rightarrow> bytes \<Rightarrow> u64 \<Rightarrow> hiter" where
  "hscan s name start end n =
     (let key_start = encode_hash_key name start;
          key_end = (if end \<noteq> [] then encode_hash_key name end else [])
      in hiter_new (ssdb_iterator s key_start key_end n) name)"

definition hrscan :: "ssdb \<Rightarrow> bytes \<Rightarrow> bytes \<Rightarrow> bytes \<Rightarrow> u64 \<Rightarrow> hiter" where
  "hrscan s name start end n =
     (let key_start = (if start = [] then encode_hash_key name start @ [255]
                       else encode_hash_key name start);
          key_end = (if end \<noteq> [] then encode_hash_key name end else [])
      in hiter_new (ssdb_rev_iterator s key_start key_end n) name)"

function get_hnames :: "iter \<Rightarrow> bytes list" where
  "get_hnames i =
     (case iter_next i of
        (False, j) \<Rightarrow> []
      | (True, j) \<Rightarrow>
          if key_type (iter_key j) \<noteq> DT_HSIZE then []
          else (case decode_hsize_key (iter_key j) of
                  None \<Rightarrow> get_hnames j
                | Some n \<Rightarrow> n # get_hnames j))"
  by pat_completeness auto
termination
  by (relation "measure (\<lambda>i. unat (limit i))") (auto dest: iter_next_limit [OF sym])

definition hlist :: "ssdb \<Rightarrow> bytes \<Rightarrow> bytes \<Rightarrow> u64 \<Rightarrow> bytes list" where
  "hlist s name_s name_e n =
     (let start = encode_hsize_key name_s;
          end = (if name_e \<noteq> [] then encode_hsize_key name_e else [])
      in get_hnames (ssdb_iterator s start end n))"

definition hrlist :: "ssdb \<Rightarrow> bytes \<Rightarrow> bytes \<Rightarrow> u64 \<Rightarrow> bytes list" where
  "hrlist s name_s name_e n =
     (let start = (if name_s = [] then encode_hsize_key name_s @ [255] else encode_hsize_key name_s);
          end = (if name_e \<noteq> [] then encode_hsize_key name_e else [])
      in get_hnames (ssdb_rev_iterator s start end n))"

declare get_hnames.simps [simp del]

subsection \<open>Clearing\<close>

lemma hiter_next_limit: "hiter_next h = (True, h') \<Longrightarrow> unat (limit (hit h')) < unat (limit (hit h))"
proof (induction h rule: hiter_next.induct)
  case (1 h)
  obtain b i where n: "iter_next (hit h) = (b, i)" by fastforce
  show ?case
  proof (cases "b \<and> key_type (iter_key i) = DT_HASH \<and> decode_hash_key (iter_key i) = None")
    case True
    with n "1.prems" have "hiter_next (h\<lparr>hit := i\<rparr>) = (True, h')"
      by (subst (asm) hiter_next.simps) simp
    moreover have "unat (limit i) < unat (limit (hit h))" using n True iter_next_limit by simp
    ultimately show ?thesis using "1.IH" n True by fastforce
  next
    case False
    with n "1.prems" show ?thesis
      by (subst (asm) hiter_next.simps)
        (auto dest: iter_next_limit split: option.splits if_splits bool.splits prod.splits)
  qed
qed

text \<open>The inner loop of \<open>hclear\<close>: \<open>False\<close> when a deletion fails.\<close>

function hclear_inner :: "bytes \<Rightarrow> hiter \<Rightarrow> nat \<Rightarrow> ssdb \<Rightarrow> (bool \<times> nat) \<times> ssdb" where
  "hclear_inner name h num s =
     (case hiter_next h of
        (False, h') \<Rightarrow> ((True, num), s)
      | (True, h') \<Rightarrow>
          (let (ret, s) = hdel name (hkey h') BT_SYNC s
           in if ret = -1 then ((False, num), s) else hclear_inner name h' (num + 1) s))"
  by pat_completeness auto
termination
  by (relation "measure (\<lambda>(_, h, _, _). unat (limit (hit h)))")
    (auto dest: hiter_next_limit [OF sym])

declare hclear_inner.simps [simp del]

text \<open>
  The outer loop ends when a scan yields nothing; with keys that \<open>hdel\<close> refuses or does not
  find it would not end, so it is a partial function.
\<close>

partial_function (option) hclear_loop :: "bytes \<Rightarrow> int \<Rightarrow> ssdb \<Rightarrow> (int \<times> ssdb) option" where
  "hclear_loop name count s =
     (let ((ok, num), s') = hclear_inner name (hscan s name [] [] 1000) 0 s
      in if \<not> ok then Some (0, s')
         else if num = 0 then Some (count, s')
         else hclear_loop name (count + int num) s')"

definition hclear :: "bytes \<Rightarrow> ssdb \<Rightarrow> (int \<times> ssdb) option" where
  "hclear name s = hclear_loop name 0 s"

section \<open>The maps of a hash\<close>

interpretation hash_family: counted_family encode_hash_key encode_hsize_key
  by unfold_locales (simp_all add: hash_key_inject)

interpretation hnames: name_lister get_hnames decode_hsize_key DT_HSIZE
proof
  show "get_hnames i =
      (case iter_next i of
         (False, i') \<Rightarrow> []
       | (True, i') \<Rightarrow>
           if key_type (iter_key i') \<noteq> DT_HSIZE then []
           else (case decode_hsize_key (iter_key i') of
                   None \<Rightarrow> get_hnames i' | Some n \<Rightarrow> n # get_hnames i'))" for i
    by (rule get_hnames.simps)
  show "decode_hsize_key (DT_HSIZE # n) = Some n" for n
    using hsize_key.dec_enc [of n] by (simp add: encode_hsize_key_def)
qed simp

text \<open>No hash has a name longer than 255 bytes.\<close>

definition hash_map :: "ssdb \<Rightarrow> bytes \<Rightarrow> bytes \<rightharpoonup> bytes" where
  "hash_map s n = (if length n \<le> 255 then members encode_hash_key (data s) n else Map.empty)"

definition hash_ok :: "ssdb \<Rightarrow> bool" where
  "hash_ok s \<longleftrightarrow> sizes_ok encode_hash_key encode_hsize_key (data s)"

definition hash_count :: "ssdb \<Rightarrow> bytes \<Rightarrow> nat" where
  "hash_count s n = card (dom (hash_map s n))"

definition hash_readable :: "ssdb \<Rightarrow> bytes \<Rightarrow> bytes \<Rightarrow> bool" where
  "hash_readable s n k \<longleftrightarrow>
     encode_hash_key n k \<notin> unreadable (db s) \<and> encode_hsize_key n \<notin> unreadable (db s)"

lemma hash_map_db: "db s' = db s \<Longrightarrow> hash_map s' = hash_map s"
  by (simp add: hash_map_def fun_eq_iff)

lemma hget_map:
  assumes "hash_readable s n k" "length n \<le> 255"
  shows "hget s n k = (case hash_map s n k of None \<Rightarrow> (0, None) | Some v \<Rightarrow> (1, Some v))"
  using assms
  by (simp add: hget_def hash_readable_def ldb_get_data hash_map_def members_def split: option.split)

lemma hsize_count:
  assumes "hash_ok s" "encode_hsize_key n \<notin> unreadable (db s)" "length n \<le> 255"
  shows "hsize s n = int (hash_count s n)"
proof -
  have "hsize s n = size_of_record (ldb_get (db s) (encode_hsize_key n))"
    by (simp add: hsize_def size_of_record_def Let_def)
  then show ?thesis
    using assms sizes_okD [of encode_hash_key encode_hsize_key "data s" n]
    by (simp add: ldb_get_data hash_ok_def hash_count_def hash_map_def)
qed

lemma hsize_db: "db s' = db s \<Longrightarrow> hsize s' n = hsize s n"
  by (simp add: hsize_def)

lemma hget_db: "db s' = db s \<Longrightarrow> hget s' n k = hget s n k"
  by (simp add: hget_def)

section \<open>Each operation as a transaction\<close>

definition hput_acts :: "bytes \<Rightarrow> bytes \<Rightarrow> bytes \<Rightarrow> act list" where
  "hput_acts n k v = [APut (encode_hash_key n k) v, ALog BC_HSET (encode_hash_key n k)]"

definition hrem_acts :: "bytes \<Rightarrow> bytes \<Rightarrow> act list" where
  "hrem_acts n k = [ADel (encode_hash_key n k), ALog BC_HDEL (encode_hash_key n k)]"

lemma incr_hsize_run:
  assumes "hash_ok s0" "encode_hsize_key n \<notin> unreadable (db s0)" "length n \<le> 255" "db s = db s0"
    and "int (hash_count s0 n) + d = int c" "c < 2 ^ 63"
  shows "incr_hsize n d s = (0, run_acts lt [size_act (encode_hsize_key n) c] s)"
proof -
  have h: "hsize s n = int (hash_count s0 n)"
    using hsize_count [OF assms(1-3)] hsize_db [OF assms(4)] by simp
  have "of_int (int (hash_count s0 n)) + of_int d = (of_nat c :: i64)"
    using assms(5) by (metis of_int_add of_int_of_nat_eq)
  then show ?thesis
    unfolding incr_hsize_def Let_def h by (rule run_size_act [OF _ assms(6)])
qed

lemma hset_one_run:
  assumes "member_ok n k" "hash_readable s0 n k" "db s = db s0"
  shows "hset_one n k v lt s =
    (case hash_map s0 n k of
       None \<Rightarrow> (1, run_acts lt (hput_acts n k v) s)
     | Some old \<Rightarrow> (0, run_acts lt (if old \<noteq> v then hput_acts n k v else []) s))"
  using assms hget_map [of s0 n k] hget_db [of s s0 n k]
  by (auto simp: hset_one_def member_ok_def hput_acts_def Let_def split: option.split)

lemma hdel_one_run:
  assumes "length n \<le> 255" "length k \<le> 255" "hash_readable s0 n k" "db s = db s0"
  shows "hdel_one n k lt s =
    (if hash_map s0 n k = None then (0, s) else (1, run_acts lt (hrem_acts n k) s))"
  using assms hget_map [of s0 n k] hget_db [of s s0 n k]
  by (auto simp: hdel_one_def hrem_acts_def Let_def split: option.split)

definition hset_acts :: "ssdb \<Rightarrow> bytes \<Rightarrow> bytes \<Rightarrow> bytes \<Rightarrow> act list" where
  "hset_acts s n k v =
     (case hash_map s n k of
        None \<Rightarrow> hput_acts n k v @ [size_act (encode_hsize_key n) (hash_count s n + 1)]
      | Some old \<Rightarrow> if old \<noteq> v then hput_acts n k v else [])"

definition hdel_acts :: "ssdb \<Rightarrow> bytes \<Rightarrow> bytes \<Rightarrow> act list" where
  "hdel_acts s n k =
     (case hash_map s n k of
        None \<Rightarrow> []
      | Some old \<Rightarrow> hrem_acts n k @ [size_act (encode_hsize_key n) (hash_count s n - 1)])"

text \<open>The part of \<open>hset\<close> and \<open>hincr\<close> before the commit: set the member, count it if it is new.\<close>

lemma hset_body:
  assumes "member_ok n k" "hash_readable s n k" "hash_ok s" "hash_count s n + 1 < 2 ^ 63"
  obtains ret s1 where "hset_one n k v lt (bl_begin s) = (ret, s1)"
    "ret = (if hash_map s n k = None then 1 else 0)"
    "(if ret > 0 then incr_hsize n ret s1 else (0, s1)) = (0, run_acts lt (hset_acts s n k v) (bl_begin s))"
proof -
  have n: "length n \<le> 255" "encode_hsize_key n \<notin> unreadable (db s)"
    using assms(1,2) by (simp_all add: member_ok_def hash_readable_def)
  have sz: "incr_hsize n 1 (run_acts lt as (bl_begin s)) =
      (0, run_acts lt [size_act (encode_hsize_key n) (hash_count s n + 1)] (run_acts lt as (bl_begin s)))" for as
    by (rule incr_hsize_run [OF assms(3) n(2,1)]) (use assms(4) in simp_all)
  have "hset_one n k v lt (bl_begin s) =
    (case hash_map s n k of
       None \<Rightarrow> (1, run_acts lt (hput_acts n k v) (bl_begin s))
     | Some old \<Rightarrow> (0, run_acts lt (if old \<noteq> v then hput_acts n k v else []) (bl_begin s)))"
    by (rule hset_one_run [OF assms(1,2)]) simp
  with that show thesis
    by (cases "hash_map s n k") (simp_all add: sz run_acts_append hset_acts_def)
qed

lemma hset_tran:
  assumes "member_ok n k" "hash_readable s n k" "hash_ok s" "hash_count s n + 1 < 2 ^ 63"
  shows "hset n k v lt s = act_tran lt (hset_acts s n k v) (if hash_map s n k = None then 1 else 0) s"
proof -
  obtain ret s1 where one: "hset_one n k v lt (bl_begin s) = (ret, s1)"
    "ret = (if hash_map s n k = None then 1 else 0)"
    "(if ret > 0 then incr_hsize n ret s1 else (0, s1)) = (0, run_acts lt (hset_acts s n k v) (bl_begin s))"
    using hset_body [OF assms] .
  show ?thesis
    using one by (cases "hash_map s n k") (simp_all add: hset_def act_tran_def transaction_def)
qed

lemma hincr_tran:
  assumes "length n \<le> 255" "hash_readable s n k" "hash_ok s" "hash_count s n + 1 < 2 ^ 63"
  shows "hincr n k by lt s =
    (let (v, err) = incr_value (hash_map s n k) by
     in if err then ((0, Some v), abandon s)
        else if \<not> member_ok n k then ((-1, Some v), abandon s)
        else let (r, s') = act_tran lt (hset_acts s n k (str_i64 v)) 1 s in ((r, Some v), s'))"
proof -
  obtain v err where v: "incr_value (hash_map s n k) by = (v, err)" by fastforce
  obtain r where get: "hget (bl_begin s) n k = (r, hash_map s n k)" "r \<noteq> -1"
    using hget_map [OF assms(2,1)] hget_db [of "bl_begin s" s n k] by (cases "hash_map s n k") simp_all
  have incr: "(case hash_map s n k of None \<Rightarrow> (by, False)
      | Some o' \<Rightarrow> (case str_to_int64 o' of (v, e) \<Rightarrow> (v + by, e))) = (v, err)"
    using v by (cases "hash_map s n k") (simp_all add: incr_value_def)
  show ?thesis
  proof (cases "member_ok n k")
    case False
    then have bad: "hset_one n k (str_i64 v) lt (bl_begin s) = (-1, bl_begin s)"
      by (auto simp: hset_one_def member_ok_def)
    show ?thesis
      unfolding hincr_def transaction_def get prod.case Let_def incr v
      using False get(2) bad by simp
  next
    case True
    obtain ret s1 where one: "hset_one n k (str_i64 v) lt (bl_begin s) = (ret, s1)"
      "ret = (if hash_map s n k = None then 1 else 0)"
      "(if ret > 0 then incr_hsize n ret s1 else (0, s1)) =
         (0, run_acts lt (hset_acts s n k (str_i64 v)) (bl_begin s))"
      using hset_body [OF True assms(2-4)] .
    show ?thesis
      unfolding hincr_def transaction_def get prod.case Let_def incr v act_tran_def
      using True get(2) one by (cases "hash_map s n k") (simp_all add: case_prod_unfold)
  qed
qed

lemma hdel_tran:
  assumes "length n \<le> 255" "length k \<le> 255" "hash_readable s n k" "hash_ok s"
  shows "hdel n k lt s = act_tran lt (hdel_acts s n k) (if hash_map s n k = None then 0 else 1) s"
proof (cases "hash_map s n k")
  case None
  then show ?thesis
    unfolding hdel_def act_tran_def transaction_def
    by (subst hdel_one_run [OF assms(1-3), of "bl_begin s"]) (simp_all add: hdel_acts_def)
next
  case (Some old)
  have m: "data s (encode_hash_key n k) \<noteq> None" "hash_count s n = card (dom (members encode_hash_key (data s) n))"
    using Some assms(1) by (simp_all add: hash_map_def members_def hash_count_def)
  have pos: "0 < hash_count s n" and lt: "hash_count s n < 2 ^ 63"
    using hash_family.sizes_ok_remove(2) [of "data s" n k] sizes_okD(2) [of encode_hash_key encode_hsize_key "data s" n]
      assms(1,4) m by (simp_all add: hash_ok_def)
  have "encode_hsize_key n \<notin> unreadable (db s)" using assms(3) by (simp add: hash_readable_def)
  then have sz: "incr_hsize n (-1) (run_acts lt as (bl_begin s)) =
      (0, run_acts lt [size_act (encode_hsize_key n) (hash_count s n - 1)] (run_acts lt as (bl_begin s)))" for as
    by (intro incr_hsize_run [OF assms(4) _ assms(1)]) (use pos lt in simp_all)
  show ?thesis
    unfolding hdel_def act_tran_def transaction_def
    by (subst hdel_one_run [OF assms(1-3), of "bl_begin s"]) (simp_all add: Some sz run_acts_append hdel_acts_def)
qed

section \<open>Effect on the maps\<close>

lemma hset_acts_data: "w \<in> set (acts_ops (hset_acts s n k v)) \<Longrightarrow> data_op w"
  by (auto simp: hset_acts_def hput_acts_def split: option.splits if_splits)

lemma hdel_acts_data: "w \<in> set (acts_ops (hdel_acts s n k)) \<Longrightarrow> data_op w"
  by (auto simp: hdel_acts_def hrem_acts_def split: option.splits if_splits)

lemma hash_map_upd:
  assumes "length n \<le> 255"
    "\<And>n'. length n' \<le> 255 \<Longrightarrow> members encode_hash_key (data s') n' =
       (if n' = n then (members encode_hash_key (data s) n)(k := v)
        else members encode_hash_key (data s) n')"
  shows "hash_map s' = (hash_map s)(n := (hash_map s n)(k := v))"
  using assms by (intro ext) (auto simp: hash_map_def)

lemma hset_acts_effect:
  assumes "hash_ok s" "length n \<le> 255" "hash_count s n + 1 < 2 ^ 63" "write_ok (db s)"
    and s'_def: "s' = snd (act_tran lt (hset_acts s n k v) r s)"
  shows "hash_map s' = (hash_map s)(n := (hash_map s n)(k \<mapsto> v))" "hash_ok s'"
proof -
  let ?m = "data s" and ?ik = encode_hash_key and ?sk = encode_hsize_key
  have ok: "sizes_ok ?ik ?sk ?m" and cnt: "hash_count s n = card (dom (members ?ik ?m n))"
    using assms(1,2) by (simp_all add: hash_ok_def hash_count_def hash_map_def)
  have d: "data s' = fold mstep (acts_ops (hset_acts s n k v)) ?m"
    unfolding s'_def using assms(4) hset_acts_data by (subst act_tran_data) auto
  have "hash_map s' = (hash_map s)(n := (hash_map s n)(k \<mapsto> v)) \<and> hash_ok s'"
  proof (cases "hash_map s n k")
    case None
    then have none: "?m (?ik n k) = None" using assms(2) by (simp add: hash_map_def members_def)
    have d': "data s' = ?m(?ik n k \<mapsto> v, ?sk n := size_record (card (dom (members ?ik ?m n)) + 1))"
      using None by (simp add: d hset_acts_def hput_acts_def cnt)
    have "hash_ok s'"
      unfolding hash_ok_def d'
      by (rule hash_family.sizes_ok_insert [OF ok assms(2) none]) (use assms(3) cnt in simp)
    moreover have "hash_map s' = (hash_map s)(n := (hash_map s n)(k \<mapsto> v))"
      by (rule hash_map_upd [OF assms(2)])
        (simp add: d' hash_family.members_size hash_family.members_item [OF assms(2)])
    ultimately show ?thesis by simp
  next
    case (Some old)
    then have some: "?m (?ik n k) = Some old" using assms(2) by (simp add: hash_map_def members_def)
    have d': "data s' = ?m(?ik n k \<mapsto> v)"
      using Some some by (auto simp: d hset_acts_def hput_acts_def)
    have "hash_ok s'"
      unfolding hash_ok_def d' by (rule hash_family.sizes_ok_update [OF ok assms(2)]) (simp add: some)
    moreover have "hash_map s' = (hash_map s)(n := (hash_map s n)(k \<mapsto> v))"
      by (rule hash_map_upd [OF assms(2)])
        (simp add: d' hash_family.members_item [OF assms(2)])
    ultimately show ?thesis by simp
  qed
  then show "hash_map s' = (hash_map s)(n := (hash_map s n)(k \<mapsto> v))" "hash_ok s'" by simp_all
qed

lemma hdel_acts_effect:
  assumes "hash_ok s" "length n \<le> 255" "write_ok (db s)"
    and s'_def: "s' = snd (act_tran lt (hdel_acts s n k) r s)"
  shows "hash_map s' = (hash_map s)(n := (hash_map s n)(k := None))" "hash_ok s'"
proof -
  let ?m = "data s" and ?ik = encode_hash_key and ?sk = encode_hsize_key
  have ok: "sizes_ok ?ik ?sk ?m" and cnt: "hash_count s n = card (dom (members ?ik ?m n))"
    using assms(1,2) by (simp_all add: hash_ok_def hash_count_def hash_map_def)
  have d: "data s' = fold mstep (acts_ops (hdel_acts s n k)) ?m"
    unfolding s'_def using assms(3) hdel_acts_data by (subst act_tran_data) auto
  have "hash_map s' = (hash_map s)(n := (hash_map s n)(k := None)) \<and> hash_ok s'"
  proof (cases "hash_map s n k")
    case None
    then have d': "data s' = ?m" by (simp add: d hdel_acts_def)
    have "hash_map s' = hash_map s" by (rule ext) (simp add: hash_map_def d')
    moreover have "hash_ok s'" using ok by (simp add: hash_ok_def d')
    moreover have "(hash_map s)(n := (hash_map s n)(k := None)) = hash_map s"
      using None by (auto simp: fun_eq_iff)
    ultimately show ?thesis by simp
  next
    case (Some old)
    then have some: "?m (?ik n k) \<noteq> None" using assms(2) by (simp add: hash_map_def members_def)
    have d': "data s' = ?m(?ik n k := None, ?sk n := size_record (card (dom (members ?ik ?m n)) - 1))"
      using Some by (simp add: d hdel_acts_def hrem_acts_def cnt)
    have "hash_ok s'"
      unfolding hash_ok_def d' by (rule hash_family.sizes_ok_remove(1) [OF ok assms(2) some])
    moreover have "hash_map s' = (hash_map s)(n := (hash_map s n)(k := None))"
      by (rule hash_map_upd [OF assms(2)])
        (simp add: d' hash_family.members_size hash_family.members_item [OF assms(2)])
    ultimately show ?thesis by simp
  qed
  then show "hash_map s' = (hash_map s)(n := (hash_map s n)(k := None))" "hash_ok s'" by simp_all
qed

text \<open>A transaction whose write fails leaves the hashes alone.\<close>

lemma hash_no_write:
  assumes "\<not> write_ok (db s)"
  shows "hash_map (snd (act_tran lt as r s)) = hash_map s"
    "hash_ok (snd (act_tran lt as r s)) = hash_ok s"
  using assms by (simp_all add: hash_map_def fun_eq_iff hash_ok_def act_tran_tbl)

lemma hash_abandon [simp]: "hash_map (abandon s) = hash_map s" "hash_ok (abandon s) = hash_ok s"
  by (simp_all add: hash_map_def fun_eq_iff hash_ok_def)

section \<open>The invariant\<close>

text \<open>
  The table is sorted, every hash record has a key its encoder makes from fields that fit, and
  the counters are right.
\<close>

definition hash_keys_ok :: "ssdb \<Rightarrow> bool" where
  "hash_keys_ok s \<longleftrightarrow>
     (\<forall>x v. data s x = Some v \<and> prefix [DT_HASH] x \<longrightarrow>
        (\<exists>n k. x = encode_hash_key n k \<and> member_ok n k))"

definition hash_inv :: "ssdb \<Rightarrow> bool" where
  "hash_inv s \<longleftrightarrow> sorted_keys (tbl (db s)) \<and> hash_ok s \<and> hash_keys_ok s"

lemma hash_keys_ok_ops:
  assumes "hash_keys_ok s" "\<And>w. w \<in> set (acts_ops as) \<Longrightarrow> data_op w"
    "\<And>x v. WPut x v \<in> set (acts_ops as) \<Longrightarrow> prefix [DT_HASH] x \<Longrightarrow>
       \<exists>n k. x = encode_hash_key n k \<and> member_ok n k"
  shows "hash_keys_ok (snd (act_tran lt as r s))"
proof -
  let ?P = "\<lambda>x. prefix [DT_HASH] x \<longrightarrow>
    (\<exists>n k. x = encode_hash_key n k \<and> member_ok n k)"
  have d: "data (snd (act_tran lt as r s)) =
      (if write_ok (db s) then fold mstep (acts_ops as) (data s) else data s)"
    using assms(2) by (intro act_tran_data) blast
  have "?P x" if "fold mstep (acts_ops as) (data s) x = Some v" for x v
    using that by (rule fold_mstep_keys [where P = ?P])
      (use assms(1,3) in \<open>auto simp: hash_keys_ok_def\<close>)
  with assms(1) show ?thesis
    unfolding hash_keys_ok_def d by (auto split: if_splits)
qed

lemma not_hash_size [simp]: "\<not> prefix [104] (encode_hsize_key n)"
  by (simp add: encode_hsize_key_def)

lemma hash_inv_set:
  assumes "hash_inv s" "member_ok n k" "hash_count s n + 1 < 2 ^ 63"
  shows "hash_inv (snd (act_tran lt (hset_acts s n k v) r s))"
proof -
  have n: "length n \<le> 255" "length k \<le> 255" using assms(2) by (simp_all add: member_ok_def)
  have "hash_keys_ok (snd (act_tran lt (hset_acts s n k v) r s))"
    using assms(1,2)
    by (intro hash_keys_ok_ops)
      (auto simp: hash_inv_def hset_acts_def hput_acts_def split: option.splits if_splits)
  then show ?thesis
    using assms hset_acts_effect(2) [OF _ n(1) assms(3)] hash_no_write
    by (cases "write_ok (db s)") (auto simp: hash_inv_def act_tran_sorted)
qed

lemma hash_inv_del:
  assumes "hash_inv s" "length n \<le> 255"
  shows "hash_inv (snd (act_tran lt (hdel_acts s n k) r s))"
proof -
  have "hash_keys_ok (snd (act_tran lt (hdel_acts s n k) r s))"
    using assms(1)
    by (intro hash_keys_ok_ops)
      (auto simp: hash_inv_def hdel_acts_def hrem_acts_def split: option.splits if_splits)
  then show ?thesis
    using assms hdel_acts_effect(2) [OF _ assms(2)] hash_no_write
    by (cases "write_ok (db s)") (auto simp: hash_inv_def act_tran_sorted)
qed

lemma hash_inv_abandon [simp]: "hash_inv (abandon s) = hash_inv s"
  by (simp add: hash_inv_def hash_keys_ok_def)

section \<open>Refinement\<close>

datatype hash_cmd =
    HGet bytes bytes | HSet bytes bytes bytes | HDel bytes bytes | HIncr bytes bytes i64 | HSize bytes

fun hash_cmd_key :: "hash_cmd \<Rightarrow> bytes \<times> bytes" where
  "hash_cmd_key (HGet n k) = (n, k)" | "hash_cmd_key (HSet n k v) = (n, k)"
| "hash_cmd_key (HDel n k) = (n, k)" | "hash_cmd_key (HIncr n k i) = (n, k)"
| "hash_cmd_key (HSize n) = (n, [])"

text \<open>The answer: the return code and the value handed back, if any.\<close>

fun hash_exec :: "u8 \<Rightarrow> hash_cmd \<Rightarrow> ssdb \<Rightarrow> (int \<times> bytes option) \<times> ssdb" where
  "hash_exec lt (HGet n k) s = (hget s n k, s)"
| "hash_exec lt (HSet n k v) s = (let (r, s') = hset n k v lt s in ((r, None), s'))"
| "hash_exec lt (HDel n k) s = (let (r, s') = hdel n k lt s in ((r, None), s'))"
| "hash_exec lt (HIncr n k i) s =
     (let ((r, v), s') = hincr n k i lt s in ((r, map_option str_i64 v), s'))"
| "hash_exec lt (HSize n) s = ((hsize s n, None), s)"

text \<open>The same over a family of maps.\<close>

fun hash_spec :: "bool \<Rightarrow> hash_cmd \<Rightarrow> (bytes \<Rightarrow> bytes \<rightharpoonup> bytes) \<Rightarrow>
    (int \<times> bytes option) \<times> (bytes \<Rightarrow> bytes \<rightharpoonup> bytes)" where
  "hash_spec w (HGet n k) H = (case H n k of None \<Rightarrow> ((0, None), H) | Some v \<Rightarrow> ((1, Some v), H))"
| "hash_spec w (HSet n k v) H =
     (if n = [] \<or> k = [] \<or> length k > 255 then ((-1, None), H)
      else spec_write w (if H n k = None then 1 else 0) None H (H(n := (H n)(k \<mapsto> v))))"
| "hash_spec w (HDel n k) H =
     (if length k > 255 then ((-1, None), H)
      else spec_write w (if H n k = None then 0 else 1) None H (H(n := (H n)(k := None))))"
| "hash_spec w (HIncr n k i) H =
     (let (v, err) = incr_value (H n k) i
      in if err then ((0, Some (str_i64 v)), H)
         else if n = [] \<or> k = [] \<or> length k > 255 then ((-1, Some (str_i64 v)), H)
         else spec_write w 1 (Some (str_i64 v)) H (H(n := (H n)(k \<mapsto> str_i64 v))))"
| "hash_spec w (HSize n) H = ((int (card (dom (H n))), None), H)"

lemma hset_bad: "\<not> member_ok n k \<Longrightarrow> length n \<le> 255 \<Longrightarrow> hset n k v lt s = (-1, abandon s)"
  by (auto simp: hset_def transaction_def hset_one_def member_ok_def)

lemma hdel_bad: "\<not> length k \<le> 255 \<Longrightarrow> hdel n k lt s = (-1, abandon s)"
  by (simp add: hdel_def transaction_def hdel_one_def)

lemma hash_exec_spec:
  assumes inv: "hash_inv s" and n: "hash_cmd_key c = (n, k)" "length n \<le> 255"
    and rd: "hash_readable s n k" and cnt: "hash_count s n + 1 < 2 ^ 63"
  shows "hash_spec (write_ok (db s)) c (hash_map s) =
      (fst (hash_exec lt c s), hash_map (snd (hash_exec lt c s)))"
    and "hash_inv (snd (hash_exec lt c s))"
proof -
  have ok: "hash_ok s" using inv by (simp add: hash_inv_def)
  note tran = hset_tran [OF _ rd ok cnt] hdel_tran [OF n(2) _ rd ok] hincr_tran [OF n(2) rd ok cnt]
  note eff = hset_acts_effect(1) [OF ok n(2) cnt _ refl] hdel_acts_effect(1) [OF ok n(2) _ refl]
    hash_no_write act_tran_result
  note simps = spec_write_def case_prod_unfold Let_def hset_bad hdel_bad
  have "hash_spec (write_ok (db s)) c (hash_map s) =
      (fst (hash_exec lt c s), hash_map (snd (hash_exec lt c s))) \<and> hash_inv (snd (hash_exec lt c s))"
  proof (cases c)
    case (HGet n' k')
    with n inv show ?thesis by (simp add: hget_map [OF rd n(2)] split: option.split)
  next
    case (HSet n' k' v)
    with n have c: "c = HSet n k v" by simp
    show ?thesis
    proof (cases "member_ok n k")
      case True
      then have "n \<noteq> [] \<and> k \<noteq> [] \<and> \<not> length k > 255" by (simp add: member_ok_def)
      with True show ?thesis
        by (cases "write_ok (db s)") (simp_all add: c tran eff simps hash_inv_set [OF inv True cnt])
    next
      case False
      then have "n = [] \<or> k = [] \<or> length k > 255" using n(2) by (auto simp: member_ok_def)
      with False n(2) inv show ?thesis by (simp add: c simps)
    qed
  next
    case (HDel n' k')
    with n have c: "c = HDel n k" by simp
    show ?thesis
      by (cases "write_ok (db s)"; cases "length k \<le> 255")
        (simp_all add: c tran eff simps hash_inv_del [OF inv n(2)] inv)
  next
    case (HIncr n' k' i)
    with n have c: "c = HIncr n k i" by simp
    show ?thesis
    proof (cases "member_ok n k")
      case True
      then have "n \<noteq> [] \<and> k \<noteq> [] \<and> \<not> length k > 255" by (simp add: member_ok_def)
      with True show ?thesis
        by (cases "write_ok (db s)") (simp_all add: c tran eff simps hash_inv_set [OF inv True cnt] inv)
    next
      case False
      then have "n = [] \<or> k = [] \<or> length k > 255" using n(2) by (auto simp: member_ok_def)
      with False inv show ?thesis by (auto simp: c tran simps)
    qed
  next
    case (HSize n')
    with n have c: "c = HSize n" by simp
    have "encode_hsize_key n \<notin> unreadable (db s)" using rd by (simp add: hash_readable_def)
    then show ?thesis using hsize_count [OF ok _ n(2)] inv by (simp add: c hash_count_def)
  qed
  then show "hash_spec (write_ok (db s)) c (hash_map s) =
      (fst (hash_exec lt c s), hash_map (snd (hash_exec lt c s)))"
    "hash_inv (snd (hash_exec lt c s))" by simp_all
qed

section \<open>Scans\<close>

text \<open>The members of one hash, in key order.\<close>

definition hash_entries :: "table \<Rightarrow> bytes \<Rightarrow> table" where
  "hash_entries t n = block_entries (encode_hash_key n []) t"

lemma encode_hash_app: "encode_hash_key n k = encode_hash_key n [] @ k"
  by (simp add: encode_hash_key_def)

lemma hash_entries_map:
  "length n \<le> 255 \<Longrightarrow> map_of (hash_entries (tbl (db s)) n) = hash_map s n"
proof
  fix k assume "length n \<le> 255"
  then show "map_of (hash_entries (tbl (db s)) n) k = hash_map s n k"
    using encode_hash_app [of n k] key_not_log(3) [of n k]
    by (simp add: hash_entries_def map_of_block_entries hash_map_def members_def data_map_def)
qed

lemma hash_entries_count:
  "sorted_keys (tbl (db s)) \<Longrightarrow> length n \<le> 255 \<Longrightarrow>
     length (hash_entries (tbl (db s)) n) = hash_count s n"
  using distinct_card [of "map fst (hash_entries (tbl (db s)) n)"] hash_entries_map [of n s]
  by (simp add: hash_count_def hash_entries_def sorted_block_entries sorted_keys_distinct
      dom_map_of_conv_image_fst flip: hash_entries_map)

lemma hash_key_prefix:
  assumes "length n \<le> 255" "length n' \<le> 255"
  shows "prefix (encode_hash_key n []) (encode_hash_key n' k) \<longleftrightarrow> n = n'"
proof -
  have "prefix (encode_hash_key n []) (encode_hash_key n' k) \<Longrightarrow>
      prefix (name_prefix DT_HASH n) (name_prefix DT_HASH n' @ [61] @ k)"
    by (auto simp: encode_hash_key_def name_prefix_def intro: append_prefixD)
  then show ?thesis
    using name_prefix_prefix [OF assms] encode_hash_app [of n' k] by auto
qed

text \<open>An iterator over one hash, when the block of the hash comes first in its range.\<close>

lemma hiter_pending:
  assumes keys: "hash_keys_ok s" and n: "length n \<le> 255"
    and up: "upcoming i = take c es" "set es \<subseteq> set (tbl (db s))" "sorted_keys (tbl (db s))"
    and blk: "takeWhile (\<lambda>e. prefix (encode_hash_key n []) (fst e)) (take c es) =
         take c (filter (\<lambda>e. prefix (encode_hash_key n []) (fst e)) es)"
  shows "hiter.pending (hiter_new i n) = take c (block_entries (encode_hash_key n []) es)"
proof -
  let ?P = "\<lambda>e :: bytes \<times> bytes. prefix (encode_hash_key n []) (fst e)"
  let ?v = "\<lambda>e :: bytes \<times> bytes. map_option (\<lambda>(n, key). (key, snd e)) (decode_hash_key (fst e))"
  have dec: "decode_hash_key (encode_hash_key n' k) = Some (n', k)" if "length n' \<le> 255" for n' k
    using hash_key.dec_enc [of "(n', k)"] that by simp
  have stop: "(\<not> hiter_stop n e) = ?P e" if "e \<in> set (take c es)" for e
  proof (cases "prefix [DT_HASH] (fst e)")
    case True
    have e: "e \<in> set (tbl (db s))" using that up(2) by (auto dest: in_set_takeD)
    have "\<not> is_log_key (fst e)" using True by (cases "fst e") auto
    with e have "data s (fst e) = Some (snd e)"
      using sorted_keys_map_of [OF up(3), of "fst e" "snd e"] by (simp add: data_map_def)
    with keys True obtain n' k where k: "fst e = encode_hash_key n' k" "length n' \<le> 255"
      unfolding hash_keys_ok_def member_ok_def by blast
    then show ?thesis
      using hash_key_prefix [OF n k(2), of k] key_type_prefix [of DT_HASH "fst e"] True dec [OF k(2), of k]
      by (auto simp: hiter_stop_def)
  next
    case False
    moreover have "?P e \<Longrightarrow> prefix [DT_HASH] (fst e)"
      by (cases "fst e") (auto simp: encode_hash_key_def)
    ultimately show ?thesis
      using key_type_prefix [of DT_HASH "fst e"] by (auto simp: hiter_stop_def)
  qed
  have "takeWhile (\<lambda>e. \<not> hiter_stop n e) (take c es) = takeWhile ?P (take c es)"
    by (rule takeWhile_cong [OF refl stop])
  moreover have "hit (hiter_new i n) = i" "hname (hiter_new i n) = n" by (simp_all add: hiter_new_def)
  ultimately have "hiter.pending (hiter_new i n) = List.map_filter ?v (take c (filter ?P es))"
    unfolding hiter.pending_def by (simp only: blk up(1))
  also have "\<dots> = map (\<lambda>e. (drop (length (encode_hash_key n [])) (fst e), snd e)) (take c (filter ?P es))"
  proof (rule map_filter_all, rule ballI)
    fix e assume "e \<in> set (take c (filter ?P es))"
    then have "?P e" by (auto dest: in_set_takeD)
    then obtain k where "fst e = encode_hash_key n [] @ k" by (auto simp: prefix_def)
    then show "?v e = Some (drop (length (encode_hash_key n [])) (fst e), snd e)"
      using dec [OF n, of k] encode_hash_app [of n k] by simp
  qed
  finally show ?thesis by (simp add: block_entries_def take_map)
qed

lemma hscan_pending:
  assumes "hash_inv s" "length name \<le> 255"
  shows "hiter.pending (hscan s name a b n) =
    take (unat n) (filter (\<lambda>e. a < fst e \<and> (b = [] \<or> fst e \<le> b)) (hash_entries (tbl (db s)) name))"
proof -
  have srt: "sorted_keys (tbl (db s))" and keys: "hash_keys_ok s"
    using assms(1) by (simp_all add: hash_inv_def)
  let ?p = "encode_hash_key name []"
  have le: "?p \<le> ?p @ a" by (simp add: prefix_le)
  have sub: "set (range_asc (tbl (db s)) x y) \<subseteq> set (tbl (db s))" for x y
    by (auto simp: range_asc_def)
  have e: "(if b \<noteq> [] then encode_hash_key name b else []) = (if b \<noteq> [] then ?p @ b else [])"
    using encode_hash_app [of name b] by simp
  show ?thesis
    unfolding hscan_def Let_def e encode_hash_app [of name a]
      hiter_pending [OF keys assms(2) upcoming_iterator(2) [OF srt] sub srt block_asc [OF srt le]]
      block_entries_asc hash_entries_def ..
qed

lemma hrscan_pending:
  assumes "hash_inv s" "length name \<le> 255"
  shows "hiter.pending (hrscan s name a b n) =
    take (unat n) (rev (filter (\<lambda>e. fst e < (if a = [] then [255] else a) \<and> b \<le> fst e)
      (hash_entries (tbl (db s)) name)))"
proof -
  have srt: "sorted_keys (tbl (db s))" and keys: "hash_keys_ok s"
    using assms(1) by (simp_all add: hash_inv_def)
  let ?p = "encode_hash_key name []" and ?a = "if a = [] then [255] else a"
  have below: "x < ?p @ ?a \<Longrightarrow> x < ?p \<or> prefix ?p x" for x by (erule below_prefix [rotated]) simp
  have block: "takeWhile (\<lambda>e. prefix ?p (fst e)) (take k (range_desc (tbl (db s)) (?p @ ?a) b)) =
      take k (filter (\<lambda>e. prefix ?p (fst e)) (range_desc (tbl (db s)) (?p @ ?a) b))" for k b
    by (rule block_desc [OF srt below])
  have sub: "set (range_desc (tbl (db s)) x y) \<subseteq> set (tbl (db s))" for x y
    by (auto simp: range_desc_def)
  have e: "(if b \<noteq> [] then encode_hash_key name b else []) = (if b \<noteq> [] then ?p @ b else [])"
    using encode_hash_app [of name b] by simp
  have st: "(if a = [] then encode_hash_key name a @ [255] else encode_hash_key name a) = ?p @ ?a"
    using encode_hash_app [of name a] by simp
  show ?thesis
    unfolding hrscan_def Let_def e st
      hiter_pending [OF keys assms(2) upcoming_rev_iterator(2) [OF srt] sub srt block]
      block_entries_desc hash_entries_def ..
qed

definition hiter_items :: "hiter \<Rightarrow> (bytes \<times> bytes) list" where
  "hiter_items h = drain (unat (limit (hit h))) hiter_next (\<lambda>h. (hkey h, hval h)) h"

lemma hscan_frame:
  assumes "sorted_keys (tbl (db s))"
  shows "hreturn_val (hscan s name a b n)" "iter_ok (hit (hscan s name a b n))"
    "hname (hscan s name a b n) = name"
    "hreturn_val (hrscan s name a b n)" "iter_ok (hit (hrscan s name a b n))"
  by (simp_all add: hscan_def hrscan_def hiter_new_def Let_def upcoming_iterator(1) [OF assms]
      upcoming_rev_iterator(1) [OF assms])

section \<open>Clearing a hash\<close>

lemma hash_readable_reliable [simp]: "reliable (db s) \<Longrightarrow> hash_readable s n k"
  by (simp add: reliable_def hash_readable_def)

lemma hdel_reliable:
  assumes "reliable (db s)" "hash_inv s" "length n \<le> 255" "length k \<le> 255"
  obtains r s' where "hdel n k lt s = (r, s')" "r \<noteq> -1" "reliable (db s')" "hash_inv s'"
    "hash_map s' = (hash_map s)(n := (hash_map s n)(k := None))"
proof -
  have ok: "hash_ok s" using assms(2) by (simp add: hash_inv_def)
  note t = hdel_tran [OF assms(3,4) hash_readable_reliable [OF assms(1)] ok, of lt]
  show thesis
  proof (rule that)
    show "hdel n k lt s = (fst (hdel n k lt s), snd (hdel n k lt s))" by simp
    show "fst (hdel n k lt s) \<noteq> -1" using assms(1) by (simp add: t act_tran_result)
    show "reliable (db (snd (hdel n k lt s)))" using assms(1) by (simp add: t)
    show "hash_inv (snd (hdel n k lt s))" unfolding t by (rule hash_inv_del [OF assms(2,3)])
    show "hash_map (snd (hdel n k lt s)) = (hash_map s)(n := (hash_map s n)(k := None))"
      unfolding t by (rule hdel_acts_effect(1) [OF ok assms(3) _ refl]) (simp add: assms(1))
  qed
qed

lemma hclear_inner_spec:
  assumes "hreturn_val h" "iter_ok (hit h)" "hiter.pending h = items"
    and "reliable (db s)" "hash_inv s" "length n \<le> 255" "\<forall>e \<in> set items. length (fst e) \<le> 255"
  shows "\<exists>s'. hclear_inner n h num s = ((True, num + length items), s') \<and> reliable (db s') \<and>
    hash_inv s' \<and> hash_map s' = (hash_map s)(n := (hash_map s n) |` (- fst ` set items))"
  using assms
proof (induction items arbitrary: h num s)
  case Nil
  then have "\<not> fst (hiter_next h)" by (intro hiter.nxt_Nil)
  then obtain h' where "hiter_next h = (False, h')" by (metis (full_types) prod.collapse)
  with Nil show ?case by (subst hclear_inner.simps) (simp add: restrict_map_def)
next
  case (Cons e items)
  obtain h' where h': "hiter_next h = (True, h')" "(hkey h', hval h') = e"
    "hiter.pending h' = items" "hreturn_val h'" "iter_ok (hit h')"
    using Cons.prems(1-3) by (rule hiter.nxt_Cons)
  have k: "length (hkey h') \<le> 255" using Cons.prems(7) h'(2) by auto
  obtain r s1 where d: "hdel n (hkey h') BT_SYNC s = (r, s1)" "r \<noteq> -1" "reliable (db s1)" "hash_inv s1"
    "hash_map s1 = (hash_map s)(n := (hash_map s n)(hkey h' := None))"
    using Cons.prems(4-6) k by (rule hdel_reliable)
  have "\<forall>e \<in> set items. length (fst e) \<le> 255" using Cons.prems(7) by simp
  from Cons.IH [OF h'(4,5,3) d(3,4) Cons.prems(6) this, of "num + 1"] obtain s' where IH:
    "hclear_inner n h' (num + 1) s1 = ((True, num + 1 + length items), s')" "reliable (db s')"
    "hash_inv s'" "hash_map s' = (hash_map s1)(n := (hash_map s1 n) |` (- fst ` set items))" by blast
  have "hclear_inner n h num s = ((True, num + length (e # items)), s')"
    using h'(1) d(1,2) IH(1) by (subst hclear_inner.simps) simp
  moreover have "hash_map s' = (hash_map s)(n := (hash_map s n) |` (- fst ` set (e # items)))"
    using IH(4) d(5) h'(2) by (auto simp: fun_eq_iff restrict_map_def)
  ultimately show ?case using IH(2,3) by blast
qed

lemma hash_entries_keys:
  assumes "hash_inv s" "length n \<le> 255" "e \<in> set (hash_entries (tbl (db s)) n)"
  shows "member_ok n (fst e)"
proof -
  have srt: "sorted_keys (tbl (db s))" using assms(1) by (simp add: hash_inv_def)
  have "(encode_hash_key n (fst e), snd e) \<in> set (tbl (db s))"
    using assms(3) encode_hash_app [of n "fst e"] block_entries_mem [of "fst e" "snd e"]
    by (simp add: hash_entries_def)
  then have "data s (encode_hash_key n (fst e)) = Some (snd e)"
    using sorted_keys_map_of [OF srt] by (simp add: data_map_def)
  moreover have "prefix [DT_HASH] (encode_hash_key n (fst e))" by (simp add: encode_hash_key_def)
  ultimately obtain n' k where "encode_hash_key n (fst e) = encode_hash_key n' k" "member_ok n' k"
    using assms(1) unfolding hash_inv_def hash_keys_ok_def by blast
  then show ?thesis using hash_key_inject [OF assms(2)] by (simp add: member_ok_def)
qed

lemma hclear_loop_spec:
  assumes "reliable (db s)" "hash_inv s" "length n \<le> 255"
  shows "\<exists>s'. hclear_loop n c s = Some (c + int (hash_count s n), s') \<and> reliable (db s') \<and>
    hash_inv s' \<and> hash_map s' = (hash_map s)(n := Map.empty)"
  using assms
proof (induction "hash_count s n" arbitrary: c s rule: less_induct)
  case less
  let ?es = "hash_entries (tbl (db s)) n" and ?h = "hscan s n [] [] 1000"
  have srt: "sorted_keys (tbl (db s))" using less.prems(2) by (simp add: hash_inv_def)
  define items where "items = take 1000 ?es"
  have keys: "member_ok n (fst e)" if "e \<in> set ?es" for e
    using that by (rule hash_entries_keys [OF less.prems(2,3)])
  then have "[] < fst e" if "e \<in> set ?es" for e
    using that by (cases "fst e") (auto simp: member_ok_def)
  then have "filter (\<lambda>e. [] < fst e) ?es = ?es"
    by (simp add: filter_id_conv)
  then have pend: "hiter.pending ?h = items"
    using hscan_pending [OF less.prems(2,3), of "[]" "[]" 1000] by (simp add: items_def)
  have "\<forall>e \<in> set items. length (fst e) \<le> 255"
    using keys by (metis member_ok_def in_set_takeD items_def)
  from hclear_inner_spec [OF hscan_frame(1,2) [OF srt] pend less.prems this, of 0]
  obtain s1 where s1: "hclear_inner n ?h 0 s = ((True, length items), s1)"
    "reliable (db s1)" "hash_inv s1"
    "hash_map s1 = (hash_map s)(n := (hash_map s n) |` (- fst ` set items))"
    by auto
  have len: "length ?es = hash_count s n" by (rule hash_entries_count [OF srt less.prems(3)])
  have dom: "dom (hash_map s n) = fst ` set ?es"
    using hash_entries_map [OF less.prems(3), of s] by (metis dom_map_of_conv_image_fst)
  have dist: "distinct (map fst ?es)"
    by (simp add: hash_entries_def sorted_block_entries srt sorted_keys_distinct)
  show ?case
  proof (cases "items = []")
    case True
    then have "?es = []" by (simp add: items_def)
    with True s1 len show ?thesis
      using hash_entries_map [OF less.prems(3), of s]
      by (subst hclear_loop.simps) (auto simp: restrict_map_def fun_eq_iff)
  next
    case False
    have count: "hash_count s1 n = hash_count s n - length items"
    proof -
      have "dom (hash_map s1 n) = fst ` set ?es - fst ` set items"
        using s1(4) dom by auto
      moreover have "fst ` set items \<subseteq> fst ` set ?es" by (auto simp: items_def dest: in_set_takeD)
      moreover have "card (fst ` set items) = length items"
      proof -
        have "fst ` set items = set (take 1000 (map fst ?es))" by (simp add: items_def take_map)
        then show ?thesis using distinct_card [OF distinct_take [OF dist, of 1000]] by (simp add: items_def)
      qed
      moreover have "card (fst ` set ?es) = hash_count s n"
        using distinct_card [OF dist] len by simp
      ultimately show ?thesis by (simp add: hash_count_def card_Diff_subset)
    qed
    have le: "length items \<le> hash_count s n" "0 < length items" using False by (simp_all add: items_def flip: len)
    then have "hash_count s1 n < hash_count s n" using count by linarith
    from less.hyps [OF this s1(2,3) less.prems(3), of "c + int (length items)"] obtain s' where s':
      "hclear_loop n (c + int (length items)) s1 = Some (c + int (length items) + int (hash_count s1 n), s')"
      "reliable (db s')" "hash_inv s'" "hash_map s' = (hash_map s1)(n := Map.empty)" by blast
    have "hclear_loop n c s = Some (c + int (hash_count s n), s')"
      using s1(1) s'(1) False le count by (subst hclear_loop.simps) simp
    moreover have "hash_map s' = (hash_map s)(n := Map.empty)"
      using s'(4) s1(4) by auto
    ultimately show ?thesis using s'(2,3) by blast
  qed
qed

section \<open>Examples\<close>

lemma hash_inv_empty [simp]: "hash_inv empty_ssdb"
  by (simp add: hash_inv_def hash_ok_def sizes_ok_def members_def data_map_def hash_keys_ok_def)

lemma hash_map_empty [simp]: "hash_map empty_ssdb n = Map.empty"
  by (auto simp: hash_map_def members_def data_map_def)

definition one_hash :: ssdb where
  "one_hash = snd (hset [1] [2] [3] BT_SYNC empty_ssdb)"

lemma one_hash_tran:
  "one_hash = snd (act_tran BT_SYNC (hset_acts empty_ssdb [1] [2] [3]) 1 empty_ssdb)"
  using hset_tran [of "[1]" "[2]" empty_ssdb "[3]" BT_SYNC]
  by (simp add: one_hash_def member_ok_def hash_inv_empty [unfolded hash_inv_def] hash_count_def)

lemma one_hash_tbl:
  "tbl (db one_hash) = [(encode_seq_key 1, binlog_new 1 1 3 (encode_hash_key [1] [2])),
     (encode_hsize_key [1], mem64 1), (encode_hash_key [1] [2], [3])]"
  by (simp add: one_hash_tran act_tran_tbl hset_acts_def hput_acts_def size_act_def size_record_def
      bl_Put_def add_log_def bl_begin_def tbatch_def tput_def hash_count_def Let_def
      encode_hsize_key_def encode_hash_key_def encode_seq_key_def)

lemma one_hash_inv [simp]: "hash_inv one_hash"
  unfolding one_hash_tran
  by (rule hash_inv_set) (simp_all add: member_ok_def hash_count_def)

lemma one_hash_reliable [simp]: "reliable (db one_hash)"
  by (simp add: one_hash_tran)

lemma one_hash_map: "hash_map one_hash [1] = [[2] \<mapsto> [3]]"
  using hash_entries_map [of "[1]" one_hash]
  by (simp add: hash_entries_def one_hash_tbl encode_hash_key_def encode_hsize_key_def encode_seq_key_def)

section \<open>Correctness\<close>

text \<open>
  every command on hashes answers and changes the family of maps as the specification says,
  and keeps the invariant: the counter of each hash is its number of members.
\<close>

theorem hash_exec_refines:
  assumes "hash_inv s" "length (fst (hash_cmd_key c)) \<le> 255"
    and "hash_readable s (fst (hash_cmd_key c)) (snd (hash_cmd_key c))"
    and "hash_count s (fst (hash_cmd_key c)) + 1 < 2 ^ 63"
  shows "(fst (hash_exec lt c s), hash_map (snd (hash_exec lt c s))) =
      hash_spec (write_ok (db s)) c (hash_map s) \<and>
    hash_inv (snd (hash_exec lt c s))"
  using hash_exec_spec [OF assms(1) _ assms(2-4), of c lt] by simp

lemma hash_exec_refines_witness:
  "fst (hash_exec BT_SYNC (HSet [1] [2] [3]) empty_ssdb) = (1, None) \<and>
   hash_map (snd (hash_exec BT_SYNC (HSet [1] [2] [3]) empty_ssdb)) [1] = [[2] \<mapsto> [3]]"
proof -
  have "hash_inv empty_ssdb" "length (fst (hash_cmd_key (HSet [1] [2] [3]))) \<le> 255"
    "hash_readable empty_ssdb (fst (hash_cmd_key (HSet [1] [2] [3]))) (snd (hash_cmd_key (HSet [1] [2] [3])))"
    "hash_count empty_ssdb (fst (hash_cmd_key (HSet [1] [2] [3]))) + 1 < 2 ^ 63"
    by (simp_all add: hash_count_def)
  from hash_exec_refines [OF this, of BT_SYNC] show ?thesis by (simp add: spec_write_def)
qed

text \<open>A session on a storage that does not fail.\<close>

abbreviation hash_run :: "u8 \<Rightarrow> hash_cmd list \<Rightarrow> ssdb \<Rightarrow> (int \<times> bytes option) list \<times> ssdb" where
  "hash_run lt \<equiv> run_session (hash_exec lt)"

lemma hash_exec_unreadable:
  assumes "hash_inv s" "length (fst (hash_cmd_key c)) \<le> 255"
    "hash_readable s (fst (hash_cmd_key c)) (snd (hash_cmd_key c))"
    "hash_count s (fst (hash_cmd_key c)) + 1 < 2 ^ 63"
  shows "unreadable (db (snd (hash_exec lt c s))) = unreadable (db s)"
proof -
  obtain n k where c: "hash_cmd_key c = (n, k)" by fastforce
  have ok: "hash_ok s" using assms(1) by (simp add: hash_inv_def)
  have n: "length n \<le> 255" "hash_count s n + 1 < 2 ^ 63" using assms(2,4) c by simp_all
  have rd: "hash_readable s n k" using assms(3) c by simp
  note tran = hset_tran [OF _ rd ok n(2)] hdel_tran [OF n(1) _ rd ok] hincr_tran [OF n(1) rd ok n(2)]
  show ?thesis
    using c n
    by (cases c; cases "member_ok n k"; cases "length k \<le> 255")
      (simp_all add: tran hset_bad hdel_bad case_prod_unfold Let_def)
qed

lemma hash_exec_reliable:
  assumes "reliable (db s)" "hash_inv s" "length (fst (hash_cmd_key c)) \<le> 255"
    "hash_count s (fst (hash_cmd_key c)) + 1 < 2 ^ 63"
  shows "reliable (db (snd (hash_exec lt c s)))"
proof -
  obtain n k where c: "hash_cmd_key c = (n, k)" by fastforce
  have ok: "hash_ok s" using assms(2) by (simp add: hash_inv_def)
  have n: "length n \<le> 255" "hash_count s n + 1 < 2 ^ 63" using assms(3,4) c by simp_all
  note rd = hash_readable_reliable [OF assms(1), of n k]
  note tran = hset_tran [OF _ rd ok n(2)] hdel_tran [OF n(1) _ rd ok] hincr_tran [OF n(1) rd ok n(2)]
  show ?thesis
    using assms(1) c n
    by (cases c; cases "member_ok n k"; cases "length k \<le> 255")
      (simp_all add: tran hset_bad hdel_bad case_prod_unfold Let_def)
qed

lemma hash_count_exec:
  assumes "hash_inv s" "length (fst (hash_cmd_key c)) \<le> 255"
    "hash_readable s (fst (hash_cmd_key c)) (snd (hash_cmd_key c))"
    "hash_count s (fst (hash_cmd_key c)) + 1 < 2 ^ 63"
  shows "hash_count (snd (hash_exec lt c s)) n \<le> hash_count s n + 1"
proof -
  have fin: "finite (dom (hash_map s m))" for m
    using assms(1) by (auto simp: hash_map_def hash_inv_def hash_ok_def sizes_ok_def)
  have H: "hash_map (snd (hash_exec lt c s)) = snd (hash_spec (write_ok (db s)) c (hash_map s))"
    using hash_exec_spec(1) [OF assms(1) _ assms(2-4), of c lt] by simp
  have "\<exists>k. dom (hash_map (snd (hash_exec lt c s)) n) \<subseteq> insert k (dom (hash_map s n))"
    unfolding H
    by (cases c) (auto simp: spec_write_def case_prod_unfold Let_def split: option.splits if_splits)
  then obtain k where "dom (hash_map (snd (hash_exec lt c s)) n) \<subseteq> insert k (dom (hash_map s n))" ..
  then have "card (dom (hash_map (snd (hash_exec lt c s)) n)) \<le> card (insert k (dom (hash_map s n)))"
    using fin by (intro card_mono) auto
  also have "\<dots> \<le> card (dom (hash_map s n)) + 1" using fin [of n] by (simp add: card_insert_if)
  finally show ?thesis by (simp add: hash_count_def)
qed

interpretation hash_session: counted_session "hash_exec lt" "\<lambda>c. length (fst (hash_cmd_key c)) \<le> 255"
    hash_inv hash_count "2 ^ 63" for lt
proof
  fix s c
  assume s: "hash_inv s" "unreadable (db s) = {}" and c: "length (fst (hash_cmd_key c)) \<le> 255"
    and "\<forall>n. hash_count s n + 1 < 2 ^ 63"
  then have cnt: "hash_count s (fst (hash_cmd_key c)) + 1 < 2 ^ 63" by blast
  have rd: "hash_readable s n k" for n k using s(2) by (simp add: hash_readable_def)
  show "hash_inv (snd (hash_exec lt c s)) \<and> unreadable (db (snd (hash_exec lt c s))) = {} \<and>
      (\<forall>n. hash_count (snd (hash_exec lt c s)) n \<le> hash_count s n + 1)"
    using hash_exec_spec(2) [OF s(1) surjective_pairing c rd cnt, of lt]
      hash_exec_unreadable [OF s(1) c rd cnt, of lt] s(2) hash_count_exec [OF s(1) c rd cnt, of lt] by simp
qed

text \<open>
  What a failed read does: \<open>hset_one\<close> takes the member for an old one with the empty value, stores it
  and answers 0, so that \<open>hset\<close> does not count it.
\<close>

lemma failed_read_uncounted:
  assumes "member_ok n k" "encode_hash_key n k \<in> unreadable (db s)" "v \<noteq> []" "write_ok (db s)"
  shows "data (snd (hset n k v lt s)) (encode_hash_key n k) = Some v"
    "encode_hsize_key n \<notin> unreadable (db s) \<Longrightarrow> hsize (snd (hset n k v lt s)) n = hsize s n"
proof -
  have "hset n k v lt s = act_tran lt (hput_acts n k v) 0 s"
    using assms(1-3)
    by (simp add: hset_def hset_one_def hget_def ldb_get_def bl_begin_def act_tran_def transaction_def
        hput_acts_def member_ok_def Let_def)
  then have d: "data (snd (hset n k v lt s)) = (data s)(encode_hash_key n k \<mapsto> v)"
    and u: "unreadable (db (snd (hset n k v lt s))) = unreadable (db s)"
    using assms(4) by (simp_all add: act_tran_data hput_acts_def data_op_def)
  show "data (snd (hset n k v lt s)) (encode_hash_key n k) = Some v" by (simp add: d)
  show "encode_hsize_key n \<notin> unreadable (db s) \<Longrightarrow> hsize (snd (hset n k v lt s)) n = hsize s n"
    by (simp add: hsize_def ldb_get_data u d)
qed

text \<open>
  C10: after any session of commands on a database that starts in order, and whichever of their writes
  fail, the counter record of every hash still equals the number of its members, and the number
  \<open>hsize\<close> answers is that. Reads must not fail (after a failed one \<open>hset\<close> stores a new member without
  counting it, lemma \<open>failed_read_uncounted\<close>), names have at most 255 bytes, and the counters have
  room for the session.
\<close>

theorem hsize_counts_members:
  assumes "hash_inv s" "unreadable (db s) = {}"
    and "\<forall>c \<in> set cs. length (fst (hash_cmd_key c)) \<le> 255"
    and "\<forall>n. hash_count s n + length cs < 2 ^ 63" "length n \<le> 255"
  shows "hsize (snd (hash_run lt cs s)) n = int (card (dom (hash_map (snd (hash_run lt cs s)) n)))"
proof -
  have "hash_inv (snd (hash_run lt cs s)) \<and> unreadable (db (snd (hash_run lt cs s))) = {}"
    by (rule hash_session.run_keeps [OF assms(1-4)])
  then show ?thesis
    using hsize_count [of "snd (hash_run lt cs s)" n] assms(5)
    by (simp add: hash_inv_def hash_count_def)
qed

lemma hsize_counts_members_witness:
  "hsize (snd (hash_run BT_SYNC [HSet [1] [2] [3], HSet [1] [2] [4], HSet [1] [5] []] empty_ssdb)) [1] =
   int (card (dom (hash_map (snd (hash_run BT_SYNC
     [HSet [1] [2] [3], HSet [1] [2] [4], HSet [1] [5] []] empty_ssdb)) [1])))"
proof (rule hsize_counts_members)
  show "\<forall>n. hash_count empty_ssdb n + length [HSet [1] [2] [3], HSet [1] [2] [4], HSet [1] [5] []] < 2 ^ 63"
    by (simp add: hash_count_def)
qed simp_all

text \<open>
  C21: \<open>hclear\<close> on a database whose hashes are in order and whose storage does not fail returns,
  answers the number of members the hash had, empties it and leaves all other hashes as they were.
  The name has at most 255 bytes.
\<close>

theorem hclear_empties:
  assumes "hash_inv s" "reliable (db s)" "length n \<le> 255"
  shows "\<exists>s'. hclear n s = Some (int (card (dom (hash_map s n))), s') \<and>
    hash_map s' = (hash_map s)(n := Map.empty) \<and> hash_inv s'"
  using hclear_loop_spec [OF assms(2,1,3), of 0] by (auto simp: hclear_def hash_count_def)

lemma hclear_empties_witness: "\<exists>s'. hclear [1] one_hash = Some (1, s')"
proof -
  have "hash_inv one_hash" "reliable (db one_hash)" "length [1 :: u8] \<le> 255" by simp_all
  from hclear_empties [OF this] show ?thesis by (auto simp: one_hash_map)
qed

text \<open>
  \<open>hscan\<close> yields the first \<open>limit\<close> members of the hash with a key after \<open>start\<close> up to \<open>end\<close>,
  in key order, and no member of another hash.
\<close>

theorem hscan_items:
  assumes "hash_inv s" "length name \<le> 255"
  shows "hiter_items (hscan s name a b n) =
    take (unat n) (filter (\<lambda>e. a < fst e \<and> (b = [] \<or> fst e \<le> b)) (hash_entries (tbl (db s)) name))"
proof -
  have srt: "sorted_keys (tbl (db s))" using assms(1) by (simp add: hash_inv_def)
  have "hiter_items (hscan s name a b n) = hiter.pending (hscan s name a b n)"
    unfolding hiter_items_def by (rule hiter.drain_all [OF hscan_frame(1,2) [OF srt]])
  also note hscan_pending [OF assms]
  finally show ?thesis .
qed

lemma hrscan_items:
  assumes "hash_inv s" "length name \<le> 255"
  shows "hiter_items (hrscan s name a b n) =
    take (unat n) (rev (filter (\<lambda>e. fst e < (if a = [] then [255] else a) \<and> b \<le> fst e)
      (hash_entries (tbl (db s)) name)))"
proof -
  have srt: "sorted_keys (tbl (db s))" using assms(1) by (simp add: hash_inv_def)
  have "hiter_items (hrscan s name a b n) = hiter.pending (hrscan s name a b n)"
    unfolding hiter_items_def by (rule hiter.drain_all [OF hscan_frame(4,5) [OF srt]])
  also note hrscan_pending [OF assms]
  finally show ?thesis .
qed

lemma hscan_items_witness: "hiter_items (hscan one_hash [1] [] [] 10) = [([2], [3])]"
proof -
  have "hash_inv one_hash" "length [1 :: u8] \<le> 255" by simp_all
  from hscan_items [OF this, of "[]" "[]" 10] show ?thesis
    by (simp add: hash_entries_def one_hash_tbl encode_hash_key_def encode_hsize_key_def encode_seq_key_def)
qed

text \<open>
  \<open>hlist\<close> lists, in order, the names after \<open>name_s\<close> up to \<open>name_e\<close> that have a size record,
  and those are the names of the hashes that have a member.
\<close>

theorem hlist_names:
  assumes "hash_inv s"
  shows "hlist s a b n =
      take (unat n) (filter (\<lambda>x. a < x \<and> (b = [] \<or> x \<le> b)) (names_of DT_HSIZE (tbl (db s)))) \<and>
    (\<forall>x. length x \<le> 255 \<longrightarrow>
       x \<in> set (names_of DT_HSIZE (tbl (db s))) \<longleftrightarrow> hash_map s x \<noteq> Map.empty)"
proof
  have srt: "sorted_keys (tbl (db s))" using assms by (simp add: hash_inv_def)
  have app: "encode_hsize_key x = [DT_HSIZE] @ x" for x by (simp add: encode_hsize_key_def)
  show "hlist s a b n =
      take (unat n) (filter (\<lambda>x. a < x \<and> (b = [] \<or> x \<le> b)) (names_of DT_HSIZE (tbl (db s))))"
    unfolding hlist_def Let_def app by (rule hnames.names_asc [OF srt])
  have "x \<in> set (names_of DT_HSIZE (tbl (db s))) \<longleftrightarrow> hash_map s x \<noteq> Map.empty"
    if x: "length x \<le> 255" for x
  proof -
    have "x \<in> set (names_of DT_HSIZE (tbl (db s))) \<longleftrightarrow> data s (encode_hsize_key x) \<noteq> None"
      by (simp add: names_of_def domIff dom_map_of_conv_image_fst [symmetric] map_of_block_entries
          data_map_def app)
    also have "\<dots> \<longleftrightarrow> card (dom (hash_map s x)) \<noteq> 0"
      using sizes_okD(3) [of encode_hash_key encode_hsize_key "data s" x] assms x
      by (simp add: hash_inv_def hash_ok_def hash_map_def size_record_def)
    also have "\<dots> \<longleftrightarrow> hash_map s x \<noteq> Map.empty"
      using sizes_okD(1) [of encode_hash_key encode_hsize_key "data s" x] assms x
      by (simp add: hash_inv_def hash_ok_def hash_map_def)
    finally show ?thesis .
  qed
  then show "\<forall>x. length x \<le> 255 \<longrightarrow>
      x \<in> set (names_of DT_HSIZE (tbl (db s))) \<longleftrightarrow> hash_map s x \<noteq> Map.empty" by blast
qed

lemma hlist_names_witness: "hlist one_hash [] [] 10 = [[1]]"
proof -
  have "hash_inv one_hash" by simp
  from hlist_names [OF this, of "[]" "[]" 10] show ?thesis
    by (simp add: names_of_def one_hash_tbl encode_hash_key_def encode_hsize_key_def encode_seq_key_def)
qed

end
