(* ===== verification/T_zset.thy ===== *)
theory T_zset
  imports Containers
begin

text \<open>
  \<open>ssdb/ssdb/t_zset.cpp\<close>: the sorted sets (scans and ranks follow in \<open>T_zset_Order\<close>). A member has two records, one from its key to its
  score and one whose key contains the score, so that the order of the database is the order of
  the set; a third kind of record counts the members of each set. The theory relates the
  operations to a family of maps from keys to scores and shows that the two kinds of record
  always agree.
\<close>

section \<open>Operations\<close>

definition SSDB_SCORE_MIN :: bytes where
  "SSDB_SCORE_MIN = lit ''-9223372036854775808''"

definition SSDB_SCORE_MAX :: bytes where
  "SSDB_SCORE_MAX = lit ''+9223372036854775807''"

definition zget :: "ssdb \<Rightarrow> bytes \<Rightarrow> bytes \<Rightarrow> int \<times> bytes option" where
  "zget s name key =
     (let buf = encode_zset_key name key
      in case ldb_get (db s) buf of
           NotFound \<Rightarrow> (0, None)
         | GetError \<Rightarrow> (-1, None)
         | Found val \<Rightarrow> (1, Some val))"

definition zsize :: "ssdb \<Rightarrow> bytes \<Rightarrow> int" where
  "zsize s name =
     (let size_key = encode_zsize_key name
      in case ldb_get (db s) size_key of
           NotFound \<Rightarrow> 0
         | GetError \<Rightarrow> -1
         | Found val \<Rightarrow>
             if length val \<noteq> 8 then 0
             else let ret = sint (load64 val) in if ret < 0 then 0 else ret)"

definition filter_score :: "bytes \<Rightarrow> bytes" where
  "filter_score score = str_i64 (bytes_Int64 score)"

definition incr_zsize :: "bytes \<Rightarrow> int \<Rightarrow> ssdb \<Rightarrow> int \<times> ssdb" where
  "incr_zsize name incr s =
     (let size = of_int (zsize s name) + of_int incr :: i64;
          size_key = encode_zsize_key name
      in if size = 0 then (0, bl_Delete size_key s) else (0, bl_Put size_key (mem64 size) s))"

text \<open>
  \<open>found\<close> is -1 after a failed read: then the old score is the empty string, and the code goes
  on as if the member had been found.
\<close>

definition zset_one :: "bytes \<Rightarrow> bytes \<Rightarrow> bytes \<Rightarrow> u8 \<Rightarrow> ssdb \<Rightarrow> int \<times> ssdb" where
  "zset_one name key score log_type s =
     (if name = [] \<or> key = [] then (0, s)
      else if length name > SSDB_KEY_LEN_MAX then (-1, s)
      else if length key > SSDB_KEY_LEN_MAX then (-1, s)
      else let new_score = filter_score score;
               (found, v) = zget s name key;
               old_score = (case v of None \<Rightarrow> [] | Some x \<Rightarrow> x)
      in if found = 0 \<or> old_score \<noteq> new_score
         then let s = (if found \<noteq> 0 then bl_Delete (encode_zscore_key name key old_score) s else s);
                  k2 = encode_zscore_key name key new_score;
                  s = bl_Put k2 [] s;
                  k0 = encode_zset_key name key;
                  s = bl_Put k0 new_score s;
                  s = add_log log_type BC_ZSET k0 s
              in (if found \<noteq> 0 then 0 else 1, s)
         else (0, s))"

definition zdel_one :: "bytes \<Rightarrow> bytes \<Rightarrow> u8 \<Rightarrow> ssdb \<Rightarrow> int \<times> ssdb" where
  "zdel_one name key log_type s =
     (if length name > SSDB_KEY_LEN_MAX then (-1, s)
      else if length key > SSDB_KEY_LEN_MAX then (-1, s)
      else let (found, v) = zget s name key;
               old_score = (case v of None \<Rightarrow> [] | Some x \<Rightarrow> x)
      in if found \<noteq> 1 then (0, s)
         else let k1 = encode_zscore_key name key old_score;
                  s = bl_Delete k1 s;
                  k0 = encode_zset_key name key;
                  s = bl_Delete k0 s;
                  s = add_log log_type BC_ZDEL k0 s
              in (1, s))"

definition zset :: "bytes \<Rightarrow> bytes \<Rightarrow> bytes \<Rightarrow> u8 \<Rightarrow> ssdb \<Rightarrow> int \<times> ssdb" where
  "zset name key score log_type s =
     transaction (\<lambda>s.
       let (ret, s) = zset_one name key score log_type s
       in if ret \<ge> 0
          then let (e, s) = (if ret > 0 then incr_zsize name ret s else (0, s))
               in if e = -1 then (-1, s) else commit_ret ret s
          else (ret, s)) s"

definition zdel :: "bytes \<Rightarrow> bytes \<Rightarrow> u8 \<Rightarrow> ssdb \<Rightarrow> int \<times> ssdb" where
  "zdel name key log_type s =
     transaction (\<lambda>s.
       let (ret, s) = zdel_one name key log_type s
       in if ret \<ge> 0
          then let (e, s) = (if ret > 0 then incr_zsize name (- ret) s else (0, s))
               in if e = -1 then (-1, s) else commit_ret ret s
          else (ret, s)) s"

definition zincr :: "bytes \<Rightarrow> bytes \<Rightarrow> i64 \<Rightarrow> u8 \<Rightarrow> ssdb \<Rightarrow> (int \<times> i64 option) \<times> ssdb" where
  "zincr name key by log_type s =
     transaction (\<lambda>s.
       let (ret, old) = zget s name key
       in if ret = -1 then ((-1, None), s)
          else let new_val = (case old of None \<Rightarrow> by | Some o' \<Rightarrow> fst (str_to_int64 o') + by);
                   (ret, s) = zset_one name key (str_i64 new_val) log_type s
          in if ret = -1 then ((-1, Some new_val), s)
          else if ret \<ge> 0
          then let (e, s) = (if ret > 0 then incr_zsize name ret s else (0, s))
               in if e = -1 then ((-1, Some new_val), s)
                  else let (r, s) = commit_ret 1 s in ((r, Some new_val), s)
          else ((1, Some new_val), s)) s"

subsection \<open>Iterating\<close>

definition ziterator :: "ssdb \<Rightarrow> bytes \<Rightarrow> bytes \<Rightarrow> bytes \<Rightarrow> bytes \<Rightarrow> u64 \<Rightarrow> direction \<Rightarrow> ziter" where
  "ziterator s name key_start score_start score_end n dir =
     (if dir = FORWARD
      then let start = (if score_start = [] then encode_zscore_key name key_start SSDB_SCORE_MIN
                        else encode_zscore_key name key_start score_start);
               end = (if score_end = [] then encode_zscore_key name [255] SSDB_SCORE_MAX
                      else encode_zscore_key name [255] score_end)
           in ziter_new (ssdb_iterator s start end n) name
      else let start = (if score_start = [] then encode_zscore_key name key_start SSDB_SCORE_MAX
                        else if key_start = [] then encode_zscore_key name [255] score_start
                        else encode_zscore_key name key_start score_start);
               end = (if score_end = [] then encode_zscore_key name [] SSDB_SCORE_MIN
                      else encode_zscore_key name [] score_end)
           in ziter_new (ssdb_rev_iterator s start end n) name)"

lemma ziter_next_limit: "ziter_next z = (True, z') \<Longrightarrow> unat (limit (zit z')) < unat (limit (zit z))"
proof (induction z rule: ziter_next.induct)
  case (1 z)
  obtain b i where n: "iter_next (zit z) = (b, i)" by fastforce
  show ?case
  proof (cases "b \<and> key_type (iter_key i) = DT_ZSCORE \<and> decode_zscore_key (iter_key i) = None")
    case True
    with n "1.prems" have "ziter_next (z\<lparr>zit := i\<rparr>) = (True, z')"
      by (subst (asm) ziter_next.simps) simp
    moreover have "unat (limit i) < unat (limit (zit z))" using n True iter_next_limit by simp
    ultimately show ?thesis using "1.IH" n True by fastforce
  next
    case False
    with n "1.prems" show ?thesis
      by (subst (asm) ziter_next.simps)
        (auto dest: iter_next_limit split: option.splits if_splits bool.splits prod.splits)
  qed
qed

text \<open>The loop of \<open>zrank\<close> and \<open>zrrank\<close>: the counter is a \<open>uint64_t\<close>, and -1 is its largest value.\<close>

function rank_loop :: "bytes \<Rightarrow> ziter \<Rightarrow> u64 \<Rightarrow> u64" where
  "rank_loop key z ret =
     (case ziter_next z of
        (False, z') \<Rightarrow> - 1
      | (True, z') \<Rightarrow> if key = zkey z' then ret else rank_loop key z' (ret + 1))"
  by pat_completeness auto
termination
  by (relation "measure (\<lambda>(_, z, _). unat (limit (zit z)))") (auto dest: ziter_next_limit [OF sym])

declare rank_loop.simps [simp del]

definition zrank :: "ssdb \<Rightarrow> bytes \<Rightarrow> bytes \<Rightarrow> int" where
  "zrank s name key = sint (rank_loop key (ziterator s name [] [] [] 2147483647 FORWARD) 0)"

definition zrrank :: "ssdb \<Rightarrow> bytes \<Rightarrow> bytes \<Rightarrow> int" where
  "zrrank s name key = sint (rank_loop key (ziterator s name [] [] [] 2147483647 BACKWARD) 0)"

definition zrange :: "ssdb \<Rightarrow> bytes \<Rightarrow> u64 \<Rightarrow> u64 \<Rightarrow> ziter" where
  "zrange s name offset n =
     (let n = (if offset + n > n then offset + n else n);
          z = ziterator s name [] [] [] n FORWARD
      in snd (ziter_skip (unat offset) z))"

definition zrrange :: "ssdb \<Rightarrow> bytes \<Rightarrow> u64 \<Rightarrow> u64 \<Rightarrow> ziter" where
  "zrrange s name offset n =
     (let n = (if offset + n > n then offset + n else n);
          z = ziterator s name [] [] [] n BACKWARD
      in snd (ziter_skip (unat offset) z))"

definition zscan :: "ssdb \<Rightarrow> bytes \<Rightarrow> bytes \<Rightarrow> bytes \<Rightarrow> bytes \<Rightarrow> u64 \<Rightarrow> ziter" where
  "zscan s name key score_start score_end n =
     (let score = (if key \<noteq> [] \<and> score_start = []
                   then (case snd (zget s name key) of None \<Rightarrow> [] | Some v \<Rightarrow> v)
                   else score_start)
      in ziterator s name key score score_end n FORWARD)"

definition zrscan :: "ssdb \<Rightarrow> bytes \<Rightarrow> bytes \<Rightarrow> bytes \<Rightarrow> bytes \<Rightarrow> u64 \<Rightarrow> ziter" where
  "zrscan s name key score_start score_end n =
     (let score = (if key \<noteq> [] \<and> score_start = []
                   then (case snd (zget s name key) of None \<Rightarrow> [] | Some v \<Rightarrow> v)
                   else score_start)
      in ziterator s name key score score_end n BACKWARD)"

function get_znames :: "iter \<Rightarrow> bytes list" where
  "get_znames i =
     (case iter_next i of
        (False, j) \<Rightarrow> []
      | (True, j) \<Rightarrow>
          if key_type (iter_key j) \<noteq> DT_ZSIZE then []
          else (case decode_zsize_key (iter_key j) of
                  None \<Rightarrow> get_znames j
                | Some n \<Rightarrow> n # get_znames j))"
  by pat_completeness auto
termination
  by (relation "measure (\<lambda>i. unat (limit i))") (auto dest: iter_next_limit [OF sym])

declare get_znames.simps [simp del]

definition zlist :: "ssdb \<Rightarrow> bytes \<Rightarrow> bytes \<Rightarrow> u64 \<Rightarrow> bytes list" where
  "zlist s name_s name_e n =
     (let start = encode_zsize_key name_s;
          end = (if name_e \<noteq> [] then encode_zsize_key name_e else [])
      in get_znames (ssdb_iterator s start end n))"

definition zrlist :: "ssdb \<Rightarrow> bytes \<Rightarrow> bytes \<Rightarrow> u64 \<Rightarrow> bytes list" where
  "zrlist s name_s name_e n =
     (let start = (if name_s = [] then encode_zsize_key name_s @ [255] else encode_zsize_key name_s);
          end = (if name_e \<noteq> [] then encode_zsize_key name_e else [])
      in get_znames (ssdb_rev_iterator s start end n))"

section \<open>The family of scores\<close>

lemma zset_key_inj:
  assumes "length n \<le> 255" "length n' \<le> 255"
  shows "encode_zset_key n k = encode_zset_key n' k' \<longleftrightarrow> n = n' \<and> k = k'"
proof
  assume e: "encode_zset_key n k = encode_zset_key n' k'"
  then have "name_prefix DT_ZSET n @ [of_nat (length k)] @ k = name_prefix DT_ZSET n' @ [of_nat (length k')] @ k'"
    by (simp add: encode_zset_key_def name_prefix_def)
  moreover from this have "n = n'"
    using name_prefix_prefix [OF assms, of DT_ZSET DT_ZSET "[of_nat (length k')] @ k'"]
    by (metis append_assoc prefixI)
  ultimately show "n = n' \<and> k = k'" by (simp add: name_prefix_def)
qed simp

lemma zscore_key_inj:
  assumes "length n \<le> 255" "length n' \<le> 255"
  shows "encode_zscore_key n k (str_i64 v) = encode_zscore_key n' k' (str_i64 v') \<longleftrightarrow>
    n = n' \<and> k = k' \<and> v = v'"
  using zscore_key.enc_inject [of "(n, k, str_i64 v)" "(n', k', str_i64 v')"] assms
  by (auto simp: str_i64_inject)

interpretation zset_family: counted_family encode_zset_key encode_zsize_key
  by unfold_locales (simp_all add: zset_key_inj)

interpretation znames: name_lister get_znames decode_zsize_key DT_ZSIZE
proof
  show "get_znames i =
      (case iter_next i of
         (False, i') \<Rightarrow> []
       | (True, i') \<Rightarrow>
           if key_type (iter_key i') \<noteq> DT_ZSIZE then []
           else (case decode_zsize_key (iter_key i') of
                   None \<Rightarrow> get_znames i' | Some n \<Rightarrow> n # get_znames i'))" for i
    by (rule get_znames.simps)
  show "decode_zsize_key (DT_ZSIZE # n) = Some n" for n
    using zsize_key.dec_enc [of n] by (simp add: encode_zsize_key_def)
qed simp

section \<open>The invariant\<close>

text \<open>
  The counters are right; the records of members hold printed scores; a record with a score in
  its key stands for a member; and the two kinds of record agree.
\<close>

definition zset_ok :: "(bytes \<rightharpoonup> bytes) \<Rightarrow> bool" where
  "zset_ok m \<longleftrightarrow>
     sizes_ok encode_zset_key encode_zsize_key m \<and>
     (\<forall>x v. m x = Some v \<and> prefix [DT_ZSET] x \<longrightarrow>
        (\<exists>n k sc. x = encode_zset_key n k \<and> member_ok n k \<and> v = str_i64 sc)) \<and>
     (\<forall>x v. m x = Some v \<and> prefix [DT_ZSCORE] x \<longrightarrow>
        (\<exists>n k sc. x = encode_zscore_key n k (str_i64 sc) \<and> member_ok n k)) \<and>
     (\<forall>n k sc. length n \<le> 255 \<longrightarrow>
        (m (encode_zscore_key n k (str_i64 sc)) \<noteq> None \<longleftrightarrow>
         m (encode_zset_key n k) = Some (str_i64 sc)))"

lemma zset_okD:
  assumes "zset_ok m"
  shows "sizes_ok encode_zset_key encode_zsize_key m"
    "m x = Some v \<Longrightarrow> prefix [DT_ZSET] x \<Longrightarrow>
       \<exists>n k sc. x = encode_zset_key n k \<and> member_ok n k \<and> v = str_i64 sc"
    "m x = Some v \<Longrightarrow> prefix [DT_ZSCORE] x \<Longrightarrow>
       \<exists>n k sc. x = encode_zscore_key n k (str_i64 sc) \<and> member_ok n k"
    "length n \<le> 255 \<Longrightarrow> m (encode_zscore_key n k (str_i64 sc)) \<noteq> None \<longleftrightarrow>
       m (encode_zset_key n k) = Some (str_i64 sc)"
  using assms unfolding zset_ok_def by (blast, blast, blast, blast)

lemma zset_prefixes [simp]:
  "prefix [115] (encode_zset_key n k)" "\<not> prefix [122] (encode_zset_key n k)"
  "prefix [122] (encode_zscore_key n k sc)" "\<not> prefix [115] (encode_zscore_key n k sc)"
  "\<not> prefix [115] (encode_zsize_key n)" "\<not> prefix [122] (encode_zsize_key n)"
  by (simp_all add: key_heads)

text \<open>The invariant depends on the records of the three types only.\<close>

lemma zset_ok_cong:
  assumes ok: "zset_ok m"
    and same: "\<And>x. prefix [DT_ZSET] x \<or> prefix [DT_ZSCORE] x \<or> prefix [DT_ZSIZE] x \<Longrightarrow> m' x = m x"
  shows "zset_ok m'"
proof -
  have keys: "m' (encode_zset_key n k) = m (encode_zset_key n k)" "m' (encode_zsize_key n) = m (encode_zsize_key n)"
    "m' (encode_zscore_key n k sc) = m (encode_zscore_key n k sc)" for n k sc
    by (rule same, simp add: key_heads)+
  have "members encode_zset_key m' n = members encode_zset_key m n" for n
    by (simp add: members_def keys)
  then have "sizes_ok encode_zset_key encode_zsize_key m'"
    using zset_okD(1) [OF ok] by (simp add: sizes_ok_def keys)
  then show ?thesis
    unfolding zset_ok_def keys
  proof (intro conjI allI impI, goal_cases)
    case (2 x v)
    then have "m x = Some v" using same [of x] by simp
    with 2 show ?case using zset_okD(2) [OF ok] by blast
  next
    case (3 x v)
    then have "m x = Some v" using same [of x] by simp
    with 3 show ?case using zset_okD(3) [OF ok] by blast
  next
    case (4 n k sc)
    then show ?case by (intro zset_okD(4) [OF ok])
  qed
qed

lemma zset_stored:
  assumes "zset_ok m" "m (encode_zset_key n k) = Some v" "length n \<le> 255"
  obtains sc where "v = str_i64 sc" "member_ok n k"
proof -
  have "prefix [DT_ZSET] (encode_zset_key n k)" by simp
  from zset_okD(2) [OF assms(1,2) this] obtain n' k' sc where
    "encode_zset_key n k = encode_zset_key n' k'" "member_ok n' k'" "v = str_i64 sc" by blast
  then show thesis using that zset_key_inj [OF assms(3), of n'] by (auto simp: member_ok_def)
qed

text \<open>A change of the member \<open>k\<close> of \<open>n\<close>: what the rest of the invariant needs.\<close>

lemma zset_ok_change:
  assumes ok: "zset_ok m" and mem: "member_ok n k"
    and sizes: "sizes_ok encode_zset_key encode_zsize_key m'"
    and self: "m' (encode_zset_key n k) = map_option str_i64 v"
      "\<And>sc. m' (encode_zscore_key n k (str_i64 sc)) \<noteq> None \<longleftrightarrow> v = Some sc"
    and other: "\<And>x. x \<noteq> encode_zset_key n k \<Longrightarrow> x \<noteq> encode_zsize_key n \<Longrightarrow>
      (\<And>sc. x \<noteq> encode_zscore_key n k (str_i64 sc)) \<Longrightarrow> m' x = m x"
  shows "zset_ok m'"
  unfolding zset_ok_def
proof (intro conjI allI impI, goal_cases)
  case 1
  show ?case by (rule sizes)
next
  case (2 x u)
  then show ?case
  proof (cases "x = encode_zset_key n k")
    case True
    with 2 self(1) mem show ?thesis by auto
  next
    case False
    have "x \<noteq> encode_zsize_key n" "\<And>sc. x \<noteq> encode_zscore_key n k (str_i64 sc)"
      using 2 by auto
    with False 2 other have "m x = Some u" by metis
    with 2 zset_okD(2) [OF ok] show ?thesis by blast
  qed
next
  case (3 x u)
  then show ?case
  proof (cases "\<exists>sc. x = encode_zscore_key n k (str_i64 sc)")
    case True
    with mem show ?thesis by blast
  next
    case False
    have "x \<noteq> encode_zsize_key n" "x \<noteq> encode_zset_key n k" using 3 by auto
    with False 3 other have "m x = Some u" by metis
    with 3 zset_okD(3) [OF ok] show ?thesis by blast
  qed
next
  case (4 n' k' sc)
  have n: "length n \<le> 255" using mem by (simp add: member_ok_def)
  show ?case
  proof (cases "n' = n \<and> k' = k")
    case True
    then show ?thesis using self by (cases v) (auto simp: str_i64_inject)
  next
    case False
    then have "m' (encode_zset_key n' k') = m (encode_zset_key n' k')"
      using zset_key_inj [OF 4 n, of k' k] by (intro other) auto
    moreover have "m' (encode_zscore_key n' k' (str_i64 sc)) = m (encode_zscore_key n' k' (str_i64 sc))"
      using False zscore_key_inj [OF 4 n, of k' sc k] by (intro other) auto
    ultimately show ?thesis using zset_okD(4) [OF ok 4, of k' sc] by simp
  qed
qed

text \<open>The scores of a set; no set has a name longer than 255 bytes.\<close>

definition zset_map :: "ssdb \<Rightarrow> bytes \<Rightarrow> bytes \<rightharpoonup> i64" where
  "zset_map s n = (\<lambda>k. if length n \<le> 255
     then map_option (\<lambda>v. fst (str_to_int64 v)) (data s (encode_zset_key n k)) else None)"

definition zset_count :: "ssdb \<Rightarrow> bytes \<Rightarrow> nat" where
  "zset_count s n = card (dom (zset_map s n))"

definition zset_inv :: "ssdb \<Rightarrow> bool" where
  "zset_inv s \<longleftrightarrow> sorted_keys (tbl (db s)) \<and> zset_ok (data s)"

definition zset_readable :: "ssdb \<Rightarrow> bytes \<Rightarrow> bytes \<Rightarrow> bool" where
  "zset_readable s n k \<longleftrightarrow>
     encode_zset_key n k \<notin> unreadable (db s) \<and> encode_zsize_key n \<notin> unreadable (db s)"

lemma zset_map_stored:
  assumes "zset_ok (data s)" "length n \<le> 255"
  shows "data s (encode_zset_key n k) = map_option str_i64 (zset_map s n k)"
proof (cases "data s (encode_zset_key n k)")
  case (Some v)
  with assms obtain sc where "v = str_i64 sc" using zset_stored by blast
  with Some assms(2) show ?thesis by (simp add: zset_map_def str_to_int64_str_i64)
qed (simp add: zset_map_def)

lemma zset_count_members:
  "length n \<le> 255 \<Longrightarrow> zset_count s n = card (dom (members encode_zset_key (data s) n))"
  by (simp add: zset_count_def zset_map_def members_def dom_def)

lemma zget_map:
  assumes "zset_readable s n k" "length n \<le> 255" "zset_ok (data s)"
  shows "zget s n k =
    (case zset_map s n k of None \<Rightarrow> (0, None) | Some sc \<Rightarrow> (1, Some (str_i64 sc)))"
  using assms zset_map_stored [OF assms(3,2), of k]
  by (simp add: zget_def zset_readable_def ldb_get_data split: option.split)

lemma zsize_count:
  assumes "zset_ok (data s)" "encode_zsize_key n \<notin> unreadable (db s)" "length n \<le> 255"
  shows "zsize s n = int (zset_count s n)"
proof -
  have "zsize s n = size_of_record (ldb_get (db s) (encode_zsize_key n))"
    by (simp add: zsize_def size_of_record_def Let_def)
  then show ?thesis
    using assms sizes_okD [OF zset_okD(1) [OF assms(1)] assms(3)]
    by (simp add: ldb_get_data zset_count_members)
qed

lemma zsize_db: "db s' = db s \<Longrightarrow> zsize s' n = zsize s n"
  by (simp add: zsize_def)

lemma zget_db: "db s' = db s \<Longrightarrow> zget s' n k = zget s n k"
  by (simp add: zget_def)

lemma bytes_Int64_str [simp]: "bytes_Int64 (str_i64 v) = v"
  by (simp add: bytes_Int64_def str_to_int64_str_i64)

section \<open>Each operation as a transaction\<close>

definition zput_acts :: "bytes \<Rightarrow> bytes \<Rightarrow> i64 \<Rightarrow> act list" where
  "zput_acts n k sc =
     [APut (encode_zscore_key n k (str_i64 sc)) [], APut (encode_zset_key n k) (str_i64 sc),
      ALog BC_ZSET (encode_zset_key n k)]"

definition zset_acts :: "ssdb \<Rightarrow> bytes \<Rightarrow> bytes \<Rightarrow> i64 \<Rightarrow> act list" where
  "zset_acts s n k sc =
     (case zset_map s n k of
        None \<Rightarrow> zput_acts n k sc @ [size_act (encode_zsize_key n) (zset_count s n + 1)]
      | Some old \<Rightarrow>
          if old = sc then []
          else ADel (encode_zscore_key n k (str_i64 old)) # zput_acts n k sc)"

definition zdel_acts :: "ssdb \<Rightarrow> bytes \<Rightarrow> bytes \<Rightarrow> act list" where
  "zdel_acts s n k =
     (case zset_map s n k of
        None \<Rightarrow> []
      | Some old \<Rightarrow>
          [ADel (encode_zscore_key n k (str_i64 old)), ADel (encode_zset_key n k),
           ALog BC_ZDEL (encode_zset_key n k),
           size_act (encode_zsize_key n) (zset_count s n - 1)])"

lemma incr_zsize_run:
  assumes "zset_ok (data s0)" "encode_zsize_key n \<notin> unreadable (db s0)" "length n \<le> 255" "db s = db s0"
    and "int (zset_count s0 n) + d = int c" "c < 2 ^ 63"
  shows "incr_zsize n d s = (0, run_acts lt [size_act (encode_zsize_key n) c] s)"
proof -
  have h: "zsize s n = int (zset_count s0 n)"
    using zsize_count [OF assms(1-3)] zsize_db [OF assms(4)] by simp
  have "of_int (int (zset_count s0 n)) + of_int d = (of_nat c :: i64)"
    using assms(5) by (metis of_int_add of_int_of_nat_eq)
  then show ?thesis
    unfolding incr_zsize_def Let_def h by (rule run_size_act [OF _ assms(6)])
qed

lemma zset_body:
  assumes "member_ok n k" "zset_readable s n k" "zset_ok (data s)" "zset_count s n + 1 < 2 ^ 63"
    and "sc = bytes_Int64 score"
  obtains ret s1 where "zset_one n k score lt (bl_begin s) = (ret, s1)"
    "ret = (if zset_map s n k = None then 1 else 0)"
    "(if ret > 0 then incr_zsize n ret s1 else (0, s1)) = (0, run_acts lt (zset_acts s n k sc) (bl_begin s))"
proof -
  have n: "length n \<le> 255" "encode_zsize_key n \<notin> unreadable (db s)"
    using assms(1,2) by (simp_all add: member_ok_def zset_readable_def)
  have sz: "incr_zsize n 1 (run_acts lt as (bl_begin s)) =
      (0, run_acts lt [size_act (encode_zsize_key n) (zset_count s n + 1)] (run_acts lt as (bl_begin s)))" for as
    by (rule incr_zsize_run [OF assms(3) n(2,1)]) (use assms(4) in simp_all)
  have get: "zget (bl_begin s) n k =
      (case zset_map s n k of None \<Rightarrow> (0, None) | Some sc \<Rightarrow> (1, Some (str_i64 sc)))"
    using zget_map [OF assms(2) n(1) assms(3)] zget_db [of "bl_begin s" s] by simp
  have mem: "n \<noteq> [] \<and> k \<noteq> [] \<and> length n \<le> 255 \<and> length k \<le> 255"
    using assms(1) by (simp add: member_ok_def)
  show thesis
  proof (cases "zset_map s n k")
    case None
    have one: "zset_one n k score lt (bl_begin s) = (1, run_acts lt (zput_acts n k sc) (bl_begin s))"
      using mem by (simp add: zset_one_def get None filter_score_def assms(5) zput_acts_def Let_def)
    show thesis
      by (rule that [OF one]) (simp_all add: None zset_acts_def sz run_acts_append)
  next
    case (Some old)
    have "zset_one n k score lt (bl_begin s) = (0, run_acts lt (zset_acts s n k sc) (bl_begin s))"
      using mem
      by (simp add: zset_one_def get Some filter_score_def assms(5) zput_acts_def zset_acts_def Let_def
          str_i64_inject)
    then show thesis by (rule that) (simp_all add: Some)
  qed
qed

lemma zset_tran:
  assumes "member_ok n k" "zset_readable s n k" "zset_ok (data s)" "zset_count s n + 1 < 2 ^ 63"
  shows "zset n k score lt s =
    act_tran lt (zset_acts s n k (bytes_Int64 score)) (if zset_map s n k = None then 1 else 0) s"
proof -
  obtain ret s1 where one: "zset_one n k score lt (bl_begin s) = (ret, s1)"
    "ret = (if zset_map s n k = None then 1 else 0)"
    "(if ret > 0 then incr_zsize n ret s1 else (0, s1)) =
       (0, run_acts lt (zset_acts s n k (bytes_Int64 score)) (bl_begin s))"
    using zset_body [OF assms refl] .
  show ?thesis
    using one by (cases "zset_map s n k") (simp_all add: zset_def act_tran_def transaction_def)
qed

text \<open>The score an increment stores.\<close>

definition zincr_value :: "i64 option \<Rightarrow> i64 \<Rightarrow> i64" where
  "zincr_value old by = (case old of None \<Rightarrow> by | Some v \<Rightarrow> v + by)"

lemma zincr_start:
  assumes "length n \<le> 255" "zset_readable s n k" "zset_ok (data s)"
  obtains r old where "zget (bl_begin s) n k = (r, old)" "r \<noteq> -1"
    "(case old of None \<Rightarrow> by | Some o' \<Rightarrow> fst (str_to_int64 o') + by) = zincr_value (zset_map s n k) by"
  using zget_map [OF assms(2,1,3)] zget_db [of "bl_begin s" s n k]
  by (cases "zset_map s n k") (simp_all add: zincr_value_def str_to_int64_str_i64)

lemma zincr_tran:
  assumes "length n \<le> 255" "zset_readable s n k" "zset_ok (data s)" "zset_count s n + 1 < 2 ^ 63"
  shows "zincr n k by lt s =
    (let v = zincr_value (zset_map s n k) by
     in if n = [] \<or> k = [] then (let (r, s') = act_tran lt [] 1 s in ((r, Some v), s'))
        else if length k > 255 then ((-1, Some v), abandon s)
        else let (r, s') = act_tran lt (zset_acts s n k v) 1 s in ((r, Some v), s'))"
proof -
  obtain r old where get: "zget (bl_begin s) n k = (r, old)" "r \<noteq> -1"
    "(case old of None \<Rightarrow> by | Some o' \<Rightarrow> fst (str_to_int64 o') + by) = zincr_value (zset_map s n k) by"
    using zincr_start [OF assms(1-3)] .
  let ?v = "zincr_value (zset_map s n k) by"
  show ?thesis
  proof (cases "member_ok n k")
    case False
    then have bad: "zset_one n k (str_i64 ?v) lt (bl_begin s) =
        (if n = [] \<or> k = [] then 0 else -1, bl_begin s)"
      using assms(1) by (auto simp: zset_one_def member_ok_def)
    have "\<not> (n = [] \<or> k = []) \<Longrightarrow> length k > 255" using False assms(1) by (auto simp: member_ok_def)
    then show ?thesis
      unfolding zincr_def transaction_def get(1) prod.case Let_def get(3) act_tran_def
      using get(2) bad by (auto simp: case_prod_unfold)
  next
    case True
    obtain ret s1 where one: "zset_one n k (str_i64 ?v) lt (bl_begin s) = (ret, s1)"
      "ret = (if zset_map s n k = None then 1 else 0)"
      "(if ret > 0 then incr_zsize n ret s1 else (0, s1)) =
         (0, run_acts lt (zset_acts s n k ?v) (bl_begin s))"
      using zset_body [OF True assms(2-4), of ?v "str_i64 ?v"] by auto
    have "n \<noteq> [] \<and> k \<noteq> [] \<and> \<not> length k > 255" using True by (simp add: member_ok_def)
    then show ?thesis
      unfolding zincr_def transaction_def get(1) prod.case Let_def get(3) act_tran_def
      using get(2) one by (cases "zset_map s n k") (simp_all add: case_prod_unfold)
  qed
qed

lemma zdel_tran:
  assumes "length n \<le> 255" "length k \<le> 255" "zset_readable s n k" "zset_ok (data s)"
  shows "zdel n k lt s = act_tran lt (zdel_acts s n k) (if zset_map s n k = None then 0 else 1) s"
proof (cases "zset_map s n k")
  case None
  then show ?thesis
    using assms(1,2) zget_map [OF assms(3,1,4)] zget_db [of "bl_begin s" s n k]
    by (simp add: zdel_def act_tran_def transaction_def zdel_one_def zdel_acts_def)
next
  case (Some old)
  have m: "data s (encode_zset_key n k) \<noteq> None"
    using zset_map_stored [OF assms(4,1), of k] Some by simp
  have ok: "sizes_ok encode_zset_key encode_zsize_key (data s)" by (rule zset_okD(1) [OF assms(4)])
  have pos: "0 < zset_count s n" and lt: "zset_count s n < 2 ^ 63"
    using zset_family.sizes_ok_remove(2) [OF ok assms(1) m] sizes_okD(2) [OF ok assms(1)]
      zset_count_members [OF assms(1), of s] by simp_all
  have "encode_zsize_key n \<notin> unreadable (db s)" using assms(3) by (simp add: zset_readable_def)
  then have sz: "incr_zsize n (-1) (run_acts lt as (bl_begin s)) =
      (0, run_acts lt [size_act (encode_zsize_key n) (zset_count s n - 1)] (run_acts lt as (bl_begin s)))" for as
    by (intro incr_zsize_run [OF assms(4) _ assms(1)]) (use pos lt in simp_all)
  let ?as = "[ADel (encode_zscore_key n k (str_i64 old)), ADel (encode_zset_key n k),
    ALog BC_ZDEL (encode_zset_key n k)]"
  have one: "zdel_one n k lt (bl_begin s) = (1, run_acts lt ?as (bl_begin s))"
    using assms(1,2) zget_map [OF assms(3,1,4)] zget_db [of "bl_begin s" s n k]
    by (simp add: zdel_one_def Some Let_def)
  have "run_acts lt (zdel_acts s n k) (bl_begin s) =
      run_acts lt [size_act (encode_zsize_key n) (zset_count s n - 1)] (run_acts lt ?as (bl_begin s))"
    by (simp add: zdel_acts_def Some)
  then show ?thesis
    unfolding zdel_def act_tran_def transaction_def one using sz [of ?as] by (simp add: Some)
qed

section \<open>Effect on the maps\<close>

lemma zset_acts_data: "w \<in> set (acts_ops (zset_acts s n k sc)) \<Longrightarrow> data_op w"
  by (auto simp: zset_acts_def zput_acts_def split: option.splits if_splits)

lemma zdel_acts_data: "w \<in> set (acts_ops (zdel_acts s n k)) \<Longrightarrow> data_op w"
  by (auto simp: zdel_acts_def split: option.splits if_splits)

lemma zset_map_upd:
  assumes "length n \<le> 255" "zset_ok (data s)" "zset_ok (data s')"
    and "data s' (encode_zset_key n k) = map_option str_i64 v"
    and "\<And>n' k'. length n' \<le> 255 \<Longrightarrow> (n', k') \<noteq> (n, k) \<Longrightarrow>
      data s' (encode_zset_key n' k') = data s (encode_zset_key n' k')"
  shows "zset_map s' = (zset_map s)(n := (zset_map s n)(k := v))"
proof (intro ext)
  fix n' k'
  show "zset_map s' n' k' = ((zset_map s)(n := (zset_map s n)(k := v))) n' k'"
  proof (cases "length n' \<le> 255")
    case long: False
    then have "n' \<noteq> n" using assms(1) by auto
    with long show ?thesis by (simp add: zset_map_def)
  next
    case True
    show ?thesis
    proof (cases "n' = n \<and> k' = k")
      case same: True
      have "zset_map s' n k = v"
        unfolding zset_map_def assms(4) using assms(1)
        by (cases v) (simp_all add: str_to_int64_str_i64)
      with same show ?thesis by simp
    next
      case False
      then have "data s' (encode_zset_key n' k') = data s (encode_zset_key n' k')"
        using True by (intro assms(5)) auto
      then have "zset_map s' n' k' = zset_map s n' k'" by (simp only: zset_map_def)
      with False show ?thesis by auto
    qed
  qed
qed

lemma zset_acts_effect:
  assumes ok: "zset_ok (data s)" and mem: "member_ok n k"
    and cnt: "zset_count s n + 1 < 2 ^ 63" and w: "write_ok (db s)"
    and s': "s' = snd (act_tran lt (zset_acts s n k sc) r s)"
  shows "zset_map s' = (zset_map s)(n := (zset_map s n)(k \<mapsto> sc)) \<and> zset_ok (data s')"
proof -
  let ?m = "data s" and ?zk = "encode_zset_key n k" and ?sk = "encode_zsize_key n"
  let ?zs = "\<lambda>v. encode_zscore_key n k (str_i64 v)"
  have n: "length n \<le> 255" using mem by (simp add: member_ok_def)
  have sz: "sizes_ok encode_zset_key encode_zsize_key ?m" by (rule zset_okD(1) [OF ok])
  have d: "data s' = fold mstep (acts_ops (zset_acts s n k sc)) ?m"
    unfolding s' using w zset_acts_data by (subst act_tran_data) auto
  have inj: "?zs a = ?zs b \<longleftrightarrow> a = b" for a b using zscore_key_inj [OF n n] by simp
  have st: "?m ?zk = map_option str_i64 (zset_map s n k)" by (rule zset_map_stored [OF ok n])
  have sc_old: "?m (?zs a) \<noteq> None \<longleftrightarrow> zset_map s n k = Some a" for a
    using zset_okD(4) [OF ok n, of k a] st by (cases "zset_map s n k") (auto simp: str_i64_inject)
  have size_other: "sizes_ok encode_zset_key encode_zsize_key (m(?zs a := v)) =
      sizes_ok encode_zset_key encode_zsize_key m" for m a v
    by (rule zset_family.sizes_ok_other) simp_all
  have mem_other: "members encode_zset_key (m(?zs a := v)) n' = members encode_zset_key m n'" for m a v n'
    by (rule zset_family.members_other) simp
  have main: "zset_ok (data s') \<and> data s' ?zk = Some (str_i64 sc) \<and>
      (\<forall>x. x \<noteq> ?zk \<longrightarrow> x \<noteq> ?sk \<longrightarrow> (\<forall>a. x \<noteq> ?zs a) \<longrightarrow> data s' x = ?m x)"
  proof (cases "zset_map s n k")
    case None
    let ?m1 = "?m(?zs sc \<mapsto> [])"
    have d': "data s' = ?m1(?zk \<mapsto> str_i64 sc,
        ?sk := size_record (card (dom (members encode_zset_key ?m1 n)) + 1))"
      using None by (simp add: d zset_acts_def zput_acts_def zset_count_members [OF n] mem_other)
    have "zset_ok (data s')"
    proof (rule zset_ok_change [OF ok mem])
      show "sizes_ok encode_zset_key encode_zsize_key (data s')"
        unfolding d'
      proof (rule zset_family.sizes_ok_insert)
        show "sizes_ok encode_zset_key encode_zsize_key ?m1" using sz size_other by simp
        show "?m1 ?zk = None" using st None by simp
        show "card (dom (members encode_zset_key ?m1 n)) + 1 < 2 ^ 63"
          using cnt zset_count_members [OF n, of s] by (simp add: mem_other)
      qed (rule n)
      show "data s' ?zk = map_option str_i64 (Some sc)" by (simp add: d')
      show "data s' (?zs a) \<noteq> None \<longleftrightarrow> Some sc = Some a" for a
        using sc_old [of a] None by (simp add: d' inj)
      show "data s' x = ?m x" if "x \<noteq> ?zk" "x \<noteq> ?sk" "\<And>a. x \<noteq> ?zs a" for x
        using that by (simp add: d')
    qed
    then show ?thesis by (simp add: d')
  next
    case (Some old)
    show ?thesis
    proof (cases "old = sc")
      case True
      then have "data s' = ?m" using Some by (simp add: d zset_acts_def)
      with ok st Some True show ?thesis by simp
    next
      case False
      let ?m1 = "?m(?zs old := None, ?zs sc \<mapsto> [])"
      have d': "data s' = ?m1(?zk \<mapsto> str_i64 sc)"
        using Some False by (simp add: d zset_acts_def zput_acts_def)
      have "zset_ok (data s')"
      proof (rule zset_ok_change [OF ok mem])
        show "sizes_ok encode_zset_key encode_zsize_key (data s')"
          unfolding d'
        proof (rule zset_family.sizes_ok_update)
          show "sizes_ok encode_zset_key encode_zsize_key ?m1" using sz size_other by simp
          show "?m1 ?zk \<noteq> None" using st Some by simp
        qed (rule n)
        show "data s' ?zk = map_option str_i64 (Some sc)" by (simp add: d')
        show "data s' (?zs a) \<noteq> None \<longleftrightarrow> Some sc = Some a" for a
          using sc_old [of a] Some False by (auto simp: d' inj)
        show "data s' x = ?m x" if "x \<noteq> ?zk" "x \<noteq> ?sk" "\<And>a. x \<noteq> ?zs a" for x
          using that by (simp add: d')
      qed
      then show ?thesis by (simp add: d')
    qed
  qed
  have "zset_map s' = (zset_map s)(n := (zset_map s n)(k \<mapsto> sc))"
  proof (rule zset_map_upd [OF n ok])
    show "data s' (encode_zset_key n' k') = ?m (encode_zset_key n' k')"
      if "length n' \<le> 255" "(n', k') \<noteq> (n, k)" for n' k'
      using that main zset_key_inj [OF that(1) n, of k' k] by auto
  qed (use main in simp_all)
  with main show ?thesis by simp
qed

lemma zdel_acts_effect:
  assumes ok: "zset_ok (data s)" and n: "length n \<le> 255" and w: "write_ok (db s)"
    and s': "s' = snd (act_tran lt (zdel_acts s n k) r s)"
  shows "zset_map s' = (zset_map s)(n := (zset_map s n)(k := None)) \<and> zset_ok (data s')"
proof (cases "zset_map s n k")
  let ?m = "data s" and ?zk = "encode_zset_key n k" and ?sk = "encode_zsize_key n"
  let ?zs = "\<lambda>v. encode_zscore_key n k (str_i64 v)"
  have d: "data s' = fold mstep (acts_ops (zdel_acts s n k)) ?m"
    unfolding s' using w zdel_acts_data by (subst act_tran_data) auto
  {
    case None
    then have d': "data s' = ?m" by (simp add: d zdel_acts_def)
    have "zset_map s' = zset_map s" by (intro ext) (simp add: zset_map_def d')
    moreover have "(zset_map s)(n := (zset_map s n)(k := None)) = zset_map s"
      using None by (auto simp: fun_eq_iff)
    ultimately show ?thesis using ok d' by simp
  next
    case (Some old)
    have sz: "sizes_ok encode_zset_key encode_zsize_key ?m" by (rule zset_okD(1) [OF ok])
    have st: "?m ?zk = Some (str_i64 old)" using zset_map_stored [OF ok n, of k] Some by simp
    have mem: "member_ok n k" using zset_stored [OF ok st n] by blast
    have inj: "?zs a = ?zs b \<longleftrightarrow> a = b" for a b using zscore_key_inj [OF n n] by simp
    let ?m1 = "?m(?zs old := None)"
    have mem1: "members encode_zset_key ?m1 n = members encode_zset_key ?m n"
      by (rule zset_family.members_other) simp
    have d': "data s' = ?m1(?zk := None, ?sk := size_record (card (dom (members encode_zset_key ?m1 n)) - 1))"
      using Some by (simp add: d zdel_acts_def zset_count_members [OF n] mem1)
    have zok: "zset_ok (data s')"
    proof (rule zset_ok_change [OF ok mem])
      show "sizes_ok encode_zset_key encode_zsize_key (data s')"
        unfolding d'
      proof (rule zset_family.sizes_ok_remove(1))
        show "sizes_ok encode_zset_key encode_zsize_key ?m1"
          using sz by (subst zset_family.sizes_ok_other) simp_all
        show "?m1 ?zk \<noteq> None" using st by simp
      qed (rule n)
      show "data s' ?zk = map_option str_i64 None" by (simp add: d')
      show "data s' (?zs a) \<noteq> None \<longleftrightarrow> None = Some a" for a
        using zset_okD(4) [OF ok n, of k a] st by (auto simp: d' inj str_i64_inject)
      show "data s' x = ?m x" if "x \<noteq> ?zk" "x \<noteq> ?sk" "\<And>a. x \<noteq> ?zs a" for x
        using that by (simp add: d')
    qed
    moreover have "zset_map s' = (zset_map s)(n := (zset_map s n)(k := None))"
    proof (rule zset_map_upd [OF n ok zok])
      show "data s' (encode_zset_key n' k') = ?m (encode_zset_key n' k')"
        if "length n' \<le> 255" "(n', k') \<noteq> (n, k)" for n' k'
        using that zset_key_inj [OF that(1) n, of k' k] by (auto simp: d')
    qed (simp add: d')
    ultimately show ?thesis by simp
  }
qed

lemma zset_no_write:
  assumes "\<not> write_ok (db s)"
  shows "zset_map (snd (act_tran lt as r s)) = zset_map s"
    "data (snd (act_tran lt as r s)) = data s"
  using assms by (simp_all add: zset_map_def fun_eq_iff act_tran_tbl)

lemma zset_no_acts:
  "zset_map (snd (act_tran lt [] r s)) = zset_map s" "data (snd (act_tran lt [] r s)) = data s"
proof -
  show "data (snd (act_tran lt [] r s)) = data s" by (simp add: act_tran_data)
  then show "zset_map (snd (act_tran lt [] r s)) = zset_map s"
    by (intro ext) (simp add: zset_map_def)
qed

lemma zset_abandon [simp]: "zset_map (abandon s) = zset_map s" "zset_inv (abandon s) = zset_inv s"
  by (simp_all add: zset_map_def fun_eq_iff zset_inv_def)

section \<open>Refinement\<close>

datatype zset_cmd =
    ZGet bytes bytes | ZSet bytes bytes bytes | ZDel bytes bytes | ZIncr bytes bytes i64 | ZSize bytes

fun zset_cmd_key :: "zset_cmd \<Rightarrow> bytes \<times> bytes" where
  "zset_cmd_key (ZGet n k) = (n, k)" | "zset_cmd_key (ZSet n k v) = (n, k)"
| "zset_cmd_key (ZDel n k) = (n, k)" | "zset_cmd_key (ZIncr n k i) = (n, k)"
| "zset_cmd_key (ZSize n) = (n, [])"

fun zset_exec :: "u8 \<Rightarrow> zset_cmd \<Rightarrow> ssdb \<Rightarrow> (int \<times> bytes option) \<times> ssdb" where
  "zset_exec lt (ZGet n k) s = (zget s n k, s)"
| "zset_exec lt (ZSet n k v) s = (let (r, s') = zset n k v lt s in ((r, None), s'))"
| "zset_exec lt (ZDel n k) s = (let (r, s') = zdel n k lt s in ((r, None), s'))"
| "zset_exec lt (ZIncr n k i) s =
     (let ((r, v), s') = zincr n k i lt s in ((r, map_option str_i64 v), s'))"
| "zset_exec lt (ZSize n) s = ((zsize s n, None), s)"

text \<open>
  Over a family of maps to scores. An empty name or key is no error of \<open>zset\<close> and \<open>zincr\<close>: they
  commit an empty batch, and \<open>zincr\<close> answers 1 with a number it has not stored.
\<close>

fun zset_spec :: "bool \<Rightarrow> zset_cmd \<Rightarrow> (bytes \<Rightarrow> bytes \<rightharpoonup> i64) \<Rightarrow>
    (int \<times> bytes option) \<times> (bytes \<Rightarrow> bytes \<rightharpoonup> i64)" where
  "zset_spec w (ZGet n k) Z =
     (case Z n k of None \<Rightarrow> ((0, None), Z) | Some v \<Rightarrow> ((1, Some (str_i64 v)), Z))"
| "zset_spec w (ZSet n k score) Z =
     (if n = [] \<or> k = [] then spec_write w 0 None Z Z
      else if length k > 255 then ((-1, None), Z)
      else spec_write w (if Z n k = None then 1 else 0) None Z
             (Z(n := (Z n)(k \<mapsto> bytes_Int64 score))))"
| "zset_spec w (ZDel n k) Z =
     (if length k > 255 then ((-1, None), Z)
      else spec_write w (if Z n k = None then 0 else 1) None Z (Z(n := (Z n)(k := None))))"
| "zset_spec w (ZIncr n k i) Z =
     (let v = zincr_value (Z n k) i
      in if n = [] \<or> k = [] then spec_write w 1 (Some (str_i64 v)) Z Z
         else if length k > 255 then ((-1, Some (str_i64 v)), Z)
         else spec_write w 1 (Some (str_i64 v)) Z (Z(n := (Z n)(k \<mapsto> v))))"
| "zset_spec w (ZSize n) Z = ((int (card (dom (Z n))), None), Z)"

lemma zset_bad:
  assumes "\<not> member_ok n k" "length n \<le> 255"
  shows "zset n k v lt s =
    (if n = [] \<or> k = [] then act_tran lt [] 0 s else (-1, abandon s))"
proof -
  have "zset_one n k v lt (bl_begin s) = (if n = [] \<or> k = [] then 0 else -1, bl_begin s)"
    using assms by (auto simp: zset_one_def member_ok_def)
  then show ?thesis by (simp add: zset_def transaction_def act_tran_def)
qed

lemma zdel_bad: "\<not> length k \<le> 255 \<Longrightarrow> zdel n k lt s = (-1, abandon s)"
  by (simp add: zdel_def transaction_def zdel_one_def)

lemma zset_inv_acts:
  assumes "zset_inv s"
  shows "zset_inv (snd (act_tran lt [] r s))"
    "\<not> write_ok (db s) \<Longrightarrow> zset_inv (snd (act_tran lt as r s))"
    "member_ok n k \<Longrightarrow> zset_count s n + 1 < 2 ^ 63 \<Longrightarrow>
       zset_inv (snd (act_tran lt (zset_acts s n k sc) r s))"
    "length n \<le> 255 \<Longrightarrow> zset_inv (snd (act_tran lt (zdel_acts s n k) r s))"
proof -
  have ok: "zset_ok (data s)" and srt: "sorted_keys (tbl (db s))"
    using assms by (simp_all add: zset_inv_def)
  show "zset_inv (snd (act_tran lt [] r s))"
    using ok srt by (simp add: zset_inv_def zset_no_acts act_tran_sorted)
  show nw: "zset_inv (snd (act_tran lt as r s))" if "\<not> write_ok (db s)" for as
    using ok srt that by (simp add: zset_inv_def zset_no_write act_tran_sorted)
  show "zset_inv (snd (act_tran lt (zset_acts s n k sc) r s))"
    if "member_ok n k" "zset_count s n + 1 < 2 ^ 63"
    using zset_acts_effect [OF ok that _ refl, of lt sc r] nw srt
    by (cases "write_ok (db s)") (simp_all add: zset_inv_def act_tran_sorted)
  show "zset_inv (snd (act_tran lt (zdel_acts s n k) r s))" if "length n \<le> 255"
    using zdel_acts_effect [OF ok that _ refl, of lt k r] nw srt
    by (cases "write_ok (db s)") (simp_all add: zset_inv_def act_tran_sorted)
qed

lemma zset_exec_spec:
  assumes inv: "zset_inv s" and n: "zset_cmd_key c = (n, k)" "length n \<le> 255"
    and rd: "zset_readable s n k" and cnt: "zset_count s n + 1 < 2 ^ 63"
  shows "zset_spec (write_ok (db s)) c (zset_map s) =
      (fst (zset_exec lt c s), zset_map (snd (zset_exec lt c s)))"
    and "zset_inv (snd (zset_exec lt c s))"
proof -
  have ok: "zset_ok (data s)" using inv by (simp add: zset_inv_def)
  note tran = zset_tran [OF _ rd ok cnt] zdel_tran [OF n(2) _ rd ok] zincr_tran [OF n(2) rd ok cnt]
  note eff = zset_acts_effect [OF ok _ cnt _ refl, THEN conjunct1]
    zdel_acts_effect [OF ok n(2) _ refl, THEN conjunct1] zset_no_write(1) zset_no_acts(1) act_tran_result
  note simps = spec_write_def case_prod_unfold Let_def zset_bad zdel_bad
  note invs = zset_inv_acts [OF inv]
  have "zset_spec (write_ok (db s)) c (zset_map s) =
      (fst (zset_exec lt c s), zset_map (snd (zset_exec lt c s))) \<and> zset_inv (snd (zset_exec lt c s))"
  proof (cases c)
    case (ZGet n' k')
    with n inv show ?thesis by (simp add: zget_map [OF rd n(2) ok] split: option.split)
  next
    case (ZSet n' k' v)
    with n have c: "c = ZSet n k v" by simp
    show ?thesis
    proof (cases "member_ok n k")
      case True
      then have "n \<noteq> [] \<and> k \<noteq> [] \<and> \<not> length k > 255" by (simp add: member_ok_def)
      with True show ?thesis
        by (cases "write_ok (db s)") (simp_all add: c tran eff simps invs(3) [OF True cnt])
    next
      case False
      then have "n = [] \<or> k = [] \<or> length k > 255" using n(2) by (auto simp: member_ok_def)
      with False n(2) inv show ?thesis
        by (cases "write_ok (db s)") (auto simp: c simps eff invs(1))
    qed
  next
    case (ZDel n' k')
    with n have c: "c = ZDel n k" by simp
    show ?thesis
      by (cases "write_ok (db s)"; cases "length k \<le> 255")
        (simp_all add: c tran eff simps invs(4) [OF n(2)] inv)
  next
    case (ZIncr n' k' i)
    with n have c: "c = ZIncr n k i" by simp
    show ?thesis
    proof (cases "member_ok n k")
      case True
      then have "n \<noteq> [] \<and> k \<noteq> [] \<and> \<not> length k > 255" by (simp add: member_ok_def)
      with True show ?thesis
        by (cases "write_ok (db s)") (simp_all add: c tran eff simps invs(3) [OF True cnt])
    next
      case False
      then have "n = [] \<or> k = [] \<or> length k > 255" using n(2) by (auto simp: member_ok_def)
      with False n(2) inv show ?thesis
        by (cases "write_ok (db s)") (auto simp: c simps tran eff invs(1))
    qed
  next
    case (ZSize n')
    with n have c: "c = ZSize n" by simp
    have "encode_zsize_key n \<notin> unreadable (db s)" using rd by (simp add: zset_readable_def)
    then show ?thesis using zsize_count [OF ok _ n(2)] inv by (simp add: c zset_count_def)
  qed
  then show "zset_spec (write_ok (db s)) c (zset_map s) =
      (fst (zset_exec lt c s), zset_map (snd (zset_exec lt c s)))"
    "zset_inv (snd (zset_exec lt c s))" by simp_all
qed

section \<open>Sessions\<close>

lemma zset_readable_reliable: "reliable (db s) \<Longrightarrow> zset_readable s n k"
  by (simp add: zset_readable_def reliable_def)

lemma zset_exec_unreadable:
  assumes "zset_inv s" "length (fst (zset_cmd_key c)) \<le> 255"
    "zset_readable s (fst (zset_cmd_key c)) (snd (zset_cmd_key c))"
    "zset_count s (fst (zset_cmd_key c)) + 1 < 2 ^ 63"
  shows "unreadable (db (snd (zset_exec lt c s))) = unreadable (db s)"
proof -
  obtain n k where c: "zset_cmd_key c = (n, k)" by fastforce
  have ok: "zset_ok (data s)" using assms(1) by (simp add: zset_inv_def)
  have n: "length n \<le> 255" "zset_count s n + 1 < 2 ^ 63" using assms(2,4) c by simp_all
  have rd: "zset_readable s n k" using assms(3) c by simp
  note tran = zset_tran [OF _ rd ok n(2)] zdel_tran [OF n(1) _ rd ok] zincr_tran [OF n(1) rd ok n(2)]
  show ?thesis
    using c n
    by (cases c; cases "member_ok n k"; cases "length k \<le> 255")
      (simp_all add: tran zset_bad zdel_bad case_prod_unfold Let_def)
qed

lemma zset_exec_reliable:
  assumes "reliable (db s)" "zset_inv s" "length (fst (zset_cmd_key c)) \<le> 255"
    "zset_count s (fst (zset_cmd_key c)) + 1 < 2 ^ 63"
  shows "reliable (db (snd (zset_exec lt c s)))"
proof -
  obtain n k where c: "zset_cmd_key c = (n, k)" by fastforce
  have ok: "zset_ok (data s)" using assms(2) by (simp add: zset_inv_def)
  have n: "length n \<le> 255" "zset_count s n + 1 < 2 ^ 63" using assms(3,4) c by simp_all
  note rd = zset_readable_reliable [OF assms(1), of n k]
  note tran = zset_tran [OF _ rd ok n(2)] zdel_tran [OF n(1) _ rd ok] zincr_tran [OF n(1) rd ok n(2)]
  show ?thesis
    using assms(1) c n
    by (cases c; cases "member_ok n k"; cases "length k \<le> 255")
      (simp_all add: tran zset_bad zdel_bad case_prod_unfold Let_def)
qed

lemma zset_map_finite: "zset_ok (data s) \<Longrightarrow> finite (dom (zset_map s n))"
  using sizes_okD(1) [OF zset_okD(1), of "data s" n]
  by (cases "length n \<le> 255") (simp_all add: zset_map_def members_def dom_def)

lemma zset_count_exec:
  assumes "zset_inv s" "length (fst (zset_cmd_key c)) \<le> 255"
    "zset_readable s (fst (zset_cmd_key c)) (snd (zset_cmd_key c))"
    "zset_count s (fst (zset_cmd_key c)) + 1 < 2 ^ 63"
  shows "zset_count (snd (zset_exec lt c s)) n \<le> zset_count s n + 1"
proof -
  have fin: "finite (dom (zset_map s m))" for m
    using assms(1) by (simp add: zset_inv_def zset_map_finite)
  have Z: "zset_map (snd (zset_exec lt c s)) = snd (zset_spec (write_ok (db s)) c (zset_map s))"
    using zset_exec_spec(1) [OF assms(1) _ assms(2-4), of c lt] by simp
  have "\<exists>k. dom (zset_map (snd (zset_exec lt c s)) n) \<subseteq> insert k (dom (zset_map s n))"
    unfolding Z
    by (cases c) (auto simp: spec_write_def case_prod_unfold Let_def split: option.splits if_splits)
  then obtain k where "dom (zset_map (snd (zset_exec lt c s)) n) \<subseteq> insert k (dom (zset_map s n))" ..
  then have "card (dom (zset_map (snd (zset_exec lt c s)) n)) \<le> card (insert k (dom (zset_map s n)))"
    using fin by (intro card_mono) auto
  also have "\<dots> \<le> card (dom (zset_map s n)) + 1" using fin [of n] by (simp add: card_insert_if)
  finally show ?thesis by (simp add: zset_count_def)
qed

interpretation zset_session: counted_session "zset_exec lt" "\<lambda>c. length (fst (zset_cmd_key c)) \<le> 255"
    zset_inv zset_count "2 ^ 63" for lt
proof
  fix s c
  assume s: "zset_inv s" "unreadable (db s) = {}" and c: "length (fst (zset_cmd_key c)) \<le> 255"
    and "\<forall>n. zset_count s n + 1 < 2 ^ 63"
  then have cnt: "zset_count s (fst (zset_cmd_key c)) + 1 < 2 ^ 63" by blast
  have rd: "zset_readable s n k" for n k using s(2) by (simp add: zset_readable_def)
  show "zset_inv (snd (zset_exec lt c s)) \<and> unreadable (db (snd (zset_exec lt c s))) = {} \<and>
      (\<forall>n. zset_count (snd (zset_exec lt c s)) n \<le> zset_count s n + 1)"
    using zset_exec_spec(2) [OF s(1) surjective_pairing c rd cnt, of lt]
      zset_exec_unreadable [OF s(1) c rd cnt, of lt] s(2) zset_count_exec [OF s(1) c rd cnt, of lt] by simp
qed

section \<open>The correctness of the commands\<close>

lemma zset_inv_empty [simp]: "zset_inv empty_ssdb"
  by (auto simp: zset_inv_def zset_ok_def sizes_ok_def members_def empty_ldb_def data_map_def)

lemma zset_map_empty [simp]: "zset_map empty_ssdb n = Map.empty"
  by (rule ext) (simp add: zset_map_def empty_ldb_def data_map_def)

text \<open>
  every command on sorted sets answers and changes the family of maps from keys to scores as
  the specification says, and keeps the invariant: the counter of a set is its number of members
  and the records ordered by score list exactly the members with their scores.
\<close>

theorem zset_exec_refines:
  assumes "zset_inv s" "length (fst (zset_cmd_key c)) \<le> 255"
    and "zset_readable s (fst (zset_cmd_key c)) (snd (zset_cmd_key c))"
    and "zset_count s (fst (zset_cmd_key c)) + 1 < 2 ^ 63"
  shows "(fst (zset_exec lt c s), zset_map (snd (zset_exec lt c s))) =
      zset_spec (write_ok (db s)) c (zset_map s) \<and>
    zset_inv (snd (zset_exec lt c s))"
  using zset_exec_spec [OF assms(1) _ assms(2-4), of c lt] by simp

lemma zset_exec_refines_witness:
  "fst (zset_exec BT_SYNC (ZIncr [1] [2] 7) empty_ssdb) = (1, Some (str_i64 7)) \<and>
   zset_map (snd (zset_exec BT_SYNC (ZIncr [1] [2] 7) empty_ssdb)) [1] = [[2] \<mapsto> 7]"
proof -
  have "zset_inv empty_ssdb" "length (fst (zset_cmd_key (ZIncr [1] [2] 7))) \<le> 255"
    "zset_readable empty_ssdb (fst (zset_cmd_key (ZIncr [1] [2] 7))) (snd (zset_cmd_key (ZIncr [1] [2] 7)))"
    "zset_count empty_ssdb (fst (zset_cmd_key (ZIncr [1] [2] 7))) + 1 < 2 ^ 63"
    by (simp_all add: zset_count_def zset_readable_reliable)
  from zset_exec_refines [OF this, of BT_SYNC] show ?thesis by (simp add: spec_write_def zincr_value_def)
qed

end
