(* ===== verification/T_zset_Order.thy ===== *)
theory T_zset_Order
  imports T_zset
begin

text \<open>
  The order of the sorted sets of \<open>ssdb/ssdb/t_zset.cpp\<close>: the records with the score in the key,
  the bounds of \<open>ziterator\<close>, and with them \<open>zscan\<close>, \<open>zrange\<close>, \<open>zrank\<close> and their reversed
  variants. The repair by \<open>zfix\<close> is in \<open>T_zset_Fix\<close>.
\<close>

section \<open>The order of the set\<close>

lemma lex_append_eq:
  fixes a b x y :: "'a::linorder list"
  shows "length a = length b \<Longrightarrow> a @ x < b @ y \<longleftrightarrow> a < b \<or> a = b \<and> x < y"
  by (induction a b rule: list_induct2) auto

text \<open>
  The sign character and the big-endian number order the scores as signed numbers.
\<close>

lemma sint_unat:
  "sint (v :: i64) = (if sint v < 0 then int (unat v) - 2 ^ 64 else int (unat v))"
proof -
  have u: "take_bit 64 (uint v) = uint v" using uint_bounded [of v] by (simp add: take_bit_int_eq_self_iff)
  have "sint v = uint v - 2 ^ 64 * of_bool (bit (uint v) 63)"
    using signed_take_bit_eq_take_bit_minus [of 63 "uint v"] u by (simp add: sint_uint)
  moreover have "0 \<le> uint v" "uint v < 2 ^ 64" using uint_bounded [of v] by simp_all
  ultimately show ?thesis by (auto simp: of_bool_def split: if_splits)
qed

lemma encode_score_less:
  "encode_score a < encode_score b \<longleftrightarrow> sint a < sint b"
  using sint_unat [of a] sint_unat [of b]
  by (auto simp: encode_score_def big_endian64_order word_less_def)

lemma encode_score_inject [simp]: "encode_score a = encode_score b \<longleftrightarrow> a = b"
  using encode_score_less [of a b] encode_score_less [of b a]
  by (metis linorder_neqE sint_unat neq_iff signed_word_eqI)

lemma length_encode_score [simp]: "length (encode_score v) = 9"
  by (simp add: encode_score_def)

text \<open>A member with its score, as the suffix of its key and in the order of the set.\<close>

definition zpos :: "i64 \<times> bytes \<Rightarrow> bytes" where
  "zpos x = encode_score (fst x) @ [61] @ snd x"

definition zless :: "i64 \<times> bytes \<Rightarrow> i64 \<times> bytes \<Rightarrow> bool" where
  "zless x y \<longleftrightarrow> sint (fst x) < sint (fst y) \<or> fst x = fst y \<and> snd x < snd y"

definition zle :: "i64 \<times> bytes \<Rightarrow> i64 \<times> bytes \<Rightarrow> bool" where
  "zle x y \<longleftrightarrow> sint (fst x) < sint (fst y) \<or> fst x = fst y \<and> snd x \<le> snd y"

lemma zpos_less: "zpos x < zpos y \<longleftrightarrow> zless x y"
  by (simp add: zpos_def zless_def lex_append_eq encode_score_less)

lemma zpos_inject: "zpos x = zpos y \<longleftrightarrow> x = y"
  by (auto simp: zpos_def prod_eq_iff)

lemma zpos_le: "zpos x \<le> zpos y \<longleftrightarrow> zle x y"
  using zpos_less [of x y] zpos_inject [of x y]
  by (auto simp: order.order_iff_strict zle_def zless_def prod_eq_iff)

lemma zpos_nonempty [simp]: "zpos x \<noteq> []"
  by (simp add: zpos_def)

abbreviation zblock :: "bytes \<Rightarrow> bytes" where
  "zblock n \<equiv> name_prefix DT_ZSCORE n"

lemma encode_zscore_zpos: "encode_zscore_key n k sc = zblock n @ zpos (bytes_Int64 sc, k)"
  by (simp add: encode_zscore_key_def name_prefix_def zpos_def)

text \<open>Reading a member back from the suffix.\<close>

definition zmember :: "bytes \<Rightarrow> i64 \<times> bytes" where
  "zmember r = (big_endian64 (load64 (drop 1 r)), drop 10 r)"

lemma zmember_zpos [simp]: "zmember (zpos x) = x"
  by (simp add: zmember_def zpos_def encode_score_def big_endian64_involution)

definition zset_entries :: "table \<Rightarrow> bytes \<Rightarrow> (i64 \<times> bytes) list" where
  "zset_entries t n = map (\<lambda>e. zmember (fst e)) (block_entries (zblock n) t)"

lemma zscore_prefix:
  assumes "length n \<le> 255" "length n' \<le> 255"
  shows "prefix (zblock n) (encode_zscore_key n' k sc) \<longleftrightarrow> n = n'"
  using name_prefix_prefix [OF assms, of DT_ZSCORE DT_ZSCORE "zpos (bytes_Int64 sc, k)"]
  by (simp add: encode_zscore_zpos)

lemma zblock_zscore: "prefix (zblock n) x \<Longrightarrow> prefix [DT_ZSCORE] x"
  by (auto simp: name_prefix_def prefix_def)

lemma data_of_table:
  "sorted_keys (tbl (db s)) \<Longrightarrow> \<not> is_log_key x \<Longrightarrow> (x, v) \<in> set (tbl (db s)) \<longleftrightarrow> data s x = Some v"
  by (simp add: data_map_def sorted_keys_map_of)

text \<open>Every entry of the block of a set is a member.\<close>

lemma zblock_entry:
  assumes "zset_inv s" "length n \<le> 255" "(zblock n @ r, v) \<in> set (tbl (db s))"
  obtains x where "r = zpos x" "member_ok n (snd x)" "zset_map s n (snd x) = Some (fst x)"
proof -
  have srt: "sorted_keys (tbl (db s))" and ok: "zset_ok (data s)"
    using assms(1) by (simp_all add: zset_inv_def)
  have pre: "prefix [DT_ZSCORE] (zblock n @ r)" by (rule zblock_zscore [of n]) simp
  then have "\<not> is_log_key (zblock n @ r)" by (simp add: name_prefix_def)
  then have d: "data s (zblock n @ r) = Some v" using data_of_table [OF srt] assms(3) by simp
  obtain n' k sc where z: "zblock n @ r = encode_zscore_key n' k (str_i64 sc)" "member_ok n' k"
    using zset_okD(3) [OF ok d pre] by blast
  then have "n = n'" using zscore_prefix [OF assms(2), of n' k "str_i64 sc"]
    by (metis member_ok_def prefixI)
  with z have r: "r = zpos (sc, k)" by (simp add: encode_zscore_zpos)
  have "data s (encode_zset_key n k) = Some (str_i64 sc)"
    using zset_okD(4) [OF ok assms(2), of k sc] d z(1) \<open>n = n'\<close> by simp
  then have "zset_map s n k = Some sc"
    using assms(2) by (simp add: zset_map_def str_to_int64_str_i64)
  with r z(2) \<open>n = n'\<close> show thesis using that [of "(sc, k)"] by simp
qed

lemma zset_entries_mem:
  assumes "zset_inv s" "length n \<le> 255"
  shows "(v, k) \<in> set (zset_entries (tbl (db s)) n) \<longleftrightarrow> zset_map s n k = Some v"
proof
  assume "(v, k) \<in> set (zset_entries (tbl (db s)) n)"
  then obtain r u where "(zblock n @ r, u) \<in> set (tbl (db s))" "zmember r = (v, k)"
    by (auto simp: zset_entries_def block_entries_mem)
  with zblock_entry [OF assms] show "zset_map s n k = Some v" by (metis fst_conv snd_conv zmember_zpos)
next
  assume m: "zset_map s n k = Some v"
  have srt: "sorted_keys (tbl (db s))" and ok: "zset_ok (data s)"
    using assms(1) by (simp_all add: zset_inv_def)
  have "data s (encode_zset_key n k) = Some (str_i64 v)"
    using zset_map_stored [OF ok assms(2), of k] m by simp
  then obtain u where "data s (encode_zscore_key n k (str_i64 v)) = Some u"
    using zset_okD(4) [OF ok assms(2), of k v] by auto
  then have "(zblock n @ zpos (v, k), u) \<in> set (tbl (db s))"
    using data_of_table [OF srt key_not_log(6), of n k "str_i64 v" u] by (simp add: encode_zscore_zpos)
  then have "zmember (zpos (v, k)) \<in> (\<lambda>e. zmember (fst e)) ` set (block_entries (zblock n) (tbl (db s)))"
    by (force simp flip: block_entries_mem)
  then show "(v, k) \<in> set (zset_entries (tbl (db s)) n)" by (simp add: zset_entries_def)
qed

lemma zmember_block:
  assumes "zset_inv s" "length n \<le> 255" "e \<in> set (block_entries (zblock n) (tbl (db s)))"
  shows "zpos (zmember (fst e)) = fst e"
proof -
  obtain r v where e: "e = (r, v)" by fastforce
  then have "(zblock n @ r, v) \<in> set (tbl (db s))" using assms(3) by (simp add: block_entries_mem)
  from zblock_entry [OF assms(1,2) this] e show ?thesis by (metis fst_conv zmember_zpos)
qed

lemma zset_entries_sorted:
  assumes "zset_inv s" "length n \<le> 255"
  shows "sorted_wrt zless (zset_entries (tbl (db s)) n)"
proof -
  have "sorted_keys (block_entries (zblock n) (tbl (db s)))"
    using assms(1) by (simp add: zset_inv_def sorted_block_entries)
  then have "sorted_wrt (\<lambda>e f. fst e < fst f) (block_entries (zblock n) (tbl (db s)))"
    by (simp add: sorted_keys_def sorted_wrt_map)
  then have "sorted_wrt (\<lambda>e f. zless (zmember (fst e)) (zmember (fst f)))
      (block_entries (zblock n) (tbl (db s)))"
    by (rule sorted_wrt_mono_rel [rotated]) (metis zmember_block [OF assms] zpos_less)
  then show ?thesis by (simp add: zset_entries_def sorted_wrt_map)
qed

text \<open>The members of a set with positions in an interval, through the table.\<close>

lemma zset_entries_filter:
  assumes "zset_inv s" "length n \<le> 255"
  shows "map (\<lambda>e. zmember (fst e)) (filter (\<lambda>e. P (fst e)) (block_entries (zblock n) (tbl (db s)))) =
    filter (\<lambda>x. P (zpos x)) (zset_entries (tbl (db s)) n)"
proof -
  have "map f (filter Q es) = filter R (map f es)"
    if "\<And>e. e \<in> set es \<Longrightarrow> Q e = R (f e)" for f :: "bytes \<times> bytes \<Rightarrow> i64 \<times> bytes" and Q R es
    using that by (induction es) auto
  then show ?thesis
    unfolding zset_entries_def by (metis (no_types, lifting) zmember_block [OF assms])
qed

section \<open>Iterators over a set\<close>

text \<open>An iterator with the members \<open>xs\<close> still to come, in this order.\<close>

definition zentry :: "bytes \<times> bytes \<Rightarrow> i64 \<times> bytes \<Rightarrow> bool" where
  "zentry e x \<longleftrightarrow> key_type (fst e) = DT_ZSCORE \<and>
     (\<exists>n. decode_zscore_key (fst e) = Some (n, snd x, str_i64 (fst x)))"

definition zyields :: "ziter \<Rightarrow> (i64 \<times> bytes) list \<Rightarrow> bool" where
  "zyields z xs \<longleftrightarrow> iter_ok (zit z) \<and> list_all2 zentry (upcoming (zit z)) xs"

lemma zyields_Nil:
  assumes "zyields z []"
  obtains z' where "ziter_next z = (False, z')" "zyields z' []"
proof -
  have up: "iter_ok (zit z)" "upcoming (zit z) = []" using assms by (simp_all add: zyields_def)
  obtain i where "iter_next (zit z) = (False, i)" "upcoming i = []" "iter_ok i"
    using up by (rule iter_next_Nil)
  then have "ziter_next z = (False, z\<lparr>zit := i\<rparr>)" "zyields (z\<lparr>zit := i\<rparr>) []"
    by (subst ziter_next.simps, simp) (simp add: zyields_def \<open>upcoming i = []\<close> \<open>iter_ok i\<close>)
  then show thesis by (rule that)
qed

lemma zyields_Cons:
  assumes "zyields z (x # xs)"
  obtains z' where "ziter_next z = (True, z')" "zkey z' = snd x" "zscore z' = str_i64 (fst x)"
    "zyields z' xs"
proof -
  obtain e es where up: "upcoming (zit z) = e # es" "zentry e x" "list_all2 zentry es xs"
    using assms by (auto simp: zyields_def list_all2_Cons2)
  have "iter_ok (zit z)" using assms by (simp add: zyields_def)
  then obtain i where i: "iter_next (zit z) = (True, i)" "entry i = e" "upcoming i = es" "iter_ok i"
    using up(1) by (rule iter_next_Cons)
  obtain n where n: "decode_zscore_key (iter_key i) = Some (n, snd x, str_i64 (fst x))"
    "key_type (iter_key i) = DT_ZSCORE"
    using up(2) i(2) by (auto simp: zentry_def entry_def)
  let ?z = "z\<lparr>zit := i, zkey := snd x, zscore := str_i64 (fst x)\<rparr>"
  have "ziter_next z = (True, ?z)" using i(1) n by (subst ziter_next.simps) simp
  moreover have "zyields ?z xs" using i(3,4) up(3) by (simp add: zyields_def)
  ultimately show thesis using that by simp
qed

lemma zyields_skip: "zyields z xs \<Longrightarrow> zyields (snd (ziter_skip m z)) (drop m xs)"
proof (induction m arbitrary: z xs)
  case (Suc m)
  show ?case
  proof (cases xs)
    case Nil
    with Suc.prems obtain z' where "ziter_next z = (False, z')" "zyields z' []"
      using zyields_Nil by blast
    with Nil show ?thesis by simp
  next
    case (Cons x ys)
    with Suc.prems obtain z' where "ziter_next z = (True, z')" "zyields z' ys"
      using zyields_Cons by blast
    with Cons Suc.IH show ?thesis by simp
  qed
qed simp

definition ziter_items :: "ziter \<Rightarrow> (bytes \<times> bytes) list" where
  "ziter_items z = drain (unat (limit (zit z))) ziter_next (\<lambda>z. (zkey z, zscore z)) z"

definition zshow :: "i64 \<times> bytes \<Rightarrow> bytes \<times> bytes" where
  "zshow x = (snd x, str_i64 (fst x))"

lemma zyields_items:
  assumes "zyields z xs"
  shows "ziter_items z = map zshow xs"
proof -
  have "drain m ziter_next (\<lambda>z. (zkey z, zscore z)) z = map zshow xs"
    if "zyields z xs" "length xs \<le> m" for m z xs
    using that
  proof (induction m arbitrary: z xs)
    case (Suc m)
    show ?case
    proof (cases xs)
      case Nil
      with Suc.prems(1) obtain z' where "ziter_next z = (False, z')" using zyields_Nil by metis
      with Nil show ?thesis by simp
    next
      case (Cons x ys)
      with Suc.prems(1) obtain z' where "ziter_next z = (True, z')" "zkey z' = snd x"
        "zscore z' = str_i64 (fst x)" "zyields z' ys" using zyields_Cons by metis
      with Suc Cons show ?thesis by (simp add: zshow_def)
    qed
  qed simp
  moreover have "length xs \<le> unat (limit (zit z))"
  proof -
    have "length xs = length (upcoming (zit z))"
      using assms by (auto simp: zyields_def dest: list_all2_lengthD)
    then show ?thesis by (simp add: upcoming_def)
  qed
  ultimately show ?thesis using assms by (simp add: ziter_items_def)
qed

lemma rank_loop_index:
  "zyields z xs \<Longrightarrow> rank_loop key z r =
     (if key \<in> snd ` set xs then r + of_nat (length (takeWhile (\<lambda>x. snd x \<noteq> key) xs)) else - 1)"
proof (induction xs arbitrary: z r)
  case Nil
  then obtain z' where "ziter_next z = (False, z')" using zyields_Nil by metis
  then show ?case by (subst rank_loop.simps) simp
next
  case (Cons x xs)
  obtain z' where "ziter_next z = (True, z')" "zkey z' = snd x" "zyields z' xs"
    using Cons.prems zyields_Cons by metis
  then show ?case using Cons.IH [of z' "r + 1"] by (subst rank_loop.simps) (auto simp: ac_simps)
qed


subsection \<open>The ranges of the iterators\<close>

text \<open>The two literals are the least and the greatest score.\<close>

definition score_digits :: "u8 \<Rightarrow> bytes" where
  "score_digits d = [57,50,50,51,51,55,50,48,51,54,56,53,52,55,55,53,56,48,d]"

lemma score_digits:
  assumes "d = 55 \<or> d = 56"
  shows "strto_scan (45 # score_digits d) = (True, 9223372036854775752 + unat d, 20)"
    and "strto_scan (43 # score_digits d) = (False, 9223372036854775752 + unat d, 20)"
proof -
  have "\<forall>c \<in> set (score_digits d). isdigit c" "score_digits d \<noteq> []"
    using assms by (auto simp: score_digits_def isdigit_def)
  moreover have "dec_val (score_digits d) = 9223372036854775752 + unat d" "length (score_digits d) = 19"
    using assms by (auto simp: score_digits_def dec_val_def)
  ultimately show "strto_scan (45 # score_digits d) = (True, 9223372036854775752 + unat d, 20)"
    "strto_scan (43 # score_digits d) = (False, 9223372036854775752 + unat d, 20)"
    by (simp_all add: strto_scan_digits)
qed

lemma score_limits: "bytes_Int64 SSDB_SCORE_MIN = 9223372036854775808"
    "bytes_Int64 SSDB_SCORE_MAX = 9223372036854775807"
proof -
  have e: "SSDB_SCORE_MIN = 45 # score_digits 56" "SSDB_SCORE_MAX = 43 # score_digits 55"
    by (simp_all add: SSDB_SCORE_MIN_def SSDB_SCORE_MAX_def lit_def score_digits_def of_char_def)
  show "bytes_Int64 SSDB_SCORE_MIN = 9223372036854775808"
    "bytes_Int64 SSDB_SCORE_MAX = 9223372036854775807"
    unfolding e bytes_Int64_def str_to_int64_def strtoll_def
    by (simp_all add: score_digits int64_min_def int64_max_def)
qed

text \<open>The bounds of a range, with the defaults of \<open>ziterator\<close> for empty arguments.\<close>

definition zstart :: "direction \<Rightarrow> bytes \<Rightarrow> bytes \<Rightarrow> i64 \<times> bytes" where
  "zstart d key score =
     (case d of
        FORWARD \<Rightarrow> (if score = [] then 9223372036854775808 else bytes_Int64 score, key)
      | BACKWARD \<Rightarrow>
          if score = [] then (9223372036854775807, key)
          else (bytes_Int64 score, if key = [] then [255] else key))"

definition zend :: "direction \<Rightarrow> bytes \<Rightarrow> i64 \<times> bytes" where
  "zend d score =
     (case d of
        FORWARD \<Rightarrow> (if score = [] then 9223372036854775807 else bytes_Int64 score, [255])
      | BACKWARD \<Rightarrow> (if score = [] then 9223372036854775808 else bytes_Int64 score, []))"

text \<open>The members a scan passes: after the start, not past the end, in the order of the scan.\<close>

definition zpass :: "direction \<Rightarrow> i64 \<times> bytes \<Rightarrow> i64 \<times> bytes \<Rightarrow> (i64 \<times> bytes) list \<Rightarrow> (i64 \<times> bytes) list" where
  "zpass d a b xs =
     (case d of
        FORWARD \<Rightarrow> filter (\<lambda>x. zless a x \<and> zle x b) xs
      | BACKWARD \<Rightarrow> rev (filter (\<lambda>x. zless x a \<and> zle b x) xs))"

lemma ziterator_ranges:
  "ziterator s n key ss se c FORWARD =
     ziter_new (ssdb_iterator s (zblock n @ zpos (zstart FORWARD key ss)) (zblock n @ zpos (zend FORWARD se)) c) n"
  "ziterator s n key ss se c BACKWARD =
     ziter_new (ssdb_rev_iterator s (zblock n @ zpos (zstart BACKWARD key ss)) (zblock n @ zpos (zend BACKWARD se)) c) n"
  by (simp_all add: ziterator_def zstart_def zend_def encode_zscore_zpos score_limits Let_def
      del: append_assoc)

lemma zentry_block:
  assumes "zset_inv s" "length n \<le> 255" "e \<in> set (tbl (db s))" "prefix (zblock n) (fst e)"
  shows "zentry e (zmember (drop (length (zblock n)) (fst e)))"
proof -
  obtain r where r: "fst e = zblock n @ r" using assms(4) by (auto simp: prefix_def)
  then have "(zblock n @ r, snd e) \<in> set (tbl (db s))" using assms(3) by (metis prod.collapse)
  then obtain x where x: "r = zpos x" using zblock_entry [OF assms(1,2)] by blast
  have "fst e = encode_zscore_key n (snd x) (str_i64 (fst x))"
    by (simp add: r x encode_zscore_zpos)
  moreover have "decode_zscore_key (encode_zscore_key n (snd x) (str_i64 (fst x))) =
      Some (n, snd x, str_i64 (fst x))"
    using zscore_key.dec_enc [of "(n, snd x, str_i64 (fst x))"] assms(2) by auto
  moreover have "key_type (encode_zscore_key n (snd x) (str_i64 (fst x))) = DT_ZSCORE"
    by (simp add: key_type_prefix)
  moreover have "zmember (drop (length (zblock n)) (fst e)) = x" by (simp add: r x)
  ultimately show ?thesis unfolding zentry_def by metis
qed

lemma zyields_range:
  assumes "zset_inv s" "length n \<le> 255" "iter_ok i" "upcoming i = take c es"
    and "set es \<subseteq> set (tbl (db s))" "\<forall>e \<in> set es. prefix (zblock n) (fst e)"
  shows "zyields (ziter_new i n) (take c (map (\<lambda>e. zmember (fst e)) (block_entries (zblock n) es)))"
proof -
  have "filter (\<lambda>e. prefix (zblock n) (fst e)) es = es" using assms(6) by (simp add: filter_id_conv)
  then have "map (\<lambda>e. zmember (fst e)) (block_entries (zblock n) es) =
      map (\<lambda>e. zmember (drop (length (zblock n)) (fst e))) es"
    by (simp add: block_entries_def)
  moreover have "list_all2 zentry es (map (\<lambda>e. zmember (drop (length (zblock n)) (fst e))) es)"
    unfolding list_all2_map2
    by (rule list.rel_refl_strong) (use assms zentry_block in blast)
  ultimately show ?thesis
    using assms(3,4) by (simp add: zyields_def ziter_new_def list_all2_takeI)
qed


lemma zrange_prefix:
  assumes "p @ a \<le> x" "x \<le> p @ b"
  shows "prefix p (x :: bytes)"
  using prefix_interval [of p "p @ a" "p @ b" x] assms by simp

lemma range_asc_zpos:
  fixes a b :: "i64 \<times> bytes"
  assumes "zset_inv s" "length n \<le> 255"
  defines "es \<equiv> range_asc (tbl (db s)) (zblock n @ zpos a) (zblock n @ zpos b)"
  shows "set es \<subseteq> set (tbl (db s))" "\<forall>e \<in> set es. prefix (zblock n) (fst e)"
    "map (\<lambda>e. zmember (fst e)) (block_entries (zblock n) es) =
       zpass FORWARD a b (zset_entries (tbl (db s)) n)"
proof -
  show "set es \<subseteq> set (tbl (db s))" by (auto simp: es_def range_asc_def)
  show "\<forall>e \<in> set es. prefix (zblock n) (fst e)"
    by (auto simp: es_def range_asc_def in_bound_def intro: zrange_prefix less_imp_le)
  have "block_entries (zblock n) es =
      filter (\<lambda>e. zpos a < fst e \<and> fst e \<le> zpos b) (block_entries (zblock n) (tbl (db s)))"
    using block_entries_asc [of "zblock n" "tbl (db s)" "zpos a" "zpos b"] by (simp add: es_def)
  then show "map (\<lambda>e. zmember (fst e)) (block_entries (zblock n) es) =
      zpass FORWARD a b (zset_entries (tbl (db s)) n)"
    using zset_entries_filter [OF assms(1,2), of "\<lambda>k. zpos a < k \<and> k \<le> zpos b"]
    by (simp add: zpass_def zpos_less zpos_le)
qed

lemma range_desc_zpos:
  fixes a b :: "i64 \<times> bytes"
  assumes "zset_inv s" "length n \<le> 255"
  defines "es \<equiv> range_desc (tbl (db s)) (zblock n @ zpos a) (zblock n @ zpos b)"
  shows "set es \<subseteq> set (tbl (db s))" "\<forall>e \<in> set es. prefix (zblock n) (fst e)"
    "map (\<lambda>e. zmember (fst e)) (block_entries (zblock n) es) =
       zpass BACKWARD a b (zset_entries (tbl (db s)) n)"
proof -
  show "set es \<subseteq> set (tbl (db s))" by (auto simp: es_def range_desc_def)
  show "\<forall>e \<in> set es. prefix (zblock n) (fst e)"
    by (auto simp: es_def range_desc_def in_bound_def intro: zrange_prefix less_imp_le)
  have "block_entries (zblock n) es =
      rev (filter (\<lambda>e. fst e < zpos a \<and> zpos b \<le> fst e) (block_entries (zblock n) (tbl (db s))))"
    using block_entries_desc [of "zblock n" "tbl (db s)" "zpos a" "zpos b"] by (simp add: es_def)
  then show "map (\<lambda>e. zmember (fst e)) (block_entries (zblock n) es) =
      zpass BACKWARD a b (zset_entries (tbl (db s)) n)"
    using zset_entries_filter [OF assms(1,2), of "\<lambda>k. k < zpos a \<and> zpos b \<le> k"]
    by (simp add: zpass_def zpos_less zpos_le rev_map [symmetric])
qed

text \<open>What the iterator over a set has to yield.\<close>

lemma ziterator_yields:
  assumes "zset_inv s" "length n \<le> 255"
  shows "zyields (ziterator s n key ss se c d)
    (take (unat c) (zpass d (zstart d key ss) (zend d se) (zset_entries (tbl (db s)) n)))"
proof -
  have srt: "sorted_keys (tbl (db s))" using assms(1) by (simp add: zset_inv_def)
  show ?thesis
  proof (cases d)
    case FORWARD
    show ?thesis
      unfolding FORWARD ziterator_ranges
        range_asc_zpos(3) [OF assms, symmetric]
      by (rule zyields_range [OF assms upcoming_iterator [OF srt] range_asc_zpos(1,2) [OF assms]])
  next
    case BACKWARD
    show ?thesis
      unfolding BACKWARD ziterator_ranges
        range_desc_zpos(3) [OF assms, symmetric]
      by (rule zyields_range [OF assms upcoming_rev_iterator [OF srt] range_desc_zpos(1,2) [OF assms]])
  qed
qed

section \<open>Scans, ranges and ranks\<close>

text \<open>
  The abstract view of a set: its members in the order of their scores as signed numbers, members
  with one score in the order of their keys.
\<close>

definition zset_listing :: "(bytes \<rightharpoonup> i64) \<Rightarrow> (i64 \<times> bytes) list \<Rightarrow> bool" where
  "zset_listing Z xs \<longleftrightarrow> sorted_wrt zless xs \<and> (\<forall>v k. (v, k) \<in> set xs \<longleftrightarrow> Z k = Some v)"

lemma zset_listing_entries:
  "zset_inv s \<Longrightarrow> length n \<le> 255 \<Longrightarrow> zset_listing (zset_map s n) (zset_entries (tbl (db s)) n)"
  by (simp add: zset_listing_def zset_entries_sorted zset_entries_mem)

lemma zset_listing_unique:
  assumes "zset_listing Z xs" "zset_listing Z ys"
  shows "xs = ys"
proof -
  have srt: "sorted_wrt (<) (map zpos zs)" if "zset_listing Z zs" for zs
    using that by (simp add: zset_listing_def sorted_wrt_map zpos_less)
  have "set xs = set ys" using assms by (auto simp: zset_listing_def)
  then have "map zpos xs = map zpos ys"
    using srt assms by (intro strict_sorted_equal) (simp_all add: strict_sorted_iff)
  then show ?thesis by (rule map_injective) (simp add: inj_def zpos_inject)
qed

lemma zless_order: "\<not> zless x x" "zless x y \<Longrightarrow> \<not> zless y x"
  by (auto simp: zless_def)

lemma zset_listing_distinct:
  assumes "zset_listing Z xs"
  shows "distinct xs" "inj_on snd (set xs)"
proof -
  have "sorted_wrt (<) (map zpos xs)"
    using assms by (simp add: zset_listing_def sorted_wrt_map zpos_less)
  then show "distinct xs" by (auto simp: strict_sorted_iff distinct_map)
  show "inj_on snd (set xs)"
    using assms unfolding zset_listing_def inj_on_def by (metis option.inject prod.collapse)
qed

text \<open>What the scans without bounds reach: the ends of the ranges are not the ends of the set.\<close>

definition zreach :: "direction \<Rightarrow> (i64 \<times> bytes) list \<Rightarrow> (i64 \<times> bytes) list" where
  "zreach d xs =
     (case d of
        FORWARD \<Rightarrow> filter (\<lambda>x. fst x = 9223372036854775807 \<longrightarrow> snd x \<le> [255]) xs
      | BACKWARD \<Rightarrow> rev (filter (\<lambda>x. fst x \<noteq> 9223372036854775807) xs))"

lemma sint_less_extremes:
  "sint (v :: i64) < 9223372036854775807 \<longleftrightarrow> v \<noteq> 9223372036854775807"
  "- 9223372036854775808 < sint v \<longleftrightarrow> v \<noteq> 9223372036854775808"
  "\<not> 9223372036854775807 < sint v"
  using sint64_bounds [of v] signed_word_eqI [of v 9223372036854775807]
    signed_word_eqI [of v 9223372036854775808]
  by (auto simp: int64_min_def int64_max_def order.order_iff_strict)

lemma zset_entries_keys:
  assumes "zset_inv s" "length n \<le> 255" "x \<in> set (zset_entries (tbl (db s)) n)"
  shows "snd x \<noteq> []"
proof -
  obtain r v where "(zblock n @ r, v) \<in> set (tbl (db s))" "zmember r = x"
    using assms(3) by (auto simp: zset_entries_def block_entries_mem)
  with zblock_entry [OF assms(1,2)] show ?thesis by (metis member_ok_def zmember_zpos)
qed

lemma zpass_all:
  assumes "zset_inv s" "length n \<le> 255"
  shows "zpass d (zstart d [] []) (zend d []) (zset_entries (tbl (db s)) n) =
    zreach d (zset_entries (tbl (db s)) n)"
proof (cases d)
  case FORWARD
  have "zless (zstart FORWARD [] []) x \<and> zle x (zend FORWARD []) \<longleftrightarrow>
      (fst x = 9223372036854775807 \<longrightarrow> snd x \<le> [255])"
    if "x \<in> set (zset_entries (tbl (db s)) n)" for x
    using zset_entries_keys [OF assms that]
    by (auto simp: zless_def zle_def zstart_def zend_def sint_less_extremes neq_Nil_conv)
  then show ?thesis unfolding FORWARD zpass_def zreach_def by (simp cong: filter_cong)
next
  case BACKWARD
  have "zless x (zstart BACKWARD [] []) \<and> zle (zend BACKWARD []) x \<longleftrightarrow> fst x \<noteq> 9223372036854775807" for x
    by (auto simp: zless_def zle_def zstart_def zend_def sint_less_extremes)
  then show ?thesis unfolding BACKWARD zpass_def zreach_def by simp
qed

lemma ziterator_all:
  "zset_inv s \<Longrightarrow> length n \<le> 255 \<Longrightarrow>
     zyields (ziterator s n [] [] [] c d) (take (unat c) (zreach d (zset_entries (tbl (db s)) n)))"
  using ziterator_yields [of s n "[]" "[]" "[]" c d] by (simp add: zpass_all)

text \<open>The position of a member.\<close>

lemma takeWhile_before:
  assumes "sorted_wrt R xs" "\<And>x y. R x y \<Longrightarrow> \<not> R y x" "inj_on snd (set xs)" "(v, k) \<in> set xs"
  shows "takeWhile (\<lambda>x. snd x \<noteq> k) xs = filter (\<lambda>x. R x (v, k)) xs"
  using assms
proof (induction xs)
  case (Cons x xs)
  show ?case
  proof (cases "snd x = k")
    case True
    with Cons.prems(3,4) have x: "x = (v, k)" by (auto simp: inj_on_def)
    with Cons.prems(1,2) have "\<not> R y (v, k)" if "y \<in> set (x # xs)" for y
      using that by (metis set_ConsD sorted_wrt.simps(2))
    with True show ?thesis by (simp add: filter_empty_conv)
  next
    case False
    with Cons.prems(4) have m: "(v, k) \<in> set xs" by auto
    with Cons.prems(1) have "R x (v, k)" by simp
    moreover have "takeWhile (\<lambda>x. snd x \<noteq> k) xs = filter (\<lambda>x. R x (v, k)) xs"
      by (rule Cons.IH) (use Cons.prems m in \<open>auto simp: inj_on_def\<close>)
    ultimately show ?thesis using False by simp
  qed
qed simp

lemma rank_found:
  assumes z: "zyields z (take 2147483647 xs)" "length xs \<le> 2147483647"
    and R: "sorted_wrt R xs" "\<And>x y. R x y \<Longrightarrow> \<not> R y x"
    and d: "inj_on snd (set xs)" "distinct xs" and k: "(v, k) \<in> set xs"
  shows "sint (rank_loop k z 0) = int (card {x \<in> set xs. R x (v, k)})"
proof -
  have "k \<in> snd ` set xs" using k by force
  then have "rank_loop k z 0 = of_nat (length (filter (\<lambda>x. R x (v, k)) xs))"
    using z rank_loop_index [of z xs k 0] takeWhile_before [OF R d(1) k] by simp
  moreover have "length (filter (\<lambda>x. R x (v, k)) xs) < 2 ^ 63"
    by (rule le_less_trans [OF length_filter_le]) (use z(2) in simp)
  moreover have "length (filter (\<lambda>x. R x (v, k)) xs) = card {x \<in> set xs. R x (v, k)}"
    using distinct_card [of "filter (\<lambda>x. R x (v, k)) xs"] d(2) by simp
  ultimately show ?thesis by (simp add: sint_of_nat_small)
qed

lemma rank_missing:
  assumes "zyields z (take 2147483647 xs)" "length xs \<le> 2147483647" "k \<notin> snd ` set xs"
  shows "sint (rank_loop k z 0) = -1"
  using assms rank_loop_index [of z xs k 0] by simp

lemma zreach_sorted:
  assumes "zset_listing Z xs"
  shows "sorted_wrt zless (zreach FORWARD xs)" "sorted_wrt (\<lambda>x y. zless y x) (zreach BACKWARD xs)"
    "distinct (zreach d xs)" "inj_on snd (set (zreach d xs))" "length (zreach d xs) \<le> length xs"
    "set (zreach d xs) \<subseteq> set xs"
proof -
  have srt: "sorted_wrt zless xs" using assms by (simp add: zset_listing_def)
  show "sorted_wrt zless (zreach FORWARD xs)" "sorted_wrt (\<lambda>x y. zless y x) (zreach BACKWARD xs)"
    using srt by (simp_all add: zreach_def sorted_wrt_filter sorted_wrt_rev)
  show sub: "set (zreach d xs) \<subseteq> set xs" by (cases d) (auto simp: zreach_def)
  show "distinct (zreach d xs)" "length (zreach d xs) \<le> length xs"
    using zset_listing_distinct(1) [OF assms] by (cases d; simp add: zreach_def)+
  show "inj_on snd (set (zreach d xs))"
    by (rule inj_on_subset [OF zset_listing_distinct(2) [OF assms] sub])
qed

lemma zset_entries_count:
  assumes "zset_inv s" "length n \<le> 255"
  shows "length (zset_entries (tbl (db s)) n) = zset_count s n"
proof -
  note l = zset_listing_entries [OF assms]
  have "dom (zset_map s n) = snd ` set (zset_entries (tbl (db s)) n)"
    using l by (force simp: zset_listing_def dom_def)
  then show ?thesis
    using zset_listing_distinct [OF l] by (simp add: zset_count_def card_image distinct_card)
qed

lemma zrank_found:
  assumes "zset_inv s" "length n \<le> 255" "zset_count s n \<le> 2147483647" "zset_map s n k = Some v"
  shows "\<not> (v = 9223372036854775807 \<and> [255] < k) \<Longrightarrow>
      zrank s n k = int (card {y. \<exists>w. zset_map s n y = Some w \<and> zless (w, y) (v, k)})"
    and "v \<noteq> 9223372036854775807 \<Longrightarrow>
      zrrank s n k = int (card {y. \<exists>w. zset_map s n y = Some w \<and> zless (v, k) (w, y) \<and>
        w \<noteq> 9223372036854775807})"
proof -
  let ?xs = "zset_entries (tbl (db s)) n"
  note l = zset_listing_entries [OF assms(1,2)]
  note r = zreach_sorted [OF l]
  have mem: "(w, y) \<in> set ?xs \<longleftrightarrow> zset_map s n y = Some w" for w y
    using l by (simp add: zset_listing_def)
  have len: "length (zreach d ?xs) \<le> 2147483647" for d
    using r(5) [of d] assms(3) zset_entries_count [OF assms(1,2)] by simp
  have it: "zyields (ziterator s n [] [] [] 2147483647 d) (take 2147483647 (zreach d ?xs))" for d
    using ziterator_all [OF assms(1,2), of 2147483647 d] by simp
  have card: "card {x \<in> A. P x} = card {y. \<exists>w. (w, y) \<in> A \<and> P (w, y)}"
    if "inj_on snd A" for A :: "(i64 \<times> bytes) set" and P
  proof -
    have "{y. \<exists>w. (w, y) \<in> A \<and> P (w, y)} = snd ` {x \<in> A. P x}" by force
    then show ?thesis using that by (auto intro: card_image [symmetric] inj_on_subset)
  qed
  show "zrank s n k = int (card {y. \<exists>w. zset_map s n y = Some w \<and> zless (w, y) (v, k)})"
    if "\<not> (v = 9223372036854775807 \<and> [255] < k)"
  proof -
    have m: "(v, k) \<in> set (zreach FORWARD ?xs)" using assms(4) that by (auto simp: zreach_def mem)
    have "zrank s n k = int (card {x \<in> set (zreach FORWARD ?xs). zless x (v, k)})"
      unfolding zrank_def by (rule rank_found [OF it len r(1) _ r(4,3) m]) (erule zless_order(2))
    also have "\<dots> = int (card {y. \<exists>w. (w, y) \<in> set (zreach FORWARD ?xs) \<and> zless (w, y) (v, k)})"
      by (simp add: card [OF r(4)])
    also have "{y. \<exists>w. (w, y) \<in> set (zreach FORWARD ?xs) \<and> zless (w, y) (v, k)} =
        {y. \<exists>w. zset_map s n y = Some w \<and> zless (w, y) (v, k)}"
      using that by (auto simp: zreach_def mem zless_def sint_less_extremes)
    finally show ?thesis .
  qed
  show "zrrank s n k = int (card {y. \<exists>w. zset_map s n y = Some w \<and> zless (v, k) (w, y) \<and>
      w \<noteq> 9223372036854775807})" if "v \<noteq> 9223372036854775807"
  proof -
    have m: "(v, k) \<in> set (zreach BACKWARD ?xs)" using assms(4) that by (auto simp: zreach_def mem)
    have "zrrank s n k = int (card {x \<in> set (zreach BACKWARD ?xs). zless (v, k) x})"
      unfolding zrrank_def by (rule rank_found [OF it len r(2) _ r(4,3) m]) (erule zless_order(2))
    also have "\<dots> = int (card {y. \<exists>w. (w, y) \<in> set (zreach BACKWARD ?xs) \<and> zless (v, k) (w, y)})"
      by (simp add: card [OF r(4)])
    also have "{y. \<exists>w. (w, y) \<in> set (zreach BACKWARD ?xs) \<and> zless (v, k) (w, y)} =
        {y. \<exists>w. zset_map s n y = Some w \<and> zless (v, k) (w, y) \<and> w \<noteq> 9223372036854775807}"
      by (auto simp: zreach_def mem)
    finally show ?thesis .
  qed
qed

lemma zrank_missing:
  assumes "zset_inv s" "length n \<le> 255" "zset_count s n \<le> 2147483647"
  shows "k \<notin> snd ` set (zreach FORWARD (zset_entries (tbl (db s)) n)) \<Longrightarrow> zrank s n k = -1"
    and "k \<notin> snd ` set (zreach BACKWARD (zset_entries (tbl (db s)) n)) \<Longrightarrow> zrrank s n k = -1"
proof -
  note r = zreach_sorted [OF zset_listing_entries [OF assms(1,2)]]
  have len: "length (zreach d (zset_entries (tbl (db s)) n)) \<le> 2147483647" for d
    using r(5) [of d] assms(3) zset_entries_count [OF assms(1,2)] by simp
  have it: "zyields (ziterator s n [] [] [] 2147483647 d)
      (take 2147483647 (zreach d (zset_entries (tbl (db s)) n)))" for d
    using ziterator_all [OF assms(1,2), of 2147483647 d] by simp
  show "k \<notin> snd ` set (zreach FORWARD (zset_entries (tbl (db s)) n)) \<Longrightarrow> zrank s n k = -1"
    "k \<notin> snd ` set (zreach BACKWARD (zset_entries (tbl (db s)) n)) \<Longrightarrow> zrrank s n k = -1"
    unfolding zrank_def zrrank_def by (rule rank_missing [OF it len]; assumption)+
qed

text \<open>A set with two members, for the examples.\<close>

definition two_zset :: ssdb where
  "two_zset = snd (run_session (zset_exec BT_SYNC) [ZIncr [1] [2] 7, ZIncr [1] [3] (- 4)] empty_ssdb)"

lemma zset_exec_reliably:
  assumes "zset_inv s" "reliable (db s)" "length (fst (zset_cmd_key c)) \<le> 255"
    "zset_count s (fst (zset_cmd_key c)) + 1 < 2 ^ 63"
  shows "zset_inv (snd (zset_exec lt c s))" "reliable (db (snd (zset_exec lt c s)))"
    "zset_map (snd (zset_exec lt c s)) = snd (zset_spec True c (zset_map s))"
proof -
  note rd = zset_readable_reliable [OF assms(2)]
  show "zset_inv (snd (zset_exec lt c s))" "reliable (db (snd (zset_exec lt c s)))"
    using zset_exec_spec(2) [OF assms(1) surjective_pairing assms(3) rd assms(4)]
      zset_exec_reliable [OF assms(2,1,3,4)] by simp_all
  show "zset_map (snd (zset_exec lt c s)) = snd (zset_spec True c (zset_map s))"
    using zset_exec_spec(1) [OF assms(1) surjective_pairing assms(3) rd assms(4), of lt] assms(2)
    by simp
qed

lemma two_zset_facts:
  "zset_inv two_zset" "reliable (db two_zset)" "zset_map two_zset [1] = [[2] \<mapsto> 7, [3] \<mapsto> - 4]"
proof -
  let ?c = "ZIncr [1] [2] 7" and ?d = "ZIncr [1] [3] (- 4)"
  let ?s1 = "snd (zset_exec BT_SYNC ?c empty_ssdb)"
  have "zset_inv ?s1" "reliable (db ?s1)" "zset_map ?s1 = snd (zset_spec True ?c (zset_map empty_ssdb))"
    by (rule zset_exec_reliably; simp add: zset_count_def)+
  then have 1: "zset_inv ?s1" "reliable (db ?s1)" "zset_map ?s1 [1] = [[2] \<mapsto> 7]"
    by (simp_all add: spec_write_def zincr_value_def del: zset_exec.simps)
  have two: "two_zset = snd (zset_exec BT_SYNC ?d ?s1)"
    by (simp add: two_zset_def case_prod_unfold Let_def del: zset_exec.simps)
  have "zset_inv two_zset" "reliable (db two_zset)" "zset_map two_zset = snd (zset_spec True ?d (zset_map ?s1))"
    unfolding two using 1 by (intro zset_exec_reliably; simp add: zset_count_def del: zset_exec.simps)+
  then show "zset_inv two_zset" "reliable (db two_zset)" "zset_map two_zset [1] = [[2] \<mapsto> 7, [3] \<mapsto> - 4]"
    using 1 by (simp_all add: spec_write_def zincr_value_def del: zset_exec.simps)
qed

lemma Ex_two_zset: "(\<exists>xs. zset_listing (zset_map two_zset [1]) xs \<and> P xs) \<longleftrightarrow> P [(- 4, [3]), (7, [2])]"
proof -
  have "zset_listing (zset_map two_zset [1]) [(- 4, [3]), (7, [2])]"
    by (auto simp: two_zset_facts zset_listing_def zless_def)
  then show ?thesis using zset_listing_unique by metis
qed

text \<open>
  C11: after any session of commands on a database that starts in order, and whichever of their writes
  fail, the two kinds of records of each sorted set agree: the records with the score in the key, read in database order, are the
  members in the order of their scores, each with the score \<open>zget\<close> answers, and \<open>zsize\<close> is
  their number. Reads must not fail (after a failed one \<open>zset\<close> can leave the old record ordered by score),
  names have at most 255 bytes, and the counters have room for the session.
\<close>

theorem zset_index_agrees:
  assumes "zset_inv s" "unreadable (db s) = {}"
    and "\<forall>c \<in> set cs. length (fst (zset_cmd_key c)) \<le> 255"
    and "\<forall>n. zset_count s n + length cs < 2 ^ 63" "length n \<le> 255"
    and "s' = snd (run_session (zset_exec lt) cs s)" "xs = zset_entries (tbl (db s')) n"
  shows "sorted_wrt zless xs \<and> zsize s' n = int (length xs) \<and>
    (\<forall>k. zget s' n k = (if k \<in> snd ` set xs then (1, Some (str_i64 (THE v. (v, k) \<in> set xs))) else (0, None)))"
proof (intro conjI allI)
  have inv: "zset_inv s'" and rel: "unreadable (db s') = {}"
    using zset_session.run_keeps [OF assms(1-4), of lt] by (simp_all add: assms(6))
  then have ok: "zset_ok (data s')" by (simp add: zset_inv_def)
  have l: "zset_listing (zset_map s' n) xs"
    unfolding assms(7) by (rule zset_listing_entries [OF inv assms(5)])
  then show "sorted_wrt zless xs" by (simp add: zset_listing_def)
  show "zsize s' n = int (length xs)"
    using zsize_count [OF ok _ assms(5)] rel zset_entries_count [OF inv assms(5)]
    by (simp add: assms(7))
  show "zget s' n k = (if k \<in> snd ` set xs then (1, Some (str_i64 (THE v. (v, k) \<in> set xs))) else (0, None))" for k
    using zget_map [OF _ assms(5) ok, of k] rel l
    by (cases "zset_map s' n k") (force simp: zset_listing_def zset_readable_def)+
qed

lemma zset_index_agrees_witness:
  "zsize two_zset [1] = int (length (zset_entries (tbl (db two_zset)) [1]))"
  using zset_index_agrees [of empty_ssdb "[ZIncr [1] [2] 7, ZIncr [1] [3] (- 4)]" "[1]" two_zset BT_SYNC]
  by (simp add: two_zset_def zset_count_def)

text \<open>
  \<open>zscan\<close> and \<open>zrscan\<close> yield, in order, the first \<open>limit\<close> members after the start position
  that are not past the end position. The start is the given key at the given score, at the
  key's own score when no score is given, and at the end of the order when neither is.
\<close>

theorem zscan_items:
  assumes "zset_inv s" "length n \<le> 255" "zset_readable s n key"
    and "score = (if key \<noteq> [] \<and> ss = [] then (case zset_map s n key of None \<Rightarrow> [] | Some v \<Rightarrow> str_i64 v) else ss)"
  shows "\<exists>xs. zset_listing (zset_map s n) xs \<and>
    ziter_items (zscan s n key ss se c) =
      map zshow (take (unat c) (zpass FORWARD (zstart FORWARD key score) (zend FORWARD se) xs)) \<and>
    ziter_items (zrscan s n key ss se c) =
      map zshow (take (unat c) (zpass BACKWARD (zstart BACKWARD key score) (zend BACKWARD se) xs))"
proof (intro exI conjI)
  show "zset_listing (zset_map s n) (zset_entries (tbl (db s)) n)"
    by (rule zset_listing_entries [OF assms(1,2)])
  have "zset_ok (data s)" using assms(1) by (simp add: zset_inv_def)
  from zget_map [OF assms(3,2) this]
  have "(if key \<noteq> [] \<and> ss = [] then (case snd (zget s n key) of None \<Rightarrow> [] | Some v \<Rightarrow> v) else ss) = score"
    by (simp add: assms(4) split: option.split)
  then show "ziter_items (zscan s n key ss se c) = map zshow (take (unat c)
        (zpass FORWARD (zstart FORWARD key score) (zend FORWARD se) (zset_entries (tbl (db s)) n)))"
    "ziter_items (zrscan s n key ss se c) = map zshow (take (unat c)
        (zpass BACKWARD (zstart BACKWARD key score) (zend BACKWARD se) (zset_entries (tbl (db s)) n)))"
    unfolding zscan_def zrscan_def Let_def
    by (simp_all only: zyields_items [OF ziterator_yields [OF assms(1,2)]])
qed

lemma zscan_items_witness:
  "ziter_items (zscan two_zset [1] [3] [] [] 10) = [([2], str_i64 7)] \<and>
   ziter_items (zrscan two_zset [1] [] [] [] 10) = [([2], str_i64 7), ([3], str_i64 (- 4))]"
proof -
  have "zset_inv two_zset" "length [1 :: u8] \<le> 255" "zset_readable two_zset [1] k" for k
    using two_zset_facts by (simp_all add: zset_readable_reliable)
  note app = zscan_items [OF this refl]
  show ?thesis
    using app [of "[3]" "[]" "[]" 10] app [of "[]" "[]" "[]" 10]
    unfolding Ex_two_zset
    by (simp add: two_zset_facts zpass_def zstart_def zend_def zless_def zle_def zshow_def)
qed

lemma range_limit:
  assumes "unat ofs + unat c < 2 ^ 64"
  shows "unat (if ofs + c > c then ofs + c else c :: u64) = unat ofs + unat c"
proof -
  have "unat (ofs + c) = unat ofs + unat c" using assms by (simp add: unat_plus_if')
  then show ?thesis by (auto simp: word_less_nat_alt)
qed

lemma ziter_skip_items:
  "zyields z xs \<Longrightarrow> ziter_items (snd (ziter_skip m z)) = map zshow (drop m xs)"
  by (rule zyields_items [OF zyields_skip])

text \<open>
  when offset and limit do not overflow, \<open>zrange\<close> yields the \<open>limit\<close> members from position
  \<open>offset\<close> on in ascending order, leaving out only those at the largest score whose key is
  greater than the one-byte key 255; \<open>zrrange\<close> yields them in descending order, but leaves out
  every member at the largest score.
\<close>

theorem zrange_items:
  assumes "zset_inv s" "length n \<le> 255" "unat ofs + unat c < 2 ^ 64"
  shows "\<exists>xs. zset_listing (zset_map s n) xs \<and>
    ziter_items (zrange s n ofs c) = map zshow (take (unat c) (drop (unat ofs) (zreach FORWARD xs))) \<and>
    ziter_items (zrrange s n ofs c) = map zshow (take (unat c) (drop (unat ofs) (zreach BACKWARD xs)))"
proof (intro exI conjI)
  show "zset_listing (zset_map s n) (zset_entries (tbl (db s)) n)"
    by (rule zset_listing_entries [OF assms(1,2)])
  have take: "drop (unat ofs) (take (unat (if ofs + c > c then ofs + c else c)) xs) =
      take (unat c) (drop (unat ofs) xs)" for xs :: "(i64 \<times> bytes) list"
    unfolding range_limit [OF assms(3)] by (simp add: drop_take)
  show "ziter_items (zrange s n ofs c) =
      map zshow (take (unat c) (drop (unat ofs) (zreach FORWARD (zset_entries (tbl (db s)) n))))"
    "ziter_items (zrrange s n ofs c) =
      map zshow (take (unat c) (drop (unat ofs) (zreach BACKWARD (zset_entries (tbl (db s)) n))))"
    unfolding zrange_def zrrange_def Let_def
    by (simp_all only: ziter_skip_items [OF ziterator_all [OF assms(1,2)]] take)
qed

lemma zrange_items_witness:
  "ziter_items (zrange two_zset [1] 1 5) = [([2], str_i64 7)] \<and>
   ziter_items (zrrange two_zset [1] 0 1) = [([2], str_i64 7)]"
proof -
  have "zset_inv two_zset" "length [1 :: u8] \<le> 255" using two_zset_facts by simp_all
  note app = zrange_items [OF this]
  show ?thesis
    using app [of 1 5] app [of 0 1] unfolding Ex_two_zset by (simp add: zreach_def zshow_def)
qed

text \<open>
  C22: in a set of at most 2147483647 members, \<open>zrank\<close> is the number of members before the key in
  the order of the set and \<open>zrrank\<close> the number after it, and both are -1 for a key that is not a
  member. At the largest score they fail: \<open>zrrank\<close> answers -1 for such a member and does not
  count it for others, and \<open>zrank\<close> answers -1 if moreover its key is greater than the one-byte key 255.
\<close>

theorem zrank_counts:
  assumes "zset_inv s" "length n \<le> 255" "zset_count s n \<le> 2147483647"
  shows "zrank s n k =
      (case zset_map s n k of
         None \<Rightarrow> -1
       | Some v \<Rightarrow>
           if v = 9223372036854775807 \<and> [255] < k then -1
           else int (card {y. \<exists>w. zset_map s n y = Some w \<and> zless (w, y) (v, k)})) \<and>
    zrrank s n k =
      (case zset_map s n k of
         None \<Rightarrow> -1
       | Some v \<Rightarrow>
           if v = 9223372036854775807 then -1
           else int (card {y. \<exists>w. zset_map s n y = Some w \<and> zless (v, k) (w, y) \<and>
             w \<noteq> 9223372036854775807}))"
proof -
  have mem: "(w, y) \<in> set (zset_entries (tbl (db s)) n) \<longleftrightarrow> zset_map s n y = Some w" for w y
    by (rule zset_entries_mem [OF assms(1,2)])
  show ?thesis
  proof (cases "zset_map s n k")
    case None
    then have "k \<notin> snd ` set (zreach d (zset_entries (tbl (db s)) n))" for d
      by (cases d) (auto simp: zreach_def mem)
    with None show ?thesis by (simp add: zrank_missing [OF assms])
  next
    case (Some v)
    have "v = 9223372036854775807 \<and> [255] < k \<Longrightarrow>
        k \<notin> snd ` set (zreach FORWARD (zset_entries (tbl (db s)) n))"
      "v = 9223372036854775807 \<Longrightarrow> k \<notin> snd ` set (zreach BACKWARD (zset_entries (tbl (db s)) n))"
      using Some by (auto simp: zreach_def mem)
    with Some show ?thesis
      using zrank_found [OF assms Some] zrank_missing [OF assms] by auto
  qed
qed

lemma zrank_counts_witness: "zrank two_zset [1] [9] = -1 \<and> zrank two_zset [1] [3] = 0"
proof -
  have "zset_inv two_zset" "length [1 :: u8] \<le> 255" "zset_count two_zset [1] \<le> 2147483647"
    using two_zset_facts by (simp_all add: zset_count_def)
  note app = zrank_counts [OF this]
  have "{y. \<exists>w. zset_map two_zset [1] y = Some w \<and> zless (w, y) (- 4, [3])} = {}"
    by (auto simp: two_zset_facts zless_def split: if_splits)
  with app [of "[9]"] app [of "[3]"] show ?thesis by (simp add: two_zset_facts)
qed

text \<open>
  \<open>zlist\<close> lists in order the names after \<open>name_s\<close> up to \<open>name_e\<close> that have a size record, and
  those are the names of the sorted sets that have a member.
\<close>

theorem zlist_names:
  assumes "zset_inv s"
  shows "zlist s a b c =
      take (unat c) (filter (\<lambda>x. a < x \<and> (b = [] \<or> x \<le> b)) (names_of DT_ZSIZE (tbl (db s)))) \<and>
    (\<forall>x. length x \<le> 255 \<longrightarrow>
       x \<in> set (names_of DT_ZSIZE (tbl (db s))) \<longleftrightarrow> zset_map s x \<noteq> Map.empty)"
proof
  have srt: "sorted_keys (tbl (db s))" and ok: "zset_ok (data s)"
    using assms by (simp_all add: zset_inv_def)
  have app: "encode_zsize_key x = [DT_ZSIZE] @ x" for x by (simp add: encode_zsize_key_def)
  show "zlist s a b c =
      take (unat c) (filter (\<lambda>x. a < x \<and> (b = [] \<or> x \<le> b)) (names_of DT_ZSIZE (tbl (db s))))"
    unfolding zlist_def Let_def app by (rule znames.names_asc [OF srt])
  have "x \<in> set (names_of DT_ZSIZE (tbl (db s))) \<longleftrightarrow> zset_map s x \<noteq> Map.empty"
    if x: "length x \<le> 255" for x
  proof -
    have "x \<in> set (names_of DT_ZSIZE (tbl (db s))) \<longleftrightarrow> data s (encode_zsize_key x) \<noteq> None"
      by (simp add: names_of_def domIff dom_map_of_conv_image_fst [symmetric] map_of_block_entries
          data_map_def app)
    also have "\<dots> \<longleftrightarrow> card (dom (zset_map s x)) \<noteq> 0"
      using sizes_okD(3) [OF zset_okD(1) [OF ok] x] zset_count_members [OF x, of s]
      by (simp add: zset_count_def size_record_def)
    also have "\<dots> \<longleftrightarrow> zset_map s x \<noteq> Map.empty"
      using zset_map_finite [OF ok, of x] by simp
    finally show ?thesis .
  qed
  then show "\<forall>x. length x \<le> 255 \<longrightarrow>
      x \<in> set (names_of DT_ZSIZE (tbl (db s))) \<longleftrightarrow> zset_map s x \<noteq> Map.empty" by blast
qed

lemma zlist_names_witness: "[1] \<in> set (names_of DT_ZSIZE (tbl (db two_zset))) \<and>
    zlist two_zset [] [] 0 = []"
  using zlist_names [OF two_zset_facts(1), of "[]" "[]" 0] two_zset_facts(3)
  by (auto simp: fun_eq_iff)

end
