(* ===== verification/T_queue.thy ===== *)
theory T_queue
  imports Containers
begin

text \<open>
  \<open>ssdb/ssdb/t_queue.cpp\<close> and \<open>t_queue.h\<close>: the queues. The items of a queue have consecutive
  sequence numbers; two records with reserved numbers hold the numbers of the first and the last
  item, and a record under another type byte the number of items. The operations are related to
  a family of lists, each with the position of its front.
\<close>

section \<open>Operations\<close>

definition QFRONT_SEQ :: u64 where [simp]: "QFRONT_SEQ = 2"
definition QBACK_SEQ :: u64 where [simp]: "QBACK_SEQ = 3"
definition QITEM_MIN_SEQ :: u64 where [simp]: "QITEM_MIN_SEQ = 10000"
definition QITEM_MAX_SEQ :: u64 where [simp]: "QITEM_MAX_SEQ = 9223372036854775807"
definition QITEM_SEQ_INIT :: u64 where "QITEM_SEQ_INIT = QITEM_MAX_SEQ div 2"

definition qget_by_seq :: "ldb \<Rightarrow> bytes \<Rightarrow> u64 \<Rightarrow> int \<times> bytes option" where
  "qget_by_seq d name seq =
     (case ldb_get d (encode_qitem_key name seq) of
        NotFound \<Rightarrow> (0, None)
      | GetError \<Rightarrow> (-1, None)
      | Found val \<Rightarrow> (1, Some val))"

definition qget_uint64 :: "ldb \<Rightarrow> bytes \<Rightarrow> u64 \<Rightarrow> int \<times> u64" where
  "qget_uint64 d name seq =
     (case qget_by_seq d name seq of
        (s, Some val) \<Rightarrow> if length val \<noteq> 8 then (-1, 0) else (s, load64 val)
      | (s, None) \<Rightarrow> (s, 0))"

definition qdel_one :: "bytes \<Rightarrow> u64 \<Rightarrow> ssdb \<Rightarrow> int \<times> ssdb" where
  "qdel_one name seq s = (0, bl_Delete (encode_qitem_key name seq) s)"

definition qset_one :: "bytes \<Rightarrow> u64 \<Rightarrow> bytes \<Rightarrow> ssdb \<Rightarrow> int \<times> ssdb" where
  "qset_one name seq item s =
     (if length name > SSDB_KEY_LEN_MAX then (-1, s)
      else (0, bl_Put (encode_qitem_key name seq) item s))"

definition qsize :: "ssdb \<Rightarrow> bytes \<Rightarrow> int" where
  "qsize s name =
     (case ldb_get (db s) (encode_qsize_key name) of
        NotFound \<Rightarrow> 0
      | GetError \<Rightarrow> -1
      | Found val \<Rightarrow> if length val \<noteq> 8 then -1 else sint (load64 val))"

definition incr_qsize :: "bytes \<Rightarrow> int \<Rightarrow> ssdb \<Rightarrow> int \<times> ssdb" where
  "incr_qsize name incr s =
     (let sz = qsize s name
      in if sz = -1 then (-1, s)
         else let sz = of_int sz + of_int incr :: i64
         in if sint sz \<le> 0
            then let s = bl_Delete (encode_qsize_key name) s;
                     s = snd (qdel_one name QFRONT_SEQ s);
                     s = snd (qdel_one name QBACK_SEQ s)
                 in (sint sz, s)
            else (sint sz, bl_Put (encode_qsize_key name) (mem64 sz) s))"

definition qfront :: "ssdb \<Rightarrow> bytes \<Rightarrow> int \<times> bytes option" where
  "qfront s name =
     (let (ret, seq) = qget_uint64 (db s) name QFRONT_SEQ
      in if ret = -1 then (-1, None) else if ret = 0 then (0, None)
         else qget_by_seq (db s) name seq)"

definition qback :: "ssdb \<Rightarrow> bytes \<Rightarrow> int \<times> bytes option" where
  "qback s name =
     (let (ret, seq) = qget_uint64 (db s) name QBACK_SEQ
      in if ret = -1 then (-1, None) else if ret = 0 then (0, None)
         else qget_by_seq (db s) name seq)"

definition qset_by_seq :: "bytes \<Rightarrow> u64 \<Rightarrow> bytes \<Rightarrow> u8 \<Rightarrow> ssdb \<Rightarrow> int \<times> ssdb" where
  "qset_by_seq name seq item log_type s =
     transaction (\<lambda>s.
       let sz = qsize s name
       in if sz = -1 then (-1, s)
          else let (ret, min_seq) = qget_uint64 (db s) name QFRONT_SEQ
          in if ret = -1 then (-1, s)
          else let max_seq = min_seq + of_int sz
          in if seq < min_seq \<or> seq > max_seq then (0, s)
          else let (ret, s) = qset_one name seq item s
          in if ret = -1 then (-1, s)
          else commit_ret 1 (add_log log_type BC_QSET (encode_qitem_key name seq) s)) s"

definition qset :: "bytes \<Rightarrow> i64 \<Rightarrow> bytes \<Rightarrow> u8 \<Rightarrow> ssdb \<Rightarrow> int \<times> ssdb" where
  "qset name index item log_type s =
     transaction (\<lambda>s.
       let sz = qsize s name
       in if sz = -1 then (-1, s)
          else if sint index \<ge> sz \<or> sint index < - sz then (0, s)
          else let (ret, seq) =
                 (if sint index \<ge> 0
                  then let (ret, seq) = qget_uint64 (db s) name QFRONT_SEQ in (ret, seq + index)
                  else let (ret, seq) = qget_uint64 (db s) name QBACK_SEQ in (ret, seq + (index + 1)))
          in if ret = -1 then (-1, s)
          else if ret = 0 then (0, s)
          else let (ret, s) = qset_one name seq item s
          in if ret = -1 then (-1, s)
          else commit_ret 1 (add_log log_type BC_QSET (encode_qitem_key name seq) s)) s"

text \<open>\<open>_qpush\<close> and \<open>_qpop\<close>, for both ends.\<close>

definition qpush_end :: "bytes \<Rightarrow> bytes \<Rightarrow> u64 \<Rightarrow> u8 \<Rightarrow> ssdb \<Rightarrow> int \<times> ssdb" where
  "qpush_end name item front_or_back_seq log_type s =
     transaction (\<lambda>s.
       let (ret, seq) = qget_uint64 (db s) name front_or_back_seq
       in if ret = -1 then (-1, s)
          else let (ret, seq, s) =
                 (if ret = 0
                  then let seq = QITEM_SEQ_INIT;
                           (ret, s) = qset_one name QFRONT_SEQ (mem64 seq) s
                       in if ret = -1 then (-1, seq, s)
                          else let (ret, s) = qset_one name QBACK_SEQ (mem64 seq) s in (ret, seq, s)
                  else let seq = seq + (if front_or_back_seq = QFRONT_SEQ then - 1 else 1);
                           (ret, s) = qset_one name front_or_back_seq (mem64 seq) s
                       in (ret, seq, s))
          in if ret = -1 then (-1, s)
          else if seq \<le> QITEM_MIN_SEQ \<or> seq \<ge> QITEM_MAX_SEQ then (-1, s)
          else let (ret, s) = qset_one name seq item s
          in if ret = -1 then (-1, s)
          else let buf = encode_qitem_key name seq;
                   s = (if front_or_back_seq = QFRONT_SEQ then add_log log_type BC_QPUSH_FRONT buf s
                        else add_log log_type BC_QPUSH_BACK buf s);
                   (sz, s) = incr_qsize name 1 s
          in if sz = -1 then (-1, s) else commit_ret sz s) s"

definition qpush_front :: "bytes \<Rightarrow> bytes \<Rightarrow> u8 \<Rightarrow> ssdb \<Rightarrow> int \<times> ssdb" where
  "qpush_front name item log_type s = qpush_end name item QFRONT_SEQ log_type s"

definition qpush_back :: "bytes \<Rightarrow> bytes \<Rightarrow> u8 \<Rightarrow> ssdb \<Rightarrow> int \<times> ssdb" where
  "qpush_back name item log_type s = qpush_end name item QBACK_SEQ log_type s"

definition qpop_end :: "bytes \<Rightarrow> u64 \<Rightarrow> u8 \<Rightarrow> ssdb \<Rightarrow> (int \<times> bytes option) \<times> ssdb" where
  "qpop_end name front_or_back_seq log_type s =
     transaction (\<lambda>s.
       let (ret, seq) = qget_uint64 (db s) name front_or_back_seq
       in if ret = -1 then ((-1, None), s)
          else if ret = 0 then ((0, None), s)
          else let (ret, item) = qget_by_seq (db s) name seq
          in if ret = -1 then ((-1, None), s)
          else if ret = 0 then ((0, None), s)
          else let (ret, s) = qdel_one name seq s
          in if ret = -1 then ((-1, item), s)
          else let s = (if front_or_back_seq = QFRONT_SEQ then add_log log_type BC_QPOP_FRONT name s
                        else add_log log_type BC_QPOP_BACK name s);
                   (sz, s) = incr_qsize name (-1) s
          in if sz = -1 then ((-1, item), s)
          else let (ret, s) =
                 (if sz > 0
                  then qset_one name front_or_back_seq
                         (mem64 (seq + (if front_or_back_seq = QFRONT_SEQ then 1 else - 1))) s
                  else (ret, s))
          in if ret = -1 then ((-1, item), s)
          else let (r, s) = commit_ret 1 s in ((r, item), s)) s"

definition qpop_front :: "bytes \<Rightarrow> u8 \<Rightarrow> ssdb \<Rightarrow> (int \<times> bytes option) \<times> ssdb" where
  "qpop_front name log_type s = qpop_end name QFRONT_SEQ log_type s"

definition qpop_back :: "bytes \<Rightarrow> u8 \<Rightarrow> ssdb \<Rightarrow> (int \<times> bytes option) \<times> ssdb" where
  "qpop_back name log_type s = qpop_end name QBACK_SEQ log_type s"

function get_qnames :: "iter \<Rightarrow> bytes list" where
  "get_qnames i =
     (case iter_next i of
        (False, j) \<Rightarrow> []
      | (True, j) \<Rightarrow>
          if key_type (iter_key j) \<noteq> DT_QSIZE then []
          else (case decode_qsize_key (iter_key j) of
                  None \<Rightarrow> get_qnames j
                | Some n \<Rightarrow> n # get_qnames j))"
  by pat_completeness auto
termination
  by (relation "measure (\<lambda>i. unat (limit i))") (auto dest: iter_next_limit [OF sym])

declare get_qnames.simps [simp del]

definition qlist :: "ssdb \<Rightarrow> bytes \<Rightarrow> bytes \<Rightarrow> u64 \<Rightarrow> bytes list" where
  "qlist s name_s name_e n =
     (let start = encode_qsize_key name_s;
          end = (if name_e \<noteq> [] then encode_qsize_key name_e else [])
      in get_qnames (ssdb_iterator s start end n))"

definition qrlist :: "ssdb \<Rightarrow> bytes \<Rightarrow> bytes \<Rightarrow> u64 \<Rightarrow> bytes list" where
  "qrlist s name_s name_e n =
     (let start = (if name_s = [] then encode_qsize_key name_s @ [255] else encode_qsize_key name_s);
          end = (if name_e \<noteq> [] then encode_qsize_key name_e else [])
      in get_qnames (ssdb_rev_iterator s start end n))"

text \<open>The scan of \<open>qfix\<close>: \<open>None\<close> is its error.\<close>

function qfix_scan :: "iter \<Rightarrow> u64 \<Rightarrow> u64 \<Rightarrow> u64 \<Rightarrow> (u64 \<times> u64 \<times> u64) option" where
  "qfix_scan i seq_min seq_max count =
     (case iter_next i of
        (False, j) \<Rightarrow> Some (seq_min, seq_max, count)
      | (True, j) \<Rightarrow>
          (case (if seq_min = 0 then map_option snd (decode_qitem_key (iter_key j)) else Some seq_min) of
             None \<Rightarrow> None
           | Some seq_min \<Rightarrow>
               (case decode_qitem_key (iter_key j) of
                  None \<Rightarrow> None
                | Some (n, seq_max) \<Rightarrow> qfix_scan j seq_min seq_max (count + 1))))"
  by pat_completeness auto
termination
  by (relation "measure (\<lambda>(i, _). unat (limit i))") (auto dest: iter_next_limit [OF sym])

declare qfix_scan.simps [simp del]

definition qfix :: "bytes \<Rightarrow> ssdb \<Rightarrow> int \<times> ssdb" where
  "qfix name s =
     transaction (\<lambda>s.
       let key_s = encode_qitem_key name (QITEM_MIN_SEQ - 1);
           key_e = encode_qitem_key name QITEM_MAX_SEQ
       in case qfix_scan (ssdb_iterator s key_s key_e QITEM_MAX_SEQ) 0 0 0 of
            None \<Rightarrow> (-1, s)
          | Some (seq_min, seq_max, count) \<Rightarrow>
              let s = (if count = 0
                       then let s = bl_Delete (encode_qsize_key name) s;
                                s = snd (qdel_one name QFRONT_SEQ s)
                            in snd (qdel_one name QBACK_SEQ s)
                       else let s = bl_Put (encode_qsize_key name) (mem64 count) s;
                                s = snd (qset_one name QFRONT_SEQ (mem64 seq_min) s)
                            in snd (qset_one name QBACK_SEQ (mem64 seq_max) s))
              in commit_ret 0 s) s"

text \<open>
  The loop of \<open>qslice\<close> counts a \<open>uint64_t\<close> up to \<open>seq_end\<close>; it would not end for the largest
  number, hence the partial function. The list is filled also when a read fails.
\<close>

partial_function (option) qslice_loop ::
    "ldb \<Rightarrow> bytes \<Rightarrow> u64 \<Rightarrow> u64 \<Rightarrow> bytes list \<Rightarrow> (int \<times> bytes list) option" where
  "qslice_loop d name seq_begin seq_end acc =
     (if seq_begin \<le> seq_end
      then (case qget_by_seq d name seq_begin of
              (ret, item) \<Rightarrow>
                if ret = -1 then Some (-1, acc)
                else if ret = 0 then Some (0, acc)
                else qslice_loop d name (seq_begin + 1) seq_end
                       (acc @ [case item of None \<Rightarrow> [] | Some v \<Rightarrow> v]))
      else Some (0, acc))"

definition qslice :: "ssdb \<Rightarrow> bytes \<Rightarrow> i64 \<Rightarrow> i64 \<Rightarrow> (int \<times> bytes list) option" where
  "qslice s name b e =
     (if sint b \<ge> 0 \<and> sint e \<ge> 0
      then let (ret, tmp_seq) = qget_uint64 (db s) name QFRONT_SEQ
           in if ret \<noteq> 1 then Some (ret, [])
              else qslice_loop (db s) name (tmp_seq + b) (tmp_seq + e) []
      else if sint b < 0 \<and> sint e < 0
      then let (ret, tmp_seq) = qget_uint64 (db s) name QBACK_SEQ
           in if ret \<noteq> 1 then Some (ret, [])
              else qslice_loop (db s) name (tmp_seq + b + 1) (tmp_seq + e + 1) []
      else let (ret, f_seq) = qget_uint64 (db s) name QFRONT_SEQ
           in if ret \<noteq> 1 then Some (ret, [])
              else let (ret, b_seq) = qget_uint64 (db s) name QBACK_SEQ
              in if ret \<noteq> 1 then Some (ret, [])
              else let seq_begin = (if sint b \<ge> 0 then f_seq + b else b_seq + b + 1);
                       seq_end = (if sint e \<ge> 0 then f_seq + e else b_seq + e + 1)
              in qslice_loop (db s) name seq_begin seq_end [])"

definition qget :: "ssdb \<Rightarrow> bytes \<Rightarrow> i64 \<Rightarrow> int \<times> bytes option" where
  "qget s name index =
     (let (ret, seq) =
        (if sint index \<ge> 0
         then let (ret, seq) = qget_uint64 (db s) name QFRONT_SEQ in (ret, seq + index)
         else let (ret, seq) = qget_uint64 (db s) name QBACK_SEQ in (ret, seq + (index + 1)))
      in if ret = -1 then (-1, None)
         else if ret = 0 then (0, None)
         else qget_by_seq (db s) name seq)"

section \<open>Queues as lists\<close>

interpretation qitem_family: counted_family encode_qitem_key encode_qsize_key
  by unfold_locales (simp_all add: qitem_key_inject)

interpretation qnames: name_lister get_qnames decode_qsize_key DT_QSIZE
proof
  show "get_qnames i =
      (case iter_next i of
         (False, i') \<Rightarrow> []
       | (True, i') \<Rightarrow>
           if key_type (iter_key i') \<noteq> DT_QSIZE then []
           else (case decode_qsize_key (iter_key i') of
                   None \<Rightarrow> get_qnames i' | Some n \<Rightarrow> n # get_qnames i'))" for i
    by (rule get_qnames.simps)
  show "decode_qsize_key (DT_QSIZE # n) = Some n" for n
    using qsize_key.dec_enc [of n] by (simp add: encode_qsize_key_def)
qed simp

text \<open>
  The records of the queue \<open>xs\<close> whose first item has the number \<open>f\<close>, by sequence number.
\<close>

definition qrecords :: "nat \<Rightarrow> bytes list \<Rightarrow> u64 \<rightharpoonup> bytes" where
  "qrecords f xs q =
     (if q = QFRONT_SEQ then Some (mem64 (of_nat f))
      else if q = QBACK_SEQ then Some (mem64 (of_nat (f + length xs - 1)))
      else if f \<le> unat q \<and> unat q < f + length xs then Some (xs ! (unat q - f)) else None)"

fun queue_at :: "(bytes \<rightharpoonup> bytes) \<Rightarrow> bytes \<Rightarrow> nat \<times> bytes list \<Rightarrow> bool" where
  "queue_at m n (f, xs) \<longleftrightarrow>
     (if xs = [] then members encode_qitem_key m n = Map.empty \<and> m (encode_qsize_key n) = None
      else 10000 < f \<and> f + length xs < 2 ^ 63 \<and>
        members encode_qitem_key m n = qrecords f xs \<and>
        m (encode_qsize_key n) = Some (mem64 (of_nat (length xs))))"

definition queue_rel :: "ssdb \<Rightarrow> (bytes \<Rightarrow> nat \<times> bytes list) \<Rightarrow> bool" where
  "queue_rel s Q \<longleftrightarrow> sorted_keys (tbl (db s)) \<and> (\<forall>n. length n \<le> 255 \<longrightarrow> queue_at (data s) n (Q n))"

definition queue_readable :: "ssdb \<Rightarrow> bytes \<Rightarrow> bool" where
  "queue_readable s n \<longleftrightarrow>
     (\<forall>q. encode_qitem_key n q \<notin> unreadable (db s)) \<and> encode_qsize_key n \<notin> unreadable (db s)"

lemma queue_readable_reliable: "reliable (db s) \<Longrightarrow> queue_readable s n"
  by (simp add: queue_readable_def reliable_def)

lemma queue_readable_db: "db s' = db s \<Longrightarrow> queue_readable s' n = queue_readable s n"
  by (simp add: queue_readable_def)

lemma unat_small [simp]: "k < 2 ^ 63 \<Longrightarrow> unat (of_nat k :: u64) = k"
  by (simp add: unat_of_nat)

lemma of_nat_eq_small: "k < 2 ^ 63 \<Longrightarrow> j < 2 ^ 63 \<Longrightarrow> (of_nat k :: u64) = of_nat j \<longleftrightarrow> k = j"
  by (metis unat_small)

lemma qrecords_simps [simp]:
  "qrecords f xs 2 = Some (mem64 (of_nat f))"
  "qrecords f xs 3 = Some (mem64 (of_nat (f + length xs - 1)))"
  "10000 < f \<Longrightarrow> f + length xs < 2 ^ 63 \<Longrightarrow> i < length xs \<Longrightarrow>
     qrecords f xs (of_nat (f + i)) = Some (xs ! i)"
proof -
  show "qrecords f xs 2 = Some (mem64 (of_nat f))"
    "qrecords f xs 3 = Some (mem64 (of_nat (f + length xs - 1)))" by (simp_all add: qrecords_def)
  assume f: "10000 < f" "f + length xs < 2 ^ 63" "i < length xs"
  then have u: "unat (of_nat (f + i) :: u64) = f + i" by (intro unat_small) simp
  then have "(of_nat (f + i) :: u64) \<noteq> 2" "(of_nat (f + i) :: u64) \<noteq> 3" using f(1) by auto
  with u f show "qrecords f xs (of_nat (f + i)) = Some (xs ! i)" by (simp add: qrecords_def)
qed

subsection \<open>Reading\<close>

lemma qget_by_seq_members:
  "queue_readable s n \<Longrightarrow>
     qget_by_seq (db s) n q =
       (case members encode_qitem_key (data s) n q of None \<Rightarrow> (0, None) | Some v \<Rightarrow> (1, Some v))"
  by (auto simp: qget_by_seq_def queue_readable_def ldb_get_data members_def split: option.split)

lemma queue_reads:
  assumes "queue_readable s n" "queue_at (data s) n (f, xs)"
  shows "qget_uint64 (db s) n QFRONT_SEQ = (if xs = [] then (0, 0) else (1, of_nat f))"
    and "qget_uint64 (db s) n QBACK_SEQ = (if xs = [] then (0, 0) else (1, of_nat (f + length xs - 1)))"
    and "qsize s n = int (length xs)"
    and "qget_by_seq (db s) n q =
      (if xs = [] then (0, None)
       else case qrecords f xs q of None \<Rightarrow> (0, None) | Some v \<Rightarrow> (1, Some v))"
proof -
  have m: "members encode_qitem_key (data s) n = (if xs = [] then Map.empty else qrecords f xs)"
    using assms(2) by (simp split: if_splits)
  show by_seq: "qget_by_seq (db s) n q =
      (if xs = [] then (0, None)
       else case qrecords f xs q of None \<Rightarrow> (0, None) | Some v \<Rightarrow> (1, Some v))" for q
    using qget_by_seq_members [OF assms(1), of q] by (simp add: m)
  show "qget_uint64 (db s) n QFRONT_SEQ = (if xs = [] then (0, 0) else (1, of_nat f))"
    "qget_uint64 (db s) n QBACK_SEQ = (if xs = [] then (0, 0) else (1, of_nat (f + length xs - 1)))"
    unfolding qget_uint64_def by_seq by simp_all
  show "qsize s n = int (length xs)"
    using assms by (simp add: qsize_def queue_readable_def ldb_get_data sint_of_nat_small split: if_splits)
qed

subsection \<open>Changing one queue\<close>

definition queue_keys :: "bytes \<Rightarrow> bytes set" where
  "queue_keys n = insert (encode_qsize_key n) (range (encode_qitem_key n))"

lemma queue_at_other:
  assumes "length n \<le> 255" "length n' \<le> 255" "n' \<noteq> n"
    and "\<And>x. x \<notin> queue_keys n \<Longrightarrow> m' x = m x"
  shows "queue_at m' n' p = queue_at m n' p"
proof -
  have "m' (encode_qitem_key n' q) = m (encode_qitem_key n' q)" for q
    using assms qitem_key_inject [OF assms(2,1), of q] by (intro assms(4)) (auto simp: queue_keys_def)
  then have "members encode_qitem_key m' n' = members encode_qitem_key m n'" by (simp add: members_def)
  moreover have "m' (encode_qsize_key n') = m (encode_qsize_key n')"
    using assms(3) by (intro assms(4)) (auto simp: queue_keys_def)
  ultimately show ?thesis by (cases p) simp
qed

lemma queue_rel_upd:
  assumes "queue_rel s Q" "length n \<le> 255" "sorted_keys (tbl (db s'))"
    and "queue_at (data s') n p" "\<And>x. x \<notin> queue_keys n \<Longrightarrow> data s' x = data s x"
  shows "queue_rel s' (Q(n := p))"
  using assms queue_at_other [OF assms(2) _ _ assms(5)] by (auto simp: queue_rel_def)

lemma queue_rel_data:
  "queue_rel s Q \<Longrightarrow> sorted_keys (tbl (db s')) \<Longrightarrow> data s' = data s \<Longrightarrow> queue_rel s' Q"
  by (simp add: queue_rel_def)

lemma queue_relD: "queue_rel s Q \<Longrightarrow> length n \<le> 255 \<Longrightarrow> queue_at (data s) n (Q n)"
  by (simp add: queue_rel_def)

section \<open>Each operation as a transaction\<close>

text \<open>A committed run of actions on the records of one queue.\<close>

lemma queue_keys_data: "x \<in> queue_keys n \<Longrightarrow> \<not> is_log_key x"
  by (auto simp: queue_keys_def)

lemma queue_tran:
  assumes rel: "queue_rel s Q" and n: "length n \<le> 255"
    and ops: "\<forall>w \<in> set (acts_ops as). wop_key w \<in> queue_keys n"
    and at: "queue_at (fold mstep (acts_ops as) (data s)) n p"
  shows "queue_rel (snd (act_tran lt as r s)) (if write_ok (db s) then Q(n := p) else Q)"
proof -
  have srt: "sorted_keys (tbl (db s))" using rel by (simp add: queue_rel_def)
  have "\<forall>w \<in> set (acts_ops as). data_op w"
    using ops queue_keys_data by (auto simp: data_op_def)
  note d = act_tran_data [OF this, of lt r s]
  have un: "fold mstep ws m x = m x" if "\<forall>w \<in> set ws. wop_key w \<noteq> x" for ws :: batch and m x
    using that
  proof (induction ws arbitrary: m)
    case (Cons w ws)
    then show ?case by (cases w) auto
  qed simp
  have other: "fold mstep (acts_ops as) m x = m x" if "x \<notin> queue_keys n" for m x
    by (rule un) (use ops that in auto)
  show ?thesis
  proof (cases "write_ok (db s)")
    case True
    then have "queue_rel (snd (act_tran lt as r s)) (Q(n := p))"
      using d at other by (intro queue_rel_upd [OF rel n]) (simp_all add: act_tran_sorted srt)
    with True show ?thesis by simp
  next
    case False
    then show ?thesis using d by (simp add: queue_rel_data [OF rel] act_tran_sorted srt)
  qed
qed

subsection \<open>Pushing\<close>

definition qinit :: nat where "qinit = 4611686018427387903"

lemma QITEM_SEQ_INIT_nat: "QITEM_SEQ_INIT = of_nat qinit"
  by (simp add: QITEM_SEQ_INIT_def qinit_def)

text \<open>The end of a queue: the pointer record, and what a push does at it.\<close>

definition end_seq :: "bool \<Rightarrow> u64" where
  "end_seq front = (if front then QFRONT_SEQ else QBACK_SEQ)"

fun qpush_to :: "bool \<Rightarrow> nat \<times> bytes list \<Rightarrow> nat" where
  "qpush_to front (f, xs) = (if xs = [] then qinit else if front then f - 1 else f + length xs)"

fun qpushed :: "bool \<Rightarrow> bytes \<Rightarrow> nat \<times> bytes list \<Rightarrow> nat \<times> bytes list" where
  "qpushed front x (f, xs) =
     (if xs = [] then (qinit, [x]) else if front then (f - 1, x # xs) else (f, xs @ [x]))"

fun qfull :: "bool \<Rightarrow> nat \<times> bytes list \<Rightarrow> bool" where
  "qfull front (f, xs) \<longleftrightarrow> xs \<noteq> [] \<and> (if front then f \<le> 10001 else f + length xs \<ge> 9223372036854775807)"

fun qpush_acts :: "bytes \<Rightarrow> bytes \<Rightarrow> bool \<Rightarrow> nat \<times> bytes list \<Rightarrow> act list" where
  "qpush_acts n x front (f, xs) =
     (let i = of_nat (qpush_to front (f, xs)) :: u64
      in (if xs = [] then [APut (encode_qitem_key n 2) (mem64 i), APut (encode_qitem_key n 3) (mem64 i)]
          else [APut (encode_qitem_key n (end_seq front)) (mem64 i)]) @
         [APut (encode_qitem_key n i) x,
          ALog (if front then BC_QPUSH_FRONT else BC_QPUSH_BACK) (encode_qitem_key n i),
          size_act (encode_qsize_key n) (length xs + 1)])"

lemma run_size_Suc:
  "run_acts lt [size_act k (c + 1)] s = bl_Put k (mem64 (of_nat (c + 1))) s"
  by (simp add: size_act_def size_record_def)

lemma incr_qsize_run:
  assumes "qsize s n = int c" "c + 1 < 2 ^ 63"
  shows "incr_qsize n 1 s = (int c + 1, run_acts lt [size_act (encode_qsize_key n) (c + 1)] s)"
proof -
  define w :: u64 where "w = of_nat (c + 1)"
  have w: "of_int (int c) + of_int 1 = w" "sint w = int c + 1"
    using sint_of_nat_small [OF assms(2)] by (simp_all add: w_def)
  show ?thesis
    unfolding incr_qsize_def assms(1) Let_def run_size_Suc w(1) w_def [symmetric] using w(2) by simp
qed

lemma qsize_db: "db s' = db s \<Longrightarrow> qsize s' n = qsize s n"
  by (simp add: qsize_def)

lemma qpush_place:
  assumes "queue_at m n (f, xs)" "xs \<noteq> []"
  shows "(of_nat (if front then f else f + length xs - 1) :: u64) + (if front then - 1 else 1) =
      of_nat (qpush_to front (f, xs))"
    and "(of_nat (qpush_to front (f, xs)) \<le> (10000 :: u64) \<or>
      of_nat (qpush_to front (f, xs)) \<ge> (9223372036854775807 :: u64)) \<longleftrightarrow> qfull front (f, xs)"
proof -
  have f: "10000 < f" "f + length xs < 2 ^ 63" using assms by simp_all
  have l: "0 < length xs" using assms(2) by simp
  have "(of_nat (f - 1) :: u64) = of_nat f - 1" using f(1) by (simp add: of_nat_diff)
  moreover have "(of_nat (f + length xs - 1) :: u64) = of_nat (f + length xs) - 1"
    using l by (simp add: of_nat_diff Suc_leI trans_le_add2)
  ultimately show "(of_nat (if front then f else f + length xs - 1) :: u64) + (if front then - 1 else 1) =
      of_nat (qpush_to front (f, xs))"
    using assms(2) by simp
  have u: "unat (of_nat (f - 1) :: u64) = f - 1" "unat (of_nat (f + length xs) :: u64) = f + length xs"
    by (rule unat_small; use f in simp)+
  show "(of_nat (qpush_to front (f, xs)) \<le> (10000 :: u64) \<or>
      of_nat (qpush_to front (f, xs)) \<ge> (9223372036854775807 :: u64)) \<longleftrightarrow> qfull front (f, xs)"
    using f l assms(2) u by (cases front) (auto simp: word_le_nat_alt simp del: of_nat_add)
qed

lemma qpush_end_tran:
  assumes n: "length n \<le> 255" and rd: "queue_readable s n" and q: "queue_at (data s) n (f, xs)"
  shows "\<not> qfull front (f, xs) \<Longrightarrow> qpush_end n x (end_seq front) lt s =
      act_tran lt (qpush_acts n x front (f, xs)) (int (length xs) + 1) s"
    and "qfull front (f, xs) \<Longrightarrow> fst (qpush_end n x (end_seq front) lt s) = -1 \<and>
      db (snd (qpush_end n x (end_seq front) lt s)) = db s"
proof -
  note reads = queue_reads [OF rd q]
  have sz: "incr_qsize n 1 (run_acts lt as (bl_begin s)) = (int (length xs) + 1,
      run_acts lt [size_act (encode_qsize_key n) (length xs + 1)] (run_acts lt as (bl_begin s)))" for as
  proof (rule incr_qsize_run)
    show "qsize (run_acts lt as (bl_begin s)) n = int (length xs)"
      using reads(3) qsize_db [of "run_acts lt as (bl_begin s)" s n] by simp
    show "length xs + 1 < 2 ^ 63" using q by (cases "xs = []") simp_all
  qed
  have ptr: "qget_uint64 (db (bl_begin s)) n (end_seq front) =
      (if xs = [] then (0, 0) else (1, of_nat (if front then f else f + length xs - 1)))"
    using reads(1,2) by (simp add: end_seq_def)
  have ends: "end_seq front = 2 \<longleftrightarrow> front" by (simp add: end_seq_def)
  define i where "i = (of_nat (qpush_to front (f, xs)) :: u64)"
  define log where "log = ALog (if front then BC_QPUSH_FRONT else BC_QPUSH_BACK) (encode_qitem_key n i)"
  have one: "qset_one n q v s' = (0, run_acts lt [APut (encode_qitem_key n q) v] s')" for q v s'
    using n by (simp add: qset_one_def)
  have logs: "front \<Longrightarrow> add_log lt 11 (encode_qitem_key n i) s' = run_acts lt [log] s'"
    "\<not> front \<Longrightarrow> add_log lt 10 (encode_qitem_key n i) s' = run_acts lt [log] s'" for s'
    by (simp_all add: log_def)
  have acts: "qpush_acts n x front (f, xs) =
      (if xs = [] then [APut (encode_qitem_key n 2) (mem64 i), APut (encode_qitem_key n 3) (mem64 i)]
       else [APut (encode_qitem_key n (end_seq front)) (mem64 i)]) @
      [APut (encode_qitem_key n i) x, log, size_act (encode_qsize_key n) (length xs + 1)]"
    by (simp add: i_def log_def Let_def)
  note body = qpush_end_def transaction_def act_tran_def ptr acts
  note steps = one ends logs run_acts_append [symmetric] sz Let_def
  {
    assume nf: "\<not> qfull front (f, xs)"
    show "qpush_end n x (end_seq front) lt s =
        act_tran lt (qpush_acts n x front (f, xs)) (int (length xs) + 1) s"
    proof (cases "xs = []")
      case True
      have i: "QITEM_SEQ_INIT = i" "\<not> i \<le> 10000" "\<not> 9223372036854775807 \<le> i"
        using True by (simp_all add: i_def QITEM_SEQ_INIT_nat qinit_def)
      show ?thesis
        unfolding body using True sz
        by (simp add: steps i del: run_acts_simps)
    next
      case False
      have i: "(of_nat (if front then f else f + length xs - 1) :: u64) + (if front then - 1 else 1) = i"
        "\<not> (i \<le> 10000 \<or> 9223372036854775807 \<le> i)"
        using qpush_place [OF q False, of front] nf by (simp_all only: i_def) simp_all
      show ?thesis
        unfolding body using False sz i(2)
        by (simp add: steps i(1) del: run_acts_simps)
    qed
  }
  assume full: "qfull front (f, xs)"
  then have ne: "xs \<noteq> []" by simp
  have i: "(of_nat (if front then f else f + length xs - 1) :: u64) + (if front then - 1 else 1) = i"
    "i \<le> 10000 \<or> 9223372036854775807 \<le> i"
    using qpush_place [OF q ne, of front] full by (simp_all only: i_def)
  show "fst (qpush_end n x (end_seq front) lt s) = -1 \<and>
      db (snd (qpush_end n x (end_seq front) lt s)) = db s"
    unfolding body using ne i(2) by (simp add: steps i(1) del: run_acts_simps)
qed

text \<open>What the records are after a push.\<close>

lemma qpush_acts_keys:
  "w \<in> set (acts_ops (qpush_acts n x front p)) \<Longrightarrow> wop_key w \<in> queue_keys n"
  by (cases p) (auto simp: queue_keys_def Let_def split: if_splits option.splits)

lemma qrecords_grow:
  assumes "10000 < f" "f + length xs < 2 ^ 63"
  shows "xs \<noteq> [] \<Longrightarrow> 10001 < f \<Longrightarrow>
      (qrecords f xs)(2 \<mapsto> mem64 (of_nat (f - 1)), of_nat (f - 1) \<mapsto> x) = qrecords (f - 1) (x # xs)"
    and "f + length xs + 1 < 2 ^ 63 \<Longrightarrow>
      (qrecords f xs)(3 \<mapsto> mem64 (of_nat (f + length xs)), of_nat (f + length xs) \<mapsto> x) = qrecords f (xs @ [x])"
proof -
  {
    assume f: "xs \<noteq> []" "10001 < f"
    have u: "unat (of_nat (f - 1) :: u64) = f - 1" using assms by (intro unat_small) simp
    then have ne: "(of_nat (f - 1) :: u64) \<noteq> 2" "(of_nat (f - 1) :: u64) \<noteq> 3"
      using f(2) by (auto simp del: of_nat_diff)
    show "(qrecords f xs)(2 \<mapsto> mem64 (of_nat (f - 1)), of_nat (f - 1) \<mapsto> x) = qrecords (f - 1) (x # xs)"
    proof
      fix q :: u64
      consider "q = 2" | "q = 3" | "q \<noteq> 2" "q \<noteq> 3" "q = of_nat (f - 1)"
        | "q \<noteq> 2" "q \<noteq> 3" "q \<noteq> of_nat (f - 1)" by blast
      then show "((qrecords f xs)(2 \<mapsto> mem64 (of_nat (f - 1)), of_nat (f - 1) \<mapsto> x)) q =
          qrecords (f - 1) (x # xs) q"
      proof cases
        case 4
        then have "unat q \<noteq> f - 1" using u by (metis word_unat_eq_iff)
        with 4 f show ?thesis by (auto simp: qrecords_def nth_Cons' simp flip: diff_Suc_1)
      qed (use u ne f in \<open>auto simp: qrecords_def\<close>)
    qed
  }
  assume f: "f + length xs + 1 < 2 ^ 63"
  have u: "unat (of_nat (f + length xs) :: u64) = f + length xs" using assms by (intro unat_small) simp
  then have ne: "(of_nat (f + length xs) :: u64) \<noteq> 2" "(of_nat (f + length xs) :: u64) \<noteq> 3"
    using assms(1) by (auto simp del: of_nat_add)
  show "(qrecords f xs)(3 \<mapsto> mem64 (of_nat (f + length xs)), of_nat (f + length xs) \<mapsto> x) = qrecords f (xs @ [x])"
  proof
    fix q :: u64
    consider "q = 2" | "q = 3" | "q \<noteq> 2" "q \<noteq> 3" "q = of_nat (f + length xs)"
      | "q \<noteq> 2" "q \<noteq> 3" "q \<noteq> of_nat (f + length xs)" by blast
    then show "((qrecords f xs)(3 \<mapsto> mem64 (of_nat (f + length xs)), of_nat (f + length xs) \<mapsto> x)) q =
        qrecords f (xs @ [x]) q"
    proof cases
      case 4
      then have "unat q \<noteq> f + length xs" using u by (metis word_unat_eq_iff)
      with 4 show ?thesis by (auto simp: qrecords_def nth_append)
    qed (use u ne assms in \<open>auto simp: qrecords_def simp del: of_nat_add\<close>)
  qed
qed

lemma qpush_acts_effect:
  assumes n: "length n \<le> 255" and q: "queue_at m n p" and nf: "\<not> qfull front p"
  shows "queue_at (fold mstep (acts_ops (qpush_acts n x front p)) m) n (qpushed front x p)"
proof -
  obtain f xs where p: "p = (f, xs)" by fastforce
  note mem = qitem_family.members_item [OF n n] qitem_family.members_size
  show ?thesis
  proof (cases "xs = []")
    case True
    have u: "(of_nat qinit :: u64) \<noteq> 2" "(of_nat qinit :: u64) \<noteq> 3" "unat (of_nat qinit :: u64) = qinit"
      by (simp_all add: qinit_def)
    have "[2 \<mapsto> mem64 (of_nat qinit), 3 \<mapsto> mem64 (of_nat qinit), of_nat qinit \<mapsto> x] = qrecords qinit [x]"
    proof
      fix j :: u64
      have "unat j = qinit \<longleftrightarrow> j = of_nat qinit" using u(3) by (metis word_unat_eq_iff)
      then show "[2 \<mapsto> mem64 (of_nat qinit), 3 \<mapsto> mem64 (of_nat qinit), of_nat qinit \<mapsto> x] j = qrecords qinit [x] j"
        using u(1,2) by (auto simp: qrecords_def)
    qed
    moreover have "members encode_qitem_key m n = Map.empty" using q p True by simp
    ultimately show ?thesis
      using p True by (simp add: Let_def mem size_record_def) (simp add: qinit_def)
  next
    case False
    then have f: "10000 < f" "f + length xs < 2 ^ 63" "members encode_qitem_key m n = qrecords f xs"
      using q p by simp_all
    show ?thesis
    proof (cases front)
      case True
      with nf p False have "10001 < f" by simp
      with True p False f show ?thesis
        using qrecords_grow(1) [OF f(1,2) False, of x]
        by (simp add: Let_def mem size_record_def end_seq_def)
    next
      case rear: False
      with nf p False have "f + length xs + 1 < 2 ^ 63" by simp
      with rear p False f show ?thesis
        using qrecords_grow(2) [OF f(1,2), of x]
        by (simp add: Let_def mem size_record_def end_seq_def)
    qed
  qed
qed

lemma qpush_rel:
  fixes front :: bool
  assumes "queue_rel s Q" "length n \<le> 255" "queue_readable s n"
  defines "fails \<equiv> qfull front (Q n) \<or> \<not> write_ok (db s)"
  shows "fst (qpush_end n x (end_seq front) lt s) = (if fails then -1 else int (length (snd (Q n))) + 1)"
    and "queue_rel (snd (qpush_end n x (end_seq front) lt s)) (if fails then Q else Q(n := qpushed front x (Q n)))"
proof -
  obtain f xs where p: "Q n = (f, xs)" by fastforce
  have q: "queue_at (data s) n (f, xs)" using queue_relD [OF assms(1,2)] p by simp
  note tran = qpush_end_tran [OF assms(2,3) q, of front x lt]
  have "fst (qpush_end n x (end_seq front) lt s) = (if fails then -1 else int (length (snd (Q n))) + 1) \<and>
      queue_rel (snd (qpush_end n x (end_seq front) lt s)) (if fails then Q else Q(n := qpushed front x (Q n)))"
  proof (cases "qfull front (f, xs)")
    case True
    with tran(2) have "db (snd (qpush_end n x (end_seq front) lt s)) = db s"
      "fst (qpush_end n x (end_seq front) lt s) = -1" by simp_all
    with True p assms(1) show ?thesis by (simp add: queue_rel_def fails_def)
  next
    case False
    have "queue_rel (snd (act_tran lt (qpush_acts n x front (f, xs)) (int (length xs) + 1) s))
        (if write_ok (db s) then Q(n := qpushed front x (f, xs)) else Q)"
      by (rule queue_tran [OF assms(1,2)])
        (use qpush_acts_keys qpush_acts_effect [OF assms(2) q False] in blast)+
    with False p tran(1) [OF False] show ?thesis
      by (cases "write_ok (db s)")
        (simp_all add: act_tran_result fails_def del: qpush_acts.simps qpushed.simps qfull.simps)
  qed
  then show "fst (qpush_end n x (end_seq front) lt s) = (if fails then -1 else int (length (snd (Q n))) + 1)"
    "queue_rel (snd (qpush_end n x (end_seq front) lt s)) (if fails then Q else Q(n := qpushed front x (Q n)))"
    by simp_all
qed

subsection \<open>Popping\<close>

fun qpop_from :: "bool \<Rightarrow> nat \<times> bytes list \<Rightarrow> nat" where
  "qpop_from front (f, xs) = (if front then f else f + length xs - 1)"

fun qpopped :: "bool \<Rightarrow> nat \<times> bytes list \<Rightarrow> nat \<times> bytes list" where
  "qpopped front (f, xs) = (if front then (f + 1, tl xs) else (f, butlast xs))"

fun qpop_acts :: "bytes \<Rightarrow> bool \<Rightarrow> nat \<times> bytes list \<Rightarrow> act list" where
  "qpop_acts n front (f, xs) =
     [ADel (encode_qitem_key n (of_nat (qpop_from front (f, xs)))),
      ALog (if front then BC_QPOP_FRONT else BC_QPOP_BACK) n] @
     (if length xs = 1
      then [ADel (encode_qsize_key n), ADel (encode_qitem_key n 2), ADel (encode_qitem_key n 3)]
      else [APut (encode_qsize_key n) (mem64 (of_nat (length xs - 1))),
            APut (encode_qitem_key n (end_seq front))
              (mem64 (of_nat (if front then f + 1 else f + length xs - 2)))])"

text \<open>The counter and the pointer after a pop.\<close>

lemma decr_qsize_run:
  assumes "qsize s n = int c" "0 < c" "c < 2 ^ 63"
  shows "incr_qsize n (-1) s = (int c - 1, run_acts lt
    (if c = 1 then [ADel (encode_qsize_key n), ADel (encode_qitem_key n 2), ADel (encode_qitem_key n 3)]
     else [APut (encode_qsize_key n) (mem64 (of_nat (c - 1)))]) s)"
proof -
  define w :: u64 where "w = of_nat (c - 1)"
  have w: "of_int (int c) + of_int (-1) = w" "sint w = int c - 1"
    using sint_of_nat_small [of "c - 1"] assms(2,3) by (simp_all add: w_def of_nat_diff)
  show ?thesis
    unfolding incr_qsize_def assms(1) Let_def w(1) w_def [symmetric]
    using w(2) assms(2) by (simp add: qdel_one_def)
qed

lemma qpop_place:
  assumes "queue_at m n (f, xs)" "xs \<noteq> []"
  shows "qrecords f xs (of_nat (qpop_from front (f, xs))) = Some (if front then hd xs else last xs)"
    and "(of_nat (qpop_from front (f, xs)) :: u64) + (if front then 1 else - 1) =
      of_nat (if front then f + 1 else f + length xs - 2)"
proof -
  have f: "10000 < f" "f + length xs < 2 ^ 63" using assms by simp_all
  have l: "0 < length xs" using assms(2) by simp
  show "qrecords f xs (of_nat (qpop_from front (f, xs))) = Some (if front then hd xs else last xs)"
    using qrecords_simps(3) [OF f, of 0] qrecords_simps(3) [OF f, of "length xs - 1"] l assms(2)
    by (cases front) (simp_all add: hd_conv_nth last_conv_nth del: of_nat_add of_nat_diff)
  have "(of_nat (f + length xs - 2) :: u64) = of_nat (f + length xs) - 2"
    "(of_nat (f + length xs - 1) :: u64) = of_nat (f + length xs) - 1"
    using l f(1) of_nat_diff [of 2 "f + length xs", where 'a = u64]
      of_nat_diff [of 1 "f + length xs", where 'a = u64] by simp_all
  then show "(of_nat (qpop_from front (f, xs)) :: u64) + (if front then 1 else - 1) =
      of_nat (if front then f + 1 else f + length xs - 2)"
    by (cases front) simp_all
qed

lemma qpop_end_tran:
  assumes n: "length n \<le> 255" and rd: "queue_readable s n" and q: "queue_at (data s) n (f, xs)"
  shows "xs \<noteq> [] \<Longrightarrow> qpop_end n (end_seq front) lt s =
      (let (r, s') = act_tran lt (qpop_acts n front (f, xs)) 1 s
       in ((r, Some (if front then hd xs else last xs)), s'))"
    and "xs = [] \<Longrightarrow> qpop_end n (end_seq front) lt s = ((0, None), abandon s)"
proof -
  note reads = queue_reads [OF rd q]
  have ptr: "qget_uint64 (db (bl_begin s)) n (end_seq front) =
      (if xs = [] then (0, 0) else (1, of_nat (qpop_from front (f, xs))))"
    using reads(1,2) by (simp add: end_seq_def)
  show "xs = [] \<Longrightarrow> qpop_end n (end_seq front) lt s = ((0, None), abandon s)"
    unfolding qpop_end_def transaction_def ptr by simp
  assume ne: "xs \<noteq> []"
  define i where "i = (of_nat (qpop_from front (f, xs)) :: u64)"
  define v where "v = (if front then hd xs else last xs)"
  define log where "log = ALog (if front then BC_QPOP_FRONT else BC_QPOP_BACK) n"
  have item: "qget_by_seq (db s) n i = (1, Some v)"
    using reads(4) [of i] qpop_place(1) [OF q ne, of front] ne by (simp add: i_def v_def)
  have sz: "incr_qsize n (-1) (run_acts lt as (bl_begin s)) = (int (length xs) - 1, run_acts lt
     (if length xs = 1 then [ADel (encode_qsize_key n), ADel (encode_qitem_key n 2), ADel (encode_qitem_key n 3)]
      else [APut (encode_qsize_key n) (mem64 (of_nat (length xs - 1)))]) (run_acts lt as (bl_begin s)))" for as
  proof (rule decr_qsize_run)
    show "qsize (run_acts lt as (bl_begin s)) n = int (length xs)"
      using reads(3) qsize_db [of "run_acts lt as (bl_begin s)" s n] by simp
    show "0 < length xs" "length xs < 2 ^ 63" using q ne by simp_all
  qed
  have ends: "end_seq front = 2 \<longleftrightarrow> front" by (simp add: end_seq_def)
  have one: "qset_one n q u s' = (0, run_acts lt [APut (encode_qitem_key n q) u] s')"
    "qdel_one n q s' = (0, run_acts lt [ADel (encode_qitem_key n q)] s')" for q u s'
    using n by (simp_all add: qset_one_def qdel_one_def)
  have logs: "front \<Longrightarrow> add_log lt 13 n s' = run_acts lt [log] s'"
    "\<not> front \<Longrightarrow> add_log lt 12 n s' = run_acts lt [log] s'" for s'
    by (simp_all add: log_def)
  have acts: "qpop_acts n front (f, xs) =
     [ADel (encode_qitem_key n i), log] @
     (if length xs = 1
      then [ADel (encode_qsize_key n), ADel (encode_qitem_key n 2), ADel (encode_qitem_key n 3)]
      else [APut (encode_qsize_key n) (mem64 (of_nat (length xs - 1))),
            APut (encode_qitem_key n (end_seq front))
              (mem64 (of_nat (if front then f + 1 else f + length xs - 2)))])"
    by (simp add: i_def log_def)
  have step: "i + (if front then 1 else - 1) = of_nat (if front then f + 1 else f + length xs - 2)"
    using qpop_place(2) [OF q ne, of front] by (simp only: i_def)
  define w :: u64 where "w = of_nat (if front then f + 1 else f + length xs - 2)"
  note body = qpop_end_def transaction_def act_tran_def ptr acts i_def [symmetric] v_def [symmetric]
    w_def [symmetric]
  note steps = one ends logs run_acts_append [symmetric] sz Let_def item step [folded w_def]
  show "qpop_end n (end_seq front) lt s =
      (let (r, s') = act_tran lt (qpop_acts n front (f, xs)) 1 s
       in ((r, Some (if front then hd xs else last xs)), s'))"
  proof (cases "length xs = 1")
    case True
    then have nil: "\<not> 0 < int (length xs) - 1" by simp
    show ?thesis
      unfolding body using ne True sz
      by (simp add: steps split_beta del: run_acts_simps)
  next
    case False
    then have "0 < int (length xs) - 1" "length xs \<noteq> 1" using ne by (cases xs; simp)+
    then show ?thesis
      unfolding body using ne sz
      by (simp add: steps split_beta del: run_acts_simps)
  qed
qed

lemma qpop_acts_keys:
  "w \<in> set (acts_ops (qpop_acts n front p)) \<Longrightarrow> wop_key w \<in> queue_keys n"
  by (cases p) (auto simp: queue_keys_def split: if_splits)

lemma qrecords_shrink:
  assumes f: "10000 < f" "f + length xs < 2 ^ 63" and ne: "xs \<noteq> []"
  shows "length xs \<noteq> 1 \<Longrightarrow>
      (qrecords f xs)(of_nat f := None, 2 \<mapsto> mem64 (of_nat (f + 1))) = qrecords (f + 1) (tl xs)"
    and "length xs \<noteq> 1 \<Longrightarrow>
      (qrecords f xs)(of_nat (f + length xs - 1) := None, 3 \<mapsto> mem64 (of_nat (f + length xs - 2))) =
        qrecords f (butlast xs)"
    and "length xs = 1 \<Longrightarrow> (qrecords f xs)(of_nat f := None, 2 := None, 3 := None) = Map.empty"
proof -
  have l: "0 < length xs" using ne by simp
  have u: "unat (of_nat f :: u64) = f" "unat (of_nat (f + length xs - 1) :: u64) = f + length xs - 1"
    by (rule unat_small; use f in simp)+
  have eqs: "q = of_nat f \<longleftrightarrow> unat q = f" "q = of_nat (f + length xs - 1) \<longleftrightarrow> unat q = f + length xs - 1"
    for q :: u64
    using u by (metis word_unat_eq_iff)+
  show "(qrecords f xs)(of_nat f := None, 2 := None, 3 := None) = Map.empty" if "length xs = 1"
    using that by (auto simp: qrecords_def fun_eq_iff eqs(1))
  assume l2: "length xs \<noteq> 1"
  show "(qrecords f xs)(of_nat f := None, 2 \<mapsto> mem64 (of_nat (f + 1))) = qrecords (f + 1) (tl xs)"
  proof
    fix q :: u64
    have e: "f + 1 + length (tl xs) - 1 = f + length xs - 1" "f + 1 + length (tl xs) = f + length xs"
      using ne by (cases xs; simp)+
    show "((qrecords f xs)(of_nat f := None, 2 \<mapsto> mem64 (of_nat (f + 1)))) q = qrecords (f + 1) (tl xs) q"
      unfolding qrecords_def e using f l l2
      by (auto simp: eqs(1) nth_tl Suc_diff_Suc simp del: of_nat_add of_nat_diff)
  qed
  show "(qrecords f xs)(of_nat (f + length xs - 1) := None, 3 \<mapsto> mem64 (of_nat (f + length xs - 2))) =
      qrecords f (butlast xs)"
  proof
    fix q :: u64
    define g where "g = f + length xs - 1"
    have g: "f + length xs = g + 1" "f + length xs - 2 = g - 1" "f + length (butlast xs) = g" "f < g"
      using l l2 by (cases xs; simp add: g_def)+
    have e: "q = of_nat g \<longleftrightarrow> unat q = g" using eqs(2) by (simp only: g_def)
    have "(of_nat g :: u64) \<noteq> 2" "(of_nat g :: u64) \<noteq> 3"
      using u(2) g(4) f(1) unfolding g_def [symmetric] by auto
    then show "((qrecords f xs)(of_nat (f + length xs - 1) := None, 3 \<mapsto> mem64 (of_nat (f + length xs - 2)))) q =
        qrecords f (butlast xs) q"
      unfolding qrecords_def g_def [symmetric] g(2,3) using f g(1,4) l2
      by (auto simp: e nth_butlast simp del: of_nat_diff)
  qed
qed

lemma qpop_acts_effect:
  assumes n: "length n \<le> 255" and q: "queue_at m n p" and ne: "snd p \<noteq> []"
  shows "queue_at (fold mstep (acts_ops (qpop_acts n front p)) m) n (qpopped front p)"
proof -
  obtain f xs where p: "p = (f, xs)" by fastforce
  note mem = qitem_family.members_item [OF n n] qitem_family.members_size
  have f: "xs \<noteq> []" "10000 < f" "f + length xs < 2 ^ 63" "members encode_qitem_key m n = qrecords f xs"
    using q p ne by simp_all
  show ?thesis
  proof (cases "length xs = 1")
    case True
    then have "tl xs = []" "butlast xs = []" "f + length xs - 1 = f" by (cases xs; simp)+
    with True p f show ?thesis
      using qrecords_shrink(3) [OF f(2,3,1) True] by (cases front) (simp_all add: mem)
  next
    case False
    then have l: "tl xs \<noteq> []" "butlast xs \<noteq> []" "2 \<le> length xs"
      using f(1) Suc_leI [of 1 "length xs"] by (cases xs; simp)+
    show ?thesis
    proof (cases front)
      case True
      with p f l False show ?thesis
        using qrecords_shrink(1) [OF f(2,3,1) False] by (simp add: mem end_seq_def)
    next
      case rear: False
      with p f l False show ?thesis
        using qrecords_shrink(2) [OF f(2,3,1) False]
        by (simp add: mem end_seq_def del: of_nat_add of_nat_diff)
    qed
  qed
qed

lemma qpop_rel:
  fixes front :: bool
  assumes "queue_rel s Q" "length n \<le> 255" "queue_readable s n"
  defines "item \<equiv> (if front then hd (snd (Q n)) else last (snd (Q n)))"
  shows "fst (qpop_end n (end_seq front) lt s) =
      (if snd (Q n) = [] then (0, None) else (if write_ok (db s) then 1 else -1, Some item))"
    and "queue_rel (snd (qpop_end n (end_seq front) lt s))
      (if snd (Q n) = [] \<or> \<not> write_ok (db s) then Q else Q(n := qpopped front (Q n)))"
proof -
  obtain f xs where p: "Q n = (f, xs)" by fastforce
  have q: "queue_at (data s) n (f, xs)" using queue_relD [OF assms(1,2)] p by simp
  note tran = qpop_end_tran [OF assms(2,3) q, of front lt]
  have "fst (qpop_end n (end_seq front) lt s) =
      (if xs = [] then (0, None) else (if write_ok (db s) then 1 else -1, Some item)) \<and>
    queue_rel (snd (qpop_end n (end_seq front) lt s))
      (if xs = [] \<or> \<not> write_ok (db s) then Q else Q(n := qpopped front (f, xs)))"
  proof (cases "xs = []")
    case True
    then show ?thesis using tran(2) assms(1) by (simp add: queue_rel_def)
  next
    case False
    have "queue_rel (snd (act_tran lt (qpop_acts n front (f, xs)) 1 s))
        (if write_ok (db s) then Q(n := qpopped front (f, xs)) else Q)"
      by (rule queue_tran [OF assms(1,2)])
        (use qpop_acts_keys qpop_acts_effect [OF assms(2) q, of front] False in \<open>simp_all del: qpop_acts.simps qpopped.simps\<close>)
    with False p tran(1) [OF False] show ?thesis
      by (cases "write_ok (db s)")
        (simp_all add: act_tran_result item_def split_beta Let_def del: qpop_acts.simps qpopped.simps)
  qed
  then show "fst (qpop_end n (end_seq front) lt s) =
      (if snd (Q n) = [] then (0, None) else (if write_ok (db s) then 1 else -1, Some item))"
    "queue_rel (snd (qpop_end n (end_seq front) lt s))
      (if snd (Q n) = [] \<or> \<not> write_ok (db s) then Q else Q(n := qpopped front (Q n)))"
    unfolding p snd_conv by blast+
qed

end
