(* ===== verification/T_queue_Index.thy ===== *)
theory T_queue_Index
  imports T_queue
begin

text \<open>
  The rest of \<open>ssdb/ssdb/t_queue.cpp\<close>: access by index and by sequence number, slices, the list of
  names and the repair by \<open>qfix\<close>; and the refinement of whole sessions on queues.
\<close>

section \<open>Positions\<close>

text \<open>
  The position an index means, counted from the front. A position outside the queue can hit one
  of the two pointer records, which sit below all items.
\<close>

definition qpos :: "nat \<Rightarrow> i64 \<Rightarrow> int" where
  "qpos l i = (if sint i \<ge> 0 then sint i else int l + sint i)"

fun qslot :: "nat \<times> bytes list \<Rightarrow> int \<Rightarrow> bytes option" where
  "qslot (f, xs) p =
     (if xs = [] then None
      else if 0 \<le> p \<and> p < int (length xs) then Some (xs ! nat p)
      else if int f + p = 2 then Some (mem64 (of_nat f))
      else if int f + p = 3 then Some (mem64 (of_nat (f + length xs - 1)))
      else None)"

lemma unat_of_int_pos: "0 \<le> v \<Longrightarrow> v < 2 ^ 64 \<Longrightarrow> unat (of_int v :: u64) = nat v"
  by (simp add: unsigned_of_int take_bit_int_eq_self)

lemma unat_of_int_neg: "- (2 ^ 64) \<le> v \<Longrightarrow> v < 0 \<Longrightarrow> unat (of_int v :: u64) = nat (v + 2 ^ 64)"
proof -
  assume v: "- (2 ^ 64) \<le> v" "v < 0"
  have "(of_int v :: u64) = of_int (v + 2 ^ 64)"
    unfolding word_of_int_eq_iff by (simp add: take_bit_eq_mod)
  moreover have "unat (of_int (v + 2 ^ 64) :: u64) = nat (v + 2 ^ 64)"
    by (rule unat_of_int_pos) (use v in simp_all)
  ultimately show ?thesis by (simp only:)
qed

lemma qrecords_slot:
  assumes f: "10000 < f" "f + length xs < 2 ^ 63" "xs \<noteq> []" and p: "- (2 ^ 63) \<le> p" "p < 2 ^ 63"
  shows "qrecords f xs (of_int (int f + p)) = qslot (f, xs) p"
proof -
  have two: "(of_int v :: u64) = 2 \<longleftrightarrow> unat (of_int v :: u64) = 2"
    "(of_int v :: u64) = 3 \<longleftrightarrow> unat (of_int v :: u64) = 3" for v
    by (auto simp: word_unat_eq_iff simp del: unsigned_of_int)
  show ?thesis
  proof (cases "0 \<le> int f + p")
    case True
    then have "unat (of_int (int f + p) :: u64) = nat (int f + p)"
      using f(2) p(2) by (intro unat_of_int_pos) simp_all
    moreover have "0 \<le> p \<Longrightarrow> nat (int f + p) - f = nat p" by simp
    ultimately show ?thesis using True f
      unfolding qrecords_def qslot.simps QFRONT_SEQ_def QBACK_SEQ_def two by auto
  next
    case False
    then have "unat (of_int (int f + p) :: u64) = nat (int f + p + 2 ^ 64)"
      using p(1) f(1) by (intro unat_of_int_neg) simp_all
    moreover have "2 ^ 63 \<le> nat (int f + p + 2 ^ 64)" using p(1) f(1) by simp
    ultimately show ?thesis using False f
      unfolding qrecords_def qslot.simps QFRONT_SEQ_def QBACK_SEQ_def two by auto
  qed
qed

text \<open>The sequence number an index is turned into.\<close>

lemma index_seq:
  "sint i \<ge> 0 \<Longrightarrow> of_nat f + i = of_int (int f + qpos l i)"
  "sint i < 0 \<Longrightarrow> 0 < f + l \<Longrightarrow> of_nat (f + l - 1) + (i + 1) = (of_int (int f + qpos l i) :: u64)"
proof -
  have i: "(of_int (sint i) :: u64) = i" by simp
  show "sint i \<ge> 0 \<Longrightarrow> of_nat f + i = of_int (int f + qpos l i)"
    by (simp add: qpos_def)
  assume "sint i < 0" "0 < f + l"
  then have "(of_nat (f + l - 1) :: u64) = of_nat (f + l) - of_nat 1" by (intro of_nat_diff) arith
  then show "of_nat (f + l - 1) + (i + 1) = (of_int (int f + qpos l i) :: u64)"
    using \<open>sint i < 0\<close> by (simp add: qpos_def)
qed

lemma qpos_bounds: "l < 2 ^ 63 \<Longrightarrow> - (2 ^ 63) \<le> qpos l i \<and> qpos l i < 2 ^ 63"
  using sint64_bounds [of i] by (auto simp: qpos_def int64_min_def int64_max_def)

text \<open>Both branches of the code that turn an index into a sequence number.\<close>

lemma queue_seek:
  assumes "queue_readable s n" "queue_at (data s) n (f, xs)"
  shows "(if sint i \<ge> 0
      then let (ret, seq) = qget_uint64 (db s) n QFRONT_SEQ in (ret, seq + i)
      else let (ret, seq) = qget_uint64 (db s) n QBACK_SEQ in (ret, seq + (i + 1))) =
    (if xs = [] then (0, if sint i \<ge> 0 then i else i + 1) else (1, of_int (int f + qpos (length xs) i)))"
  using index_seq(1) [of i f "length xs"] index_seq(2) [of i f "length xs"]
  unfolding queue_reads(1,2) [OF assms] by (cases "xs = []") simp_all

lemma qget_slot:
  assumes "queue_readable s n" "queue_at (data s) n (f, xs)"
  shows "qget s n i =
    (case qslot (f, xs) (qpos (length xs) i) of None \<Rightarrow> (0, None) | Some v \<Rightarrow> (1, Some v))"
proof (cases "xs = []")
  case True
  then show ?thesis unfolding qget_def queue_seek [OF assms] by simp
next
  case False
  then have f: "10000 < f" "f + length xs < 2 ^ 63" using assms(2) by simp_all
  have "qrecords f xs (of_int (int f + qpos (length xs) i)) = qslot (f, xs) (qpos (length xs) i)"
    using qpos_bounds [of "length xs" i] f by (intro qrecords_slot [OF f False]) simp_all
  with False show ?thesis
    unfolding qget_def queue_seek [OF assms] queue_reads(4) [OF assms] by (simp del: qslot.simps)
qed

lemma qfront_back:
  assumes "queue_readable s n" "queue_at (data s) n (f, xs)"
  shows "qfront s n = (if xs = [] then (0, None) else (1, Some (hd xs)))"
    and "qback s n = (if xs = [] then (0, None) else (1, Some (last xs)))"
proof -
  have "qrecords f xs (of_nat f) = Some (hd xs)" "qrecords f xs (of_nat (f + length xs - 1)) = Some (last xs)"
    if "xs \<noteq> []"
    using qpop_place(1) [OF assms(2) that, of True] qpop_place(1) [OF assms(2) that, of False] by simp_all
  then show "qfront s n = (if xs = [] then (0, None) else (1, Some (hd xs)))"
    "qback s n = (if xs = [] then (0, None) else (1, Some (last xs)))"
    unfolding qfront_def qback_def queue_reads(1,2,4) [OF assms] by simp_all
qed

section \<open>Writing by index\<close>

definition qset_acts :: "bytes \<Rightarrow> u64 \<Rightarrow> bytes \<Rightarrow> act list" where
  "qset_acts n seq x = [APut (encode_qitem_key n seq) x, ALog BC_QSET (encode_qitem_key n seq)]"

lemma qrecords_update:
  assumes f: "10000 < f" "f + length xs < 2 ^ 63" and i: "i < length xs"
  shows "(qrecords f xs)(of_nat (f + i) \<mapsto> x) = qrecords f (xs[i := x])"
proof
  fix q :: u64
  have u: "unat (of_nat (f + i) :: u64) = f + i" by (rule unat_small) (use f i in simp)
  then have e: "q = of_nat (f + i) \<longleftrightarrow> unat q = f + i" by (metis word_unat_eq_iff)
  have "(of_nat (f + i) :: u64) \<noteq> 2" "(of_nat (f + i) :: u64) \<noteq> 3" using u f(1) by auto
  then show "((qrecords f xs)(of_nat (f + i) \<mapsto> x)) q = qrecords f (xs[i := x]) q"
    unfolding qrecords_def using i by (auto simp: e nth_list_update simp del: of_nat_add)
qed

lemma qset_acts_rel:
  assumes rel: "queue_rel s Q" and n: "length n \<le> 255" and p: "Q n = (f, xs)" and i: "i < length xs"
  shows "queue_rel (snd (act_tran lt (qset_acts n (of_nat (f + i)) x) r s))
    (if write_ok (db s) then Q(n := (f, xs[i := x])) else Q)"
proof (rule queue_tran [OF rel n])
  show "\<forall>w \<in> set (acts_ops (qset_acts n (of_nat (f + i)) x)). wop_key w \<in> queue_keys n"
    by (simp add: qset_acts_def queue_keys_def)
  have q: "queue_at (data s) n (f, xs)" using queue_relD [OF rel n] p by simp
  have ne: "xs \<noteq> []" using i by auto
  with q have f: "10000 < f" "f + length xs < 2 ^ 63" "xs \<noteq> []" by simp_all
  show "queue_at (fold mstep (acts_ops (qset_acts n (of_nat (f + i)) x)) (data s)) n (f, xs[i := x])"
    using q qrecords_update [OF f(1,2) i, of x] f(3)
    by (simp add: qset_acts_def qitem_family.members_item [OF n n] del: of_nat_add)
qed

lemma qset_tran:
  fixes i :: i64
  assumes n: "length n \<le> 255" and rd: "queue_readable s n" and q: "queue_at (data s) n (f, xs)"
  defines "p \<equiv> qpos (length xs) i"
  shows "qset n i x lt s =
    (if 0 \<le> p \<and> p < int (length xs) then act_tran lt (qset_acts n (of_nat (f + nat p)) x) 1 s
     else (0, abandon s))"
proof -
  let ?s = "bl_begin s"
  have rd': "queue_readable ?s n" using rd queue_readable_db [of ?s s n] by simp
  have q': "queue_at (data ?s) n (f, xs)" using q by (simp only: bl_begin_frame)
  have rng: "(sint i \<ge> int (length xs) \<or> sint i < - int (length xs)) \<longleftrightarrow> \<not> (0 \<le> p \<and> p < int (length xs))"
    by (auto simp: p_def qpos_def)
  have one: "qset_one n seq x s' = (0, bl_Put (encode_qitem_key n seq) x s')" for seq s'
    using n by (simp add: qset_one_def)
  show ?thesis
  proof (cases "0 \<le> p \<and> p < int (length xs)")
    case True
    then have "(of_int (int f + p) :: u64) = of_nat (f + nat p)" by simp
    with True rng show ?thesis
      unfolding qset_def transaction_def Let_def queue_reads(3) [OF rd' q']
        queue_seek [OF rd' q', unfolded Let_def] p_def [symmetric] act_tran_def
      by (auto simp: one qset_acts_def)
  next
    case False
    then have out: "sint i \<ge> int (length xs) \<or> sint i < - int (length xs)" using rng by blast
    show ?thesis
      unfolding qset_def transaction_def Let_def queue_reads(3) [OF rd' q'] using out
      by (simp only: False if_False) simp
  qed
qed

section \<open>Refinement\<close>

datatype queue_cmd =
    QSize bytes | QFront bytes | QBack bytes | QPushFront bytes bytes | QPushBack bytes bytes
  | QPopFront bytes | QPopBack bytes | QSet bytes i64 bytes | QGet bytes i64

fun queue_cmd_name :: "queue_cmd \<Rightarrow> bytes" where
  "queue_cmd_name (QSize n) = n" | "queue_cmd_name (QFront n) = n" | "queue_cmd_name (QBack n) = n"
| "queue_cmd_name (QPushFront n x) = n" | "queue_cmd_name (QPushBack n x) = n"
| "queue_cmd_name (QPopFront n) = n" | "queue_cmd_name (QPopBack n) = n"
| "queue_cmd_name (QSet n i x) = n" | "queue_cmd_name (QGet n i) = n"

fun queue_exec :: "u8 \<Rightarrow> queue_cmd \<Rightarrow> ssdb \<Rightarrow> (int \<times> bytes option) \<times> ssdb" where
  "queue_exec lt (QSize n) s = ((qsize s n, None), s)"
| "queue_exec lt (QFront n) s = (qfront s n, s)"
| "queue_exec lt (QBack n) s = (qback s n, s)"
| "queue_exec lt (QPushFront n x) s = (let (r, s') = qpush_front n x lt s in ((r, None), s'))"
| "queue_exec lt (QPushBack n x) s = (let (r, s') = qpush_back n x lt s in ((r, None), s'))"
| "queue_exec lt (QPopFront n) s = qpop_front n lt s"
| "queue_exec lt (QPopBack n) s = qpop_back n lt s"
| "queue_exec lt (QSet n i x) s = (let (r, s') = qset n i x lt s in ((r, None), s'))"
| "queue_exec lt (QGet n i) s = (qget s n i, s)"

text \<open>
  On lists, each with the position of its front in the range of sequence numbers. \<open>w\<close> says
  whether the storage accepts the write; a pop whose write fails still hands out the item.
\<close>

fun push_spec :: "bool \<Rightarrow> bool \<Rightarrow> bytes \<Rightarrow> bytes \<Rightarrow> (bytes \<Rightarrow> nat \<times> bytes list) \<Rightarrow>
    (int \<times> bytes option) \<times> (bytes \<Rightarrow> nat \<times> bytes list)" where
  "push_spec w front n x Q =
     (if qfull front (Q n) \<or> \<not> w then ((-1, None), Q)
      else ((int (length (snd (Q n))) + 1, None), Q(n := qpushed front x (Q n))))"

fun pop_spec :: "bool \<Rightarrow> bool \<Rightarrow> bytes \<Rightarrow> (bytes \<Rightarrow> nat \<times> bytes list) \<Rightarrow>
    (int \<times> bytes option) \<times> (bytes \<Rightarrow> nat \<times> bytes list)" where
  "pop_spec w front n Q =
     (if snd (Q n) = [] then ((0, None), Q)
      else let x = (if front then hd (snd (Q n)) else last (snd (Q n)))
           in if w then ((1, Some x), Q(n := qpopped front (Q n))) else ((-1, Some x), Q))"

fun queue_spec :: "bool \<Rightarrow> queue_cmd \<Rightarrow> (bytes \<Rightarrow> nat \<times> bytes list) \<Rightarrow>
    (int \<times> bytes option) \<times> (bytes \<Rightarrow> nat \<times> bytes list)" where
  "queue_spec w (QSize n) Q = ((int (length (snd (Q n))), None), Q)"
| "queue_spec w (QFront n) Q = (if snd (Q n) = [] then (0, None) else (1, Some (hd (snd (Q n)))), Q)"
| "queue_spec w (QBack n) Q = (if snd (Q n) = [] then (0, None) else (1, Some (last (snd (Q n)))), Q)"
| "queue_spec w (QPushFront n x) Q = push_spec w True n x Q"
| "queue_spec w (QPushBack n x) Q = push_spec w False n x Q"
| "queue_spec w (QPopFront n) Q = pop_spec w True n Q"
| "queue_spec w (QPopBack n) Q = pop_spec w False n Q"
| "queue_spec w (QSet n i x) Q =
     (let (f, xs) = Q n; p = qpos (length xs) i
      in if 0 \<le> p \<and> p < int (length xs)
         then spec_write w 1 None Q (Q(n := (f, xs[nat p := x])))
         else ((0, None), Q))"
| "queue_spec w (QGet n i) Q =
     (case qslot (Q n) (qpos (length (snd (Q n))) i) of None \<Rightarrow> (0, None) | Some v \<Rightarrow> (1, Some v), Q)"

lemma end_seqs: "QFRONT_SEQ = end_seq True" "QBACK_SEQ = end_seq False"
  by (simp_all add: end_seq_def)

lemma queue_exec_spec:
  assumes rel: "queue_rel s Q" and n: "length (queue_cmd_name c) \<le> 255"
    and rd: "queue_readable s (queue_cmd_name c)"
  shows "fst (queue_exec lt c s) = fst (queue_spec (write_ok (db s)) c Q) \<and>
    queue_rel (snd (queue_exec lt c s)) (snd (queue_spec (write_ok (db s)) c Q))"
proof -
  let ?n = "queue_cmd_name c"
  obtain f xs where p: "Q ?n = (f, xs)" by fastforce
  have q: "queue_at (data s) ?n (f, xs)" using queue_relD [OF rel n] p by simp
  have push: "fst (let (r, s') = qpush_end ?n x (end_seq front) lt s in ((r, None), s')) =
        fst (push_spec (write_ok (db s)) front ?n x Q) \<and>
      queue_rel (snd (let (r, s') = qpush_end ?n x (end_seq front) lt s in ((r, None :: bytes option), s')))
        (snd (push_spec (write_ok (db s)) front ?n x Q))" for front x
    using qpush_rel [OF rel n rd, of x front lt]
    by (cases "qfull front (Q ?n) \<or> \<not> write_ok (db s)") (simp_all add: split_beta Let_def)
  have pop: "fst (qpop_end ?n (end_seq front) lt s) = fst (pop_spec (write_ok (db s)) front ?n Q) \<and>
      queue_rel (snd (qpop_end ?n (end_seq front) lt s)) (snd (pop_spec (write_ok (db s)) front ?n Q))" for front
    using qpop_rel [OF rel n rd, of front lt]
    by (cases "snd (Q ?n) = []"; cases "write_ok (db s)") (simp_all add: Let_def)
  show ?thesis
  proof (cases c)
    case (QSet m i x)
    then have m: "?n = m" by simp
    let ?p = "qpos (length xs) i"
    show ?thesis
    proof (cases "0 \<le> ?p \<and> ?p < int (length xs)")
      case True
      then have "nat ?p < length xs" by (simp only: nat_less_iff)
      from qset_acts_rel [OF rel n p this, of lt x 1] True show ?thesis
        using qset_tran [OF n rd q, of i x lt] p
        by (cases "write_ok (db s)")
          (simp_all add: QSet spec_write_def act_tran_result split_beta Let_def del: of_nat_add)
    next
      case False
      then show ?thesis
        using qset_tran [OF n rd q, of i x lt] p rel
        by (simp only: QSet queue_exec.simps queue_spec.simps queue_cmd_name.simps prod.case Let_def if_False)
          (simp add: queue_rel_def)
    qed
  next
    case (QGet m i)
    then show ?thesis using qget_slot [OF rd q, of i] p rel by (simp del: qslot.simps)
  next
    case (QPushFront m x)
    then show ?thesis using push [of x True] by (simp add: qpush_front_def end_seqs del: push_spec.simps QFRONT_SEQ_def)
  next
    case (QPushBack m x)
    then show ?thesis using push [of x False] by (simp add: qpush_back_def end_seqs del: push_spec.simps QBACK_SEQ_def)
  next
    case (QPopFront m)
    then show ?thesis using pop [of True] by (simp add: qpop_front_def end_seqs del: pop_spec.simps QFRONT_SEQ_def)
  next
    case (QPopBack m)
    then show ?thesis using pop [of False] by (simp add: qpop_back_def end_seqs del: pop_spec.simps QBACK_SEQ_def)
  qed (use queue_reads(3) [OF rd q] qfront_back [OF rd q] p rel in simp_all)
qed

lemma queue_exec_reliable:
  assumes "queue_rel s Q" "length (queue_cmd_name c) \<le> 255" "reliable (db s)"
  shows "reliable (db (snd (queue_exec lt c s)))"
proof -
  let ?n = "queue_cmd_name c"
  obtain f xs where p: "Q ?n = (f, xs)" by fastforce
  have q: "queue_at (data s) ?n (f, xs)" using queue_relD [OF assms(1,2)] p by simp
  note rd = queue_readable_reliable [OF assms(3), of ?n]
  note tran = qpush_end_tran [OF assms(2) rd q] qpop_end_tran [OF assms(2) rd q] qset_tran [OF assms(2) rd q]
  have push: "reliable (db (snd (qpush_end ?n x (end_seq front) lt s)))" for front x
    using tran(1,2) [of front x lt] assms(3) by (cases "qfull front (f, xs)") (simp_all del: qfull.simps qpush_acts.simps)
  have pop: "reliable (db (snd (qpop_end ?n (end_seq front) lt s)))" for front
    using tran(3,4) [of front lt] assms(3)
    by (cases "xs = []") (simp_all add: split_beta Let_def del: qpop_acts.simps)
  have upd: "reliable (db (snd (qset ?n i x lt s)))" for i x
    using tran(5) [of i x lt] assms(3) by simp
  show ?thesis
    using push [of _ True] push [of _ False] pop [of True] pop [of False] upd assms(3)
    by (cases c)
      (simp_all add: qpush_front_def qpush_back_def qpop_front_def qpop_back_def end_seqs split_beta Let_def
        del: QFRONT_SEQ_def QBACK_SEQ_def)
qed

interpretation queue_session: session_refinement "queue_exec lt" "queue_spec True"
    "\<lambda>c. length (queue_cmd_name c) \<le> 255" "\<lambda>s Q. queue_rel s Q \<and> reliable (db s)" for lt
  by unfold_locales
    (use queue_exec_spec queue_exec_reliable queue_readable_reliable in \<open>fastforce simp del: queue_exec.simps queue_spec.simps\<close>)

lemma queue_rel_empty [simp]: "queue_rel empty_ssdb (\<lambda>_. (0, []))"
  by (simp add: queue_rel_def members_def empty_ldb_def data_map_def)

text \<open>
  every command on queues, from either end and by index, answers and changes the lists as the
  specification says, with the errors of full queues and failed writes; afterwards the two
  pointers, the counter and the items of each queue describe the new lists.
\<close>

theorem queue_exec_refines:
  assumes "queue_rel s Q" "length (queue_cmd_name c) \<le> 255" "queue_readable s (queue_cmd_name c)"
  shows "fst (queue_exec lt c s) = fst (queue_spec (write_ok (db s)) c Q) \<and>
    queue_rel (snd (queue_exec lt c s)) (snd (queue_spec (write_ok (db s)) c Q))"
  by (rule queue_exec_spec [OF assms])

lemma queue_exec_refines_witness:
  "fst (queue_exec BT_SYNC (QPushFront [1] [7]) empty_ssdb) = (1, None) \<and>
   queue_rel (snd (queue_exec BT_SYNC (QPushFront [1] [7]) empty_ssdb))
     ((\<lambda>_. (0, []))([1] := (4611686018427387903, [[7]])))"
  using queue_exec_refines [OF queue_rel_empty, of "QPushFront [1] [7]" BT_SYNC]
  by (simp add: queue_readable_reliable qinit_def del: queue_exec.simps)

text \<open>
  a whole session on a storage that does not fail gives the answers the lists give: a queue is
  a double-ended queue.
\<close>

theorem queue_session_refines:
  assumes "queue_rel s Q" "reliable (db s)" "\<forall>c \<in> set cs. length (queue_cmd_name c) \<le> 255"
  shows "fst (run_session (queue_exec lt) cs s) = fst (run_session (queue_spec True) cs Q) \<and>
    queue_rel (snd (run_session (queue_exec lt) cs s)) (snd (run_session (queue_spec True) cs Q))"
  using queue_session.run_refines [of s Q cs lt] assms by blast

lemma queue_session_refines_witness:
  "fst (run_session (queue_exec BT_SYNC)
     [QPushBack [1] [7], QPushFront [1] [8], QPushBack [1] [9], QGet [1] (- 1), QPopFront [1],
      QPopBack [1], QSize [1]] empty_ssdb) =
   [(1, None), (2, None), (3, None), (1, Some [9]), (1, Some [8]), (1, Some [9]), (1, None)]"
proof -
  have "reliable (db empty_ssdb)" by simp
  note app = queue_session_refines [OF queue_rel_empty this, where lt = BT_SYNC]
  show ?thesis
    by (subst app [THEN conjunct1]) (simp_all add: qpos_def qinit_def)
qed

section \<open>Slices\<close>

lemma of_nat_succ_le: "a + 1 < 2 ^ 64 \<Longrightarrow> (of_nat (a + 1) :: u64) = of_nat a + 1"
  by simp

text \<open>From a position inside the queue the loop collects items up to the end number or the last item.\<close>

lemma qslice_loop_items:
  assumes rd: "queue_readable s n" and q: "queue_at (data s) n (f, xs)" and ne: "xs \<noteq> []"
    and e: "unat e = f + k" and b: "b \<le> length xs"
  shows "qslice_loop (db s) n (of_nat (f + b)) e acc =
    Some (0, acc @ take (k + 1 - b) (drop b xs))"
  using b
proof (induction "length xs - b" arbitrary: b acc)
  have f: "10000 < f" "f + length xs < 2 ^ 63" using q ne by simp_all
  have u: "unat (of_nat (f + b) :: u64) = f + b" if "b \<le> length xs" for b
    by (rule unat_small) (use f that in simp)
  {
    case 0
    then have b: "b = length xs" by simp
    have "qrecords f xs (of_nat (f + b)) = None"
      using u [of b] b f(1) by (auto simp: qrecords_def simp del: of_nat_add)
    then have "qget_by_seq (db s) n (of_nat (f + b)) = (0, None)"
      using queue_reads(4) [OF rd q] ne by simp
    then show ?case by (subst qslice_loop.simps) (simp add: b del: of_nat_add)
  next
    case (Suc m)
    then have b: "b < length xs" by simp
    have le: "(of_nat (f + b) :: u64) \<le> e \<longleftrightarrow> b \<le> k"
      using u [of b] b e by (simp add: word_le_nat_alt del: of_nat_add)
    have get: "qget_by_seq (db s) n (of_nat (f + b)) = (1, Some (xs ! b))"
      using queue_reads(4) [OF rd q] ne qrecords_simps(3) [OF f b] by simp
    have "m = length xs - (b + 1)" "b + 1 \<le> length xs" using Suc.hyps(2) b by simp_all
    from Suc.hyps(1) [OF this, of "acc @ [xs ! b]"]
    have IH: "qslice_loop (db s) n (of_nat (f + b) + 1) e (acc @ [xs ! b]) =
        Some (0, (acc @ [xs ! b]) @ take (k + 1 - (b + 1)) (drop (b + 1) xs))"
      by (simp add: ac_simps)
    have "drop b xs = xs ! b # drop (b + 1) xs" using b by (simp add: Cons_nth_drop_Suc)
    moreover have "b \<le> k \<Longrightarrow> k + 1 - b = Suc (k + 1 - (b + 1))" by simp
    ultimately show ?case
      using IH by (subst qslice_loop.simps) (auto simp: le get simp del: of_nat_add)
  }
qed

lemma qslice_loop_none:
  assumes "qget_by_seq (db s) n b = (0, None)"
  shows "qslice_loop (db s) n b e acc = Some (0, acc)"
  using assms by (subst qslice_loop.simps) simp

text \<open>The two numbers \<open>qslice\<close> computes, in every case of signs.\<close>

lemma qslice_seek:
  assumes "queue_readable s n" "queue_at (data s) n (f, xs)"
  shows "qslice s n b e =
    (if xs = [] then Some (0, [])
     else qslice_loop (db s) n (of_int (int f + qpos (length xs) b)) (of_int (int f + qpos (length xs) e)) [])"
proof -
  show ?thesis
    using index_seq(1) [of b f "length xs"] index_seq(2) [of b f "length xs"]
      index_seq(1) [of e f "length xs"] index_seq(2) [of e f "length xs"]
    unfolding qslice_def queue_reads(1,2) [OF assms]
    by (cases "xs = []"; cases "sint b \<ge> 0"; cases "sint e \<ge> 0") (simp_all add: add.assoc del: of_nat_add)
qed

text \<open>Once the first item is found, the loop runs up to the end or the last item.\<close>

lemma qslice_inside:
  assumes "queue_at (data s) n (f, xs)" "queue_readable s n" "xs \<noteq> []"
    and "p < length xs" "pe < 2 ^ 63" "0 \<le> int f + pe"
  shows "qslice_loop (db s) n (of_nat (f + p)) (of_int (int f + pe)) [] =
    Some (0, take (nat (pe + 1) - p) (drop p xs))"
proof (cases "0 \<le> pe")
  case True
  have f: "f + length xs < 2 ^ 63" using assms(1,3) by simp
  have "unat (of_int (int f + pe) :: u64) = nat (int f + pe)"
    using assms(5,6) f by (intro unat_of_int_pos) simp_all
  then have "unat (of_int (int f + pe) :: u64) = f + nat pe" using True by (simp add: nat_add_distrib)
  from qslice_loop_items [OF assms(2,1,3) this, of p] assms(4) True show ?thesis
    by (simp add: nat_add_distrib)
next
  case False
  have f: "f + length xs < 2 ^ 63" using assms(1,3) by simp
  have "unat (of_int (int f + pe) :: u64) = nat (int f + pe)"
    using assms(5,6) f by (intro unat_of_int_pos) simp_all
  moreover have "nat (int f + pe) < f" using False assms(6) by arith
  moreover have "unat (of_nat (f + p) :: u64) = f + p" by (rule unat_small) (use assms(4) f in simp)
  ultimately have "\<not> (of_nat (f + p) :: u64) \<le> of_int (int f + pe)"
    by (simp add: word_le_nat_alt del: of_nat_add)
  with False show ?thesis by (subst qslice_loop.simps) simp
qed

lemma qslice_answers:
  assumes "queue_rel s Q" "length n \<le> 255" "queue_readable s n" "Q n = (f, xs)"
    and "pb = qpos (length xs) b" "pe = qpos (length xs) e"
    and "xs \<noteq> [] \<Longrightarrow> 3 < int f + pb \<and> 0 \<le> int f + pe"
  shows "qslice s n b e =
    Some (0, if pb < 0 then [] else take (nat (pe + 1) - nat pb) (drop (nat pb) xs))"
proof (cases "xs = []")
  case True
  have "queue_at (data s) n (f, xs)" using queue_relD [OF assms(1,2)] assms(4) by simp
  with True show ?thesis using qslice_seek [OF assms(3)] by simp
next
  case False
  have q: "queue_at (data s) n (f, xs)" using queue_relD [OF assms(1,2)] assms(4) by simp
  then have f: "10000 < f" "f + length xs < 2 ^ 63" using False by simp_all
  have bounds: "- (2 ^ 63) \<le> pb" "pb < 2 ^ 63" "pe < 2 ^ 63"
    using qpos_bounds [of "length xs"] f(2) by (simp_all add: assms(5,6))
  have sl: "qslice s n b e = qslice_loop (db s) n (of_int (int f + pb)) (of_int (int f + pe)) []"
    using qslice_seek [OF assms(3) q, of b e] False by (simp add: assms(5,6))
  have none: "qslice s n b e = Some (0, [])" if "\<not> (0 \<le> pb \<and> pb < int (length xs))"
  proof -
    have "qslot (f, xs) pb = None" using assms(7) False that by auto
    then have "qget_by_seq (db s) n (of_int (int f + pb)) = (0, None)"
      using queue_reads(4) [OF assms(3) q] qrecords_slot [OF f False bounds(1,2)] False by simp
    then show ?thesis unfolding sl by (rule qslice_loop_none)
  qed
  show ?thesis
  proof (cases "0 \<le> pb \<and> pb < int (length xs)")
    case out: False
    then have "nat pb \<ge> length xs \<or> pb < 0" by auto
    with none [OF out] show ?thesis by auto
  next
    case True
    then have b: "of_int (int f + pb) = (of_nat (f + nat pb) :: u64)" "nat pb < length xs" by auto
    have "0 \<le> int f + pe" using assms(7) False by simp
    from qslice_inside [OF q assms(3) False b(2) bounds(3) this] True show ?thesis
      unfolding sl b(1) by (simp only: linorder_not_less [symmetric] if_False)
  qed
qed

text \<open>A queue of three items, for the examples.\<close>

definition three_queue :: ssdb where
  "three_queue = snd (run_session (queue_exec BT_SYNC)
     [QPushBack [1] [7], QPushBack [1] [8], QPushFront [1] [6]] empty_ssdb)"

definition three_lists :: "bytes \<Rightarrow> nat \<times> bytes list" where
  "three_lists = (\<lambda>_. (0, []))([1] := (4611686018427387902, [[6], [7], [8]]))"

lemma three_queue_rel: "queue_rel three_queue three_lists" "reliable (db three_queue)"
proof -
  have "queue_rel empty_ssdb (\<lambda>_. (0, [])) \<and> reliable (db empty_ssdb)" by simp
  from queue_session.run_refines [OF this, of "[QPushBack [1] [7], QPushBack [1] [8], QPushFront [1] [6]]" BT_SYNC]
  show "queue_rel three_queue three_lists" "reliable (db three_queue)"
    by (simp_all add: three_queue_def three_lists_def qinit_def del: queue_exec.simps)
qed

text \<open>
  C23: on a storage whose reads succeed \<open>qslice\<close> returns, with status 0 and the items from index
  \<open>begin\<close> to index \<open>end\<close>, negative indexes counting from the back, provided neither index reaches
  down to the two pointer records. A slice that begins before the front is empty, even when it
  ends inside the queue.
\<close>

theorem qslice_items:
  assumes "queue_rel s Q" "length n \<le> 255" "queue_readable s n" "Q n = (f, xs)"
    and "pb = qpos (length xs) b" "pe = qpos (length xs) e"
    and "xs \<noteq> [] \<Longrightarrow> 3 < int f + pb \<and> 0 \<le> int f + pe"
  shows "qslice s n b e =
    Some (0, if pb < 0 then [] else take (nat (pe + 1) - nat pb) (drop (nat pb) xs))"
  using assms by (rule qslice_answers)

lemma qslice_items_witness: "qslice three_queue [1] 1 (- 1) = Some (0, [[7], [8]])"
  using qslice_items [OF three_queue_rel(1) _ queue_readable_reliable [OF three_queue_rel(2)],
      of "[1]" 4611686018427387902 "[[6], [7], [8]]" 1 1 2 "- 1"]
  by (simp add: three_lists_def qpos_def)

section \<open>Writing by sequence number\<close>

lemma qset_by_seq_tran:
  assumes n: "length n \<le> 255" and rd: "queue_readable s n" and q: "queue_at (data s) n (f, xs)"
    and ne: "xs \<noteq> []"
  shows "qset_by_seq n seq x lt s =
    (if f \<le> unat seq \<and> unat seq \<le> f + length xs then act_tran lt (qset_acts n seq x) 1 s
     else (0, abandon s))"
proof -
  let ?s = "bl_begin s"
  have f: "10000 < f" "f + length xs < 2 ^ 63" using q ne by simp_all
  have rd': "queue_readable ?s n" using rd queue_readable_db [of ?s s n] by simp
  have q': "queue_at (data ?s) n (f, xs)" using q by (simp only: bl_begin_frame)
  have u: "unat (of_nat f :: u64) = f" "unat (of_nat (f + length xs) :: u64) = f + length xs"
    by (rule unat_small; use f in simp)+
  have max: "of_nat f + of_int (int (length xs)) = (of_nat (f + length xs) :: u64)" by simp
  have rng: "(seq < of_nat f \<or> seq > of_nat (f + length xs)) \<longleftrightarrow>
      \<not> (f \<le> unat seq \<and> unat seq \<le> f + length xs)"
    unfolding word_less_nat_alt u by auto
  have one: "qset_one n seq x s' = (0, bl_Put (encode_qitem_key n seq) x s')" for s'
    using n by (simp add: qset_one_def)
  show ?thesis
    unfolding qset_by_seq_def transaction_def Let_def queue_reads(1,3) [OF rd' q'] act_tran_def
    using ne rng max by (auto simp: one qset_acts_def simp del: of_nat_add)
qed

text \<open>A number one past the last item: the write happens, but no pointer or count knows of it.\<close>

lemma qset_past_end:
  assumes "queue_at (data s) n (f, xs)" "length n \<le> 255" "queue_readable s n" "write_ok (db s)"
    and "xs \<noteq> []" "unat seq = f + length xs" "s' = snd (act_tran lt (qset_acts n seq x) 1 s)"
  shows "data s' (encode_qitem_key n seq) = Some x \<and> qsize s' n = int (length xs) \<and>
    qback s' n = (1, Some (last xs))"
proof -
  have f: "10000 < f" "f + length xs < 2 ^ 63" using assms(1,5) by simp_all
  have d: "data s' = (data s)(encode_qitem_key n seq \<mapsto> x)"
    using assms(4) unfolding assms(7) by (subst act_tran_data) (simp_all add: qset_acts_def)
  have rd': "queue_readable s' n" using assms(3) by (simp add: assms(7) queue_readable_def)
  have mem: "members encode_qitem_key (data s') n = (qrecords f xs)(seq \<mapsto> x)"
    using assms(1,5) by (simp add: d qitem_family.members_item [OF assms(2,2)])
  have ne: "seq \<noteq> 2" "seq \<noteq> 3" "of_nat (f + length xs - 1) \<noteq> seq"
    using assms(5,6) f unat_small [of "f + length xs - 1"] by auto
  have sz: "qsize s' n = int (length xs)"
    using assms(1,5) rd' by (simp add: qsize_def queue_readable_def ldb_get_data d sint_of_nat_small)
  have "qget_uint64 (db s') n QBACK_SEQ = (1, of_nat (f + length xs - 1))"
    using ne by (simp add: qget_uint64_def qget_by_seq_members [OF rd'] mem)
  then have "qback s' n = (1, Some (last xs))"
    using ne qpop_place(1) [OF assms(1,5), of False]
    by (simp add: qback_def qget_by_seq_members [OF rd'] mem)
  with sz show ?thesis by (simp add: d)
qed

text \<open>
  C24: \<open>qset_by_seq\<close> on a queue with items accepts the numbers of its items and the one after the
  last. For the first it replaces the item; for the latter it answers 1 and stores a record that
  belongs to no item: the size and the back of the queue stay what they were. The records of the
  queue can be read, and the write succeeds.
\<close>

theorem qset_by_seq_range:
  assumes "queue_rel s Q" "length n \<le> 255" "queue_readable s n" "write_ok (db s)"
    and "Q n = (f, xs)" "xs \<noteq> []" "(r, s') = qset_by_seq n seq x lt s"
  shows "r = (if f \<le> unat seq \<and> unat seq \<le> f + length xs then 1 else 0) \<and>
    (if unat seq = f + length xs
     then data s' (encode_qitem_key n seq) = Some x \<and> qsize s' n = int (length xs) \<and>
       qback s' n = (1, Some (last xs))
     else queue_rel s' (if r = 1 then Q(n := (f, xs[unat seq - f := x])) else Q))"
proof -
  have q: "queue_at (data s) n (f, xs)" using queue_relD [OF assms(1,2)] assms(5) by simp
  then have f: "10000 < f" "f + length xs < 2 ^ 63" using assms(6) by simp_all
  note tran = qset_by_seq_tran [OF assms(2,3) q assms(6), of seq x lt, folded assms(7)]
  consider (out) "\<not> (f \<le> unat seq \<and> unat seq \<le> f + length xs)"
    | (inside) "f \<le> unat seq" "unat seq < f + length xs" | (past) "unat seq = f + length xs" by linarith
  then show ?thesis
  proof cases
    case out
    then have ne: "unat seq \<noteq> f + length xs" and "(r, s') = (0, abandon s)"
      using tran by (auto simp only: if_False)
    then have rs: "r = 0" "s' = abandon s" by simp_all
    from ne out assms(1) show ?thesis unfolding rs by (simp only: if_False) (simp add: queue_rel_def)
  next
    case inside
    then obtain i where i: "unat seq = f + i" "i < length xs" by (metis add_less_cancel_left le_Suc_ex)
    have "unat (of_nat (f + i) :: u64) = f + i" by (rule unat_small) (use i(2) f in simp)
    then have "seq = of_nat (f + i)" unfolding word_unat_eq_iff by (simp only: i(1))
    with inside i tran have rs: "r = 1" "s' = snd (act_tran lt (qset_acts n (of_nat (f + i)) x) 1 s)"
      using assms(4) act_tran_result [of lt "qset_acts n (of_nat (f + i)) x" 1 s]
      by (metis fst_conv less_imp_le snd_conv)+
    then show ?thesis
      using qset_acts_rel [OF assms(1,2,5) i(2), of lt x 1] assms(4) inside i by simp
  next
    case past
    have rs: "r = 1" "s' = snd (act_tran lt (qset_acts n seq x) 1 s)"
      using past tran assms(4) act_tran_result [of lt "qset_acts n seq x" 1 s] by (metis fst_conv le_add1 order_refl snd_conv)+
    with past qset_past_end [OF q assms(2-4,6) past rs(2)] show ?thesis by simp
  qed
qed

lemma qset_by_seq_range_witness:
  "fst (qset_by_seq [1] 4611686018427387905 [9] BT_SYNC three_queue) = 1 \<and>
   qback (snd (qset_by_seq [1] 4611686018427387905 [9] BT_SYNC three_queue)) [1] = (1, Some [8])"
  using qset_by_seq_range [OF three_queue_rel(1) _ queue_readable_reliable [OF three_queue_rel(2)] _ _ _
      prod.collapse, of "[1]" 4611686018427387902 "[[6], [7], [8]]" 4611686018427387905 "[9]" BT_SYNC]
    three_queue_rel(2)
  by (simp add: three_lists_def)

section \<open>Listing and repair\<close>

text \<open>
  \<open>qlist\<close> lists in order the names after \<open>name_s\<close> up to \<open>name_e\<close> that have a size record, and
  those are the names of the queues that have an item.
\<close>

theorem qlist_names:
  assumes "queue_rel s Q"
  shows "qlist s a b c =
      take (unat c) (filter (\<lambda>x. a < x \<and> (b = [] \<or> x \<le> b)) (names_of DT_QSIZE (tbl (db s)))) \<and>
    (\<forall>x. length x \<le> 255 \<longrightarrow>
       x \<in> set (names_of DT_QSIZE (tbl (db s))) \<longleftrightarrow> snd (Q x) \<noteq> [])"
proof
  have srt: "sorted_keys (tbl (db s))" using assms by (simp add: queue_rel_def)
  have app: "encode_qsize_key x = [DT_QSIZE] @ x" for x by (simp add: encode_qsize_key_def)
  show "qlist s a b c =
      take (unat c) (filter (\<lambda>x. a < x \<and> (b = [] \<or> x \<le> b)) (names_of DT_QSIZE (tbl (db s))))"
    unfolding qlist_def Let_def app by (rule qnames.names_asc [OF srt])
  have "x \<in> set (names_of DT_QSIZE (tbl (db s))) \<longleftrightarrow> snd (Q x) \<noteq> []"
    if x: "length x \<le> 255" for x
  proof -
    have "x \<in> set (names_of DT_QSIZE (tbl (db s))) \<longleftrightarrow> data s (encode_qsize_key x) \<noteq> None"
      by (simp add: names_of_def domIff dom_map_of_conv_image_fst [symmetric] map_of_block_entries
          data_map_def app)
    also have "\<dots> \<longleftrightarrow> snd (Q x) \<noteq> []"
      using queue_relD [OF assms x] by (cases "Q x") (simp split: if_splits)
    finally show ?thesis .
  qed
  then show "\<forall>x. length x \<le> 255 \<longrightarrow>
      x \<in> set (names_of DT_QSIZE (tbl (db s))) \<longleftrightarrow> snd (Q x) \<noteq> []" by blast
qed

lemma qlist_names_witness: "[1] \<in> set (names_of DT_QSIZE (tbl (db three_queue))) \<and> qlist three_queue [] [] 0 = []"
  using qlist_names [OF three_queue_rel(1), of "[]" "[]" 0] by (simp add: three_lists_def)

text \<open>
  The damage \<open>qfix\<close> repairs: the items of the queue are in place and no other key of the queue
  is, its counter and pointers hold anything.
\<close>

definition queue_items :: "(bytes \<rightharpoonup> bytes) \<Rightarrow> bytes \<Rightarrow> nat \<Rightarrow> bytes list \<Rightarrow> bool" where
  "queue_items m n f xs \<longleftrightarrow>
     10000 < f \<and> f + length xs < 2 ^ 63 \<and>
     (\<forall>x. m x \<noteq> None \<and> prefix (name_prefix DT_QUEUE n) x \<longrightarrow> x \<in> range (encode_qitem_key n)) \<and>
     (\<forall>q. q \<noteq> QFRONT_SEQ \<and> q \<noteq> QBACK_SEQ \<longrightarrow>
        m (encode_qitem_key n q) =
          (if f \<le> unat q \<and> unat q < f + length xs then Some (xs ! (unat q - f)) else None))"

lemma encode_qitem_nonempty [simp]: "encode_qitem_key n q \<noteq> []"
  by (simp add: encode_qitem_key_def)

lemma encode_qitem_less: "encode_qitem_key n p < encode_qitem_key n q \<longleftrightarrow> p < q"
  by (simp add: encode_qitem_key_def big_endian64_order)

lemma encode_qitem_le: "encode_qitem_key n p \<le> encode_qitem_key n q \<longleftrightarrow> p \<le> q"
  by (simp add: encode_qitem_less flip: not_less)

lemma encode_qitem_prefix: "encode_qitem_key n q = name_prefix DT_QUEUE n @ mem64 (big_endian64 q)"
  by (simp add: encode_qitem_key_def name_prefix_def)

lemma sorted_keys_unique:
  assumes "sorted_keys xs" "sorted_keys ys" "set xs = set ys"
  shows "xs = ys"
proof (rule map_sorted_distinct_set_unique [OF _ _ _ _ _ assms(3)])
  show "inj_on fst (set xs \<union> set ys)"
    using sorted_keys_distinct [OF assms(2)] assms(3) by (simp add: distinct_map)
qed (use assms(1,2) in \<open>simp_all add: sorted_keys_def strict_sorted_iff\<close>)

lemma qfix_range:
  assumes srt: "sorted_keys (tbl (db s))" and it: "queue_items (data s) n f xs"
  shows "range_asc (tbl (db s)) (encode_qitem_key n 9999) (encode_qitem_key n 9223372036854775807) =
    map (\<lambda>i. (encode_qitem_key n (of_nat (f + i)), xs ! i)) [0..<length xs]"
    (is "?r = ?m")
proof (rule sorted_keys_unique)
  have f: "10000 < f" "f + length xs < 2 ^ 63"
    and wf: "\<And>x. data s x \<noteq> None \<Longrightarrow> prefix (name_prefix DT_QUEUE n) x \<Longrightarrow> x \<in> range (encode_qitem_key n)"
    and items: "\<And>q. q \<noteq> 2 \<Longrightarrow> q \<noteq> 3 \<Longrightarrow> data s (encode_qitem_key n q) =
          (if f \<le> unat q \<and> unat q < f + length xs then Some (xs ! (unat q - f)) else None)"
    using it by (simp_all add: queue_items_def)
  have u: "unat (of_nat (f + i) :: u64) = f + i" if "i < length xs" for i
    by (rule unat_small) (use that f in simp)
  show "sorted_keys ?r" by (rule sorted_range_asc [OF srt])
  show "sorted_keys ?m"
    unfolding sorted_keys_def sorted_wrt_map
    by (rule sorted_wrt_mono_rel [OF _ sorted_wrt_upt])
      (use u in \<open>simp add: encode_qitem_less word_less_nat_alt del: of_nat_add\<close>)
  have mem: "(k, v) \<in> set ?r \<longleftrightarrow> (\<exists>i < length xs. k = encode_qitem_key n (of_nat (f + i)) \<and> v = xs ! i)" for k v
  proof
    assume kv: "(k, v) \<in> set ?r"
    then have k: "(k, v) \<in> set (tbl (db s))" "encode_qitem_key n 9999 < k"
      "k \<le> encode_qitem_key n 9223372036854775807"
      by (auto simp: range_asc_def in_bound_def)
    then have pre: "prefix (name_prefix DT_QUEUE n) k"
      unfolding encode_qitem_prefix by (meson less_imp_le prefix_interval prefixI)
    then have "\<not> is_log_key k" by (auto simp: name_prefix_def prefix_def)
    then have d: "data s k = Some v" using k(1) srt by (simp add: data_map_def sorted_keys_map_of)
    with wf pre obtain q where q: "k = encode_qitem_key n q" by blast
    with k have "9999 < q" by (simp add: encode_qitem_less)
    then have "q \<noteq> 2" "q \<noteq> 3" by auto
    with items [of q] d q have "f \<le> unat q" "unat q < f + length xs" "v = xs ! (unat q - f)"
      by (simp_all split: if_splits)
    moreover have "q = of_nat (f + (unat q - f))" using calculation(1) by simp
    ultimately show "\<exists>i < length xs. k = encode_qitem_key n (of_nat (f + i)) \<and> v = xs ! i"
      using q by (intro exI [of _ "unat q - f"]) auto
  next
    assume "\<exists>i < length xs. k = encode_qitem_key n (of_nat (f + i)) \<and> v = xs ! i"
    then obtain i where i: "i < length xs" "k = encode_qitem_key n (of_nat (f + i))" "v = xs ! i" by blast
    define q :: u64 where "q = of_nat (f + i)"
    have uq: "unat q = f + i" and kq: "k = encode_qitem_key n q"
      using u [OF i(1)] i(2) by (simp_all only: q_def)
    then have "q \<noteq> 2" "q \<noteq> 3" using f(1) by auto
    with items [of q] uq i(1,3) have "data s k = Some v" unfolding kq by simp
    then have "(k, v) \<in> set (tbl (db s))"
      using srt by (simp add: data_map_def sorted_keys_map_of split: if_splits)
    moreover have "9999 < q" "q \<le> 9223372036854775807"
      using uq f i(1) by (simp_all add: word_less_nat_alt word_le_nat_alt)
    ultimately show "(k, v) \<in> set ?r"
      by (simp add: range_asc_def in_bound_def kq encode_qitem_less encode_qitem_le)
  qed
  show "set ?r = set ?m" using mem by (auto simp: set_eq_iff image_iff)
qed

lemma qfix_scan_items:
  assumes "iter_ok i" "upcoming i = map (\<lambda>j. (encode_qitem_key n (g j), h j)) js"
    and "length n \<le> 255" "\<And>j. j \<in> set js \<Longrightarrow> g j \<noteq> 0"
  shows "qfix_scan i lo hi c =
    Some (if lo = 0 \<and> js \<noteq> [] then g (hd js) else lo, if js = [] then hi else g (last js), c + of_nat (length js))"
  using assms
proof (induction js arbitrary: i lo hi c)
  case Nil
  then obtain i' where "iter_next i = (False, i')" by (metis iter_next_Nil list.simps(8))
  then show ?case by (subst qfix_scan.simps) simp
next
  case (Cons j js)
  have up: "upcoming i = (encode_qitem_key n (g j), h j) # map (\<lambda>j. (encode_qitem_key n (g j), h j)) js"
    using Cons.prems(2) by simp
  obtain i' where i': "iter_next i = (True, i')" "entry i' = (encode_qitem_key n (g j), h j)"
    "upcoming i' = map (\<lambda>j. (encode_qitem_key n (g j), h j)) js" "iter_ok i'"
    using Cons.prems(1) up by (rule iter_next_Cons)
  have "decode_qitem_key (iter_key i') = Some (n, g j)"
    using i'(2) qitem_key.dec_enc [of "(n, g j)"] Cons.prems(3) by (simp add: entry_def)
  moreover have "qfix_scan i' (if lo = 0 then g j else lo) (g j) (c + 1) =
      Some (if lo = 0 then g j else lo, if js = [] then g j else g (last js), c + 1 + of_nat (length js))"
    using Cons.IH [OF i'(4,3) Cons.prems(3), of "if lo = 0 then g j else lo" "g j" "c + 1"] Cons.prems(4)
    by simp
  ultimately show ?case using i'(1)
    by (subst qfix_scan.simps) (cases "lo = 0"; cases "js = []"; simp add: ac_simps)
qed

lemma qfix_tran:
  assumes srt: "sorted_keys (tbl (db s))" and n: "length n \<le> 255" and it: "queue_items (data s) n f xs"
  shows "qfix n s = act_tran 0
    (if xs = [] then [ADel (encode_qsize_key n), ADel (encode_qitem_key n 2), ADel (encode_qitem_key n 3)]
     else [APut (encode_qsize_key n) (mem64 (of_nat (length xs))),
           APut (encode_qitem_key n 2) (mem64 (of_nat f)),
           APut (encode_qitem_key n 3) (mem64 (of_nat (f + length xs - 1)))]) 0 s"
proof -
  let ?s = "bl_begin s"
  let ?i = "ssdb_iterator ?s (encode_qitem_key n 9999) (encode_qitem_key n 9223372036854775807) 9223372036854775807"
  have f: "10000 < f" "f + length xs < 2 ^ 63" using it by (simp_all add: queue_items_def)
  have srt': "sorted_keys (tbl (db ?s))" using srt by simp
  have it': "queue_items (data ?s) n f xs" using it by (simp only: bl_begin_frame)
  have u: "unat (of_nat (f + j) :: u64) = f + j" if "j < length xs" for j
    by (rule unat_small) (use that f in simp)
  have up: "upcoming ?i = map (\<lambda>j. (encode_qitem_key n (of_nat (f + j)), xs ! j)) [0..<length xs]"
    unfolding upcoming_iterator(2) [OF srt'] qfix_range [OF srt' it'] using f by simp
  have nz: "(of_nat (f + j) :: u64) \<noteq> 0" if "j \<in> set [0..<length xs]" for j
  proof -
    have "unat (of_nat (f + j) :: u64) = f + j" using u that by simp
    then show ?thesis using f(1) by auto
  qed
  note scan = qfix_scan_items [OF upcoming_iterator(1) [OF srt'] up n nz, of 0 0 0]
  show ?thesis
  proof (cases "xs = []")
    case True
    then show ?thesis
      unfolding qfix_def transaction_def act_tran_def using scan
      by (simp add: qdel_one_def)
  next
    case False
    have "(of_nat (length xs) :: u64) \<noteq> 0"
      using of_nat_eq_small [of "length xs" 0] False f(2) by simp
    moreover have "last [0..<length xs] = length xs - 1" "hd [0..<length xs] = 0"
      using False by (simp_all add: hd_upt)
    moreover have "f + (length xs - 1) = f + length xs - 1" using False by (cases xs) simp_all
    ultimately show ?thesis
      unfolding qfix_def transaction_def act_tran_def using scan False n
      by (simp add: qset_one_def del: of_nat_add)
  qed
qed

lemma queue_items_at:
  assumes "queue_items m n f xs" "xs \<noteq> []"
    and "m (encode_qitem_key n 2) = Some (mem64 (of_nat f))"
    "m (encode_qitem_key n 3) = Some (mem64 (of_nat (f + length xs - 1)))"
  shows "members encode_qitem_key m n = qrecords f xs"
  using assms by (auto simp: members_def qrecords_def queue_items_def fun_eq_iff)

text \<open>
  C13: when the items of a queue are in place, consecutively, \<open>qfix\<close> on a storage that accepts the
  write answers 0 and leaves a queue in order with exactly these items, whatever its counter and
  pointers were; no other queue is touched.
\<close>

theorem qfix_repairs:
  assumes "sorted_keys (tbl (db s))" "length n \<le> 255" "write_ok (db s)"
    and "queue_items (data s) n f xs" "(r, s') = qfix n s"
  shows "r = 0 \<and> queue_at (data s') n (f, xs) \<and>
    (\<forall>n' p. length n' \<le> 255 \<and> n' \<noteq> n \<longrightarrow> queue_at (data s') n' p = queue_at (data s) n' p)"
proof (intro conjI allI impI)
  let ?as = "if xs = [] then [ADel (encode_qsize_key n), ADel (encode_qitem_key n 2), ADel (encode_qitem_key n 3)]
     else [APut (encode_qsize_key n) (mem64 (of_nat (length xs))),
           APut (encode_qitem_key n 2) (mem64 (of_nat f)),
           APut (encode_qitem_key n 3) (mem64 (of_nat (f + length xs - 1)))]"
  note tran = qfix_tran [OF assms(1,2,4), folded assms(5)]
  then have rs: "r = fst (act_tran 0 ?as 0 s)" "s' = snd (act_tran 0 ?as 0 s)" by (metis fst_conv snd_conv)+
  show "r = 0" unfolding rs act_tran_result using assms(3) by simp
  have d: "data s' = fold mstep (acts_ops ?as) (data s)"
    unfolding rs using assms(3) by (subst act_tran_data) auto
  have f: "10000 < f" "f + length xs < 2 ^ 63" using assms(4) by (simp_all add: queue_items_def)
  note mem = qitem_family.members_item [OF assms(2,2)] qitem_family.members_size
  show "queue_at (data s') n (f, xs)"
  proof (cases "xs = []")
    case True
    have "(members encode_qitem_key (data s) n)(2 := None, 3 := None) = Map.empty"
      using assms(4) True by (auto simp: members_def queue_items_def fun_eq_iff)
    with True show ?thesis by (simp add: d mem)
  next
    case False
    have "\<not> prefix (name_prefix 113 n) (encode_qsize_key n)"
      by (simp add: name_prefix_def encode_qsize_key_def)
    then have "queue_items (data s') n f xs"
      using assms(4) False by (auto simp: queue_items_def d)
    moreover have "data s' (encode_qitem_key n 2) = Some (mem64 (of_nat f))"
      "data s' (encode_qitem_key n 3) = Some (mem64 (of_nat (f + length xs - 1)))"
      "data s' (encode_qsize_key n) = Some (mem64 (of_nat (length xs)))"
      using False by (simp_all add: d)
    ultimately show ?thesis using queue_items_at [of "data s'" n f xs] False f by simp
  qed
  fix n' :: bytes and p assume n': "length n' \<le> 255 \<and> n' \<noteq> n"
  show "queue_at (data s') n' p = queue_at (data s) n' p"
    using n' by (intro queue_at_other [OF assms(2)]) (auto simp: d queue_keys_def)
qed

text \<open>A database with one item of a queue and neither counter nor pointers.\<close>

definition lost_queue :: ssdb where
  "lost_queue = empty_ssdb\<lparr>db := empty_ldb\<lparr>tbl := [(encode_qitem_key [1] 20000, [7])]\<rparr>\<rparr>"

lemma qfix_repairs_witness: "queue_at (data (snd (qfix [1] lost_queue))) [1] (20000, [[7]])"
proof -
  have d: "data lost_queue = [encode_qitem_key [1] 20000 \<mapsto> [7]]"
    by (rule ext) (simp add: lost_queue_def data_map_def)
  have "queue_items (data lost_queue) [1] 20000 [[7]]"
    unfolding d queue_items_def by (auto simp: word_unat_eq_iff)
  moreover have "sorted_keys (tbl (db lost_queue))" "write_ok (db lost_queue)"
    by (simp_all add: lost_queue_def write_ok_def empty_ldb_def)
  ultimately show ?thesis
    using qfix_repairs [of lost_queue "[1]" 20000 "[[7]]", OF _ _ _ _ prod.collapse] by simp
qed

end
