(* ===== verification/Isolation.thy ===== *)
theory Isolation
  imports Transaction_Walk T_kv T_hash T_zset_Order T_queue_Index
begin

text \<open>
  The four data types share one key space and one log. Every key of the database begins with
  the byte of its type, and each command writes keys of its own type only: in any state, on any
  storage, whatever the command answers. From this frame the specifications of the four types
  compose: a session that mixes commands of all types answers as the product of the four.
\<close>

section \<open>Writes within a set of types\<close>

text \<open>The keys of a set of types, and the writes of a transaction that may touch them.\<close>

definition typed :: "u8 set \<Rightarrow> bytes \<Rightarrow> bool" where
  "typed T k \<longleftrightarrow> (\<exists>t \<in> T. prefix [t] k)"

definition within :: "u8 set \<Rightarrow> ldb \<Rightarrow> ssdb \<Rightarrow> bool" where
  "within T d s \<longleftrightarrow> db s = d \<and> (\<forall>w \<in> set (batch s). is_log_key (wop_key w) \<or> typed T (wop_key w))"

text \<open>
  The database \<open>d'\<close> after an operation on \<open>d\<close>: the data of other types is as before, the
  table stays sorted, and the storage fails no more often than its schedule says.
\<close>

definition confined :: "u8 set \<Rightarrow> ldb \<Rightarrow> ldb \<Rightarrow> bool" where
  "confined T d d' \<longleftrightarrow>
     (\<forall>k. \<not> typed T k \<longrightarrow> data_map (tbl d') k = data_map (tbl d) k) \<and>
     (sorted_keys (tbl d) \<longrightarrow> sorted_keys (tbl d')) \<and>
     unreadable d' = unreadable d \<and> suffix (wfaults d') (wfaults d)"

lemma confined_refl [simp, intro]: "confined T d d"
  by (simp add: confined_def)

lemma confined_trans: "confined T d d' \<Longrightarrow> confined T d' d'' \<Longrightarrow> confined T d d''"
  by (auto simp: confined_def intro: suffix_order.trans)

lemma confined_reliable: "confined T d d' \<Longrightarrow> reliable d \<Longrightarrow> reliable d'"
  by (auto simp: confined_def reliable_def)

lemma confinedD:
  assumes "confined T d d'" "\<not> typed T k"
  shows "data_map (tbl d') k = data_map (tbl d) k"
  using assms by (simp add: confined_def)

lemma within_begin: "within T (db s) (bl_begin s)"
  by (simp add: within_def bl_begin_def)

lemma within_steps:
  "typed T k \<Longrightarrow> within T d s \<Longrightarrow> within T d (bl_Put k v s)"
  "typed T k \<Longrightarrow> within T d s \<Longrightarrow> within T d (bl_Delete k s)"
  "within T d s \<Longrightarrow> within T d (add_log lt c k s)"
  "within T d s \<Longrightarrow> within T d s' \<Longrightarrow> within T d (if b then s else s')"
  by (auto simp: within_def bl_Put_def bl_Delete_def add_log_def Let_def)

lemma within_confined: "within T d s \<Longrightarrow> confined T d (db s)"
  by (simp add: within_def)

lemma confined_write:
  assumes "\<forall>w \<in> set ws. is_log_key (wop_key w) \<or> typed T (wop_key w)"
  shows "confined T d (snd (ldb_write ws d))"
proof -
  have "data_map (tbatch ws t) k = data_map t k" if "\<not> typed T k" for k t
    using map_of_tbatch_untouched [of k ws t] assms that by (auto simp: data_map_def)
  then show ?thesis
    by (auto simp: confined_def ldb_write_eq sorted_tbatch intro: suffix_tl)
qed

text \<open>
  A piece of an operation either leaves the transaction open with its writes within the types, or
  it may have committed.
\<close>

abbreviation stays :: "u8 set \<Rightarrow> ldb \<Rightarrow> bool \<Rightarrow> 'r \<times> ssdb \<Rightarrow> bool" where
  "stays T d \<equiv> ends (within T d) (\<lambda>s. confined T d (db s))"

interpretation isolation: transaction_walk "within T d" "\<lambda>s. confined T d (db s)" for T d
proof
  fix s r
  show "within T d s \<Longrightarrow> confined T d (db s)" by (rule within_confined)
  show "within T d s \<Longrightarrow> confined T d (db (snd (commit_ret r s)))"
    using confined_write [of "batch s" T d]
    by (auto simp: within_def commit_ret_def bl_commit_def split_beta Let_def)
  show "confined T d (db s) \<Longrightarrow> confined T d (db (bl_rollback s))" by simp
qed

lemma stays_same: "stays T (db s) False (a, s)"
  by (simp add: ends_def)

lemma stays_transaction:
  "(\<And>s'. within T (db s) s' \<Longrightarrow> stays T (db s) False (body s')) \<Longrightarrow>
     stays T (db s) False (transaction body s)"
  by (rule isolation.ends_transaction [OF within_begin])

lemmas stays_rules = stays_same stays_transaction isolation.ends_rules within_steps

section \<open>The commands\<close>

definition kv_tags :: "u8 set" where "kv_tags = {DT_KV}"
definition hash_tags :: "u8 set" where "hash_tags = {DT_HASH, DT_HSIZE}"
definition zset_tags :: "u8 set" where "zset_tags = {DT_ZSET, DT_ZSCORE, DT_ZSIZE}"
definition queue_tags :: "u8 set" where "queue_tags = {DT_QUEUE, DT_QSIZE}"

lemma typed_keys:
  "typed kv_tags (encode_kv_key k)"
  "typed hash_tags (encode_hash_key n k)" "typed hash_tags (encode_hsize_key n)"
  "typed zset_tags (encode_zset_key n k)" "typed zset_tags (encode_zscore_key n k sc)"
  "typed zset_tags (encode_zsize_key n)"
  "typed queue_tags (encode_qitem_key n q)" "typed queue_tags (encode_qsize_key n)"
  by (simp_all add: typed_def kv_tags_def hash_tags_def zset_tags_def queue_tags_def key_heads)

lemma kv_ends:
  "stays kv_tags (db s) False (kv_set k v lt s)" "stays kv_tags (db s) False (kv_setnx k v lt s)"
  "stays kv_tags (db s) False (kv_getset k v lt s)" "stays kv_tags (db s) False (kv_del k lt s)"
  "stays kv_tags (db s) False (kv_incr k i lt s)"
  unfolding kv_set_def kv_setnx_def kv_getset_def kv_del_def kv_incr_def
  by (intro stays_rules typed_keys; assumption)+

lemma hash_parts:
  assumes "within hash_tags d s"
  shows "stays hash_tags d True (hset_one n k v lt s)" "stays hash_tags d True (hdel_one n k lt s)"
    "stays hash_tags d True (incr_hsize n i s)"
  unfolding hset_one_def hdel_one_def incr_hsize_def
  using assms by (intro stays_rules typed_keys; assumption)+

lemma hash_ends:
  "stays hash_tags (db s) False (hset n k v lt s)" "stays hash_tags (db s) False (hdel n k lt s)"
  "stays hash_tags (db s) False (hincr n k i lt s)"
  unfolding hset_def hdel_def hincr_def
  by (intro stays_rules hash_parts; assumption)+

lemma zset_parts:
  assumes "within zset_tags d s"
  shows "stays zset_tags d True (zset_one n k v lt s)" "stays zset_tags d True (zdel_one n k lt s)"
    "stays zset_tags d True (incr_zsize n i s)"
  unfolding zset_one_def zdel_one_def incr_zsize_def
  using assms by (intro stays_rules typed_keys; assumption)+

lemma zset_ends:
  "stays zset_tags (db s) False (zset n k v lt s)" "stays zset_tags (db s) False (zdel n k lt s)"
  "stays zset_tags (db s) False (zincr n k i lt s)"
  unfolding zset_def zdel_def zincr_def
  by (intro stays_rules zset_parts; assumption)+

lemma queue_parts:
  assumes "within queue_tags d s"
  shows "stays queue_tags d True (qset_one n q x s)" "stays queue_tags d True (qdel_one n q s)"
  unfolding qset_one_def qdel_one_def
  using assms by (intro stays_rules typed_keys; assumption)+

lemma incr_qsize_part: "within queue_tags d s \<Longrightarrow> stays queue_tags d True (incr_qsize n i s)"
  unfolding incr_qsize_def by (intro stays_rules queue_parts typed_keys)

lemma queue_ends:
  "stays queue_tags (db s) False (qpush_end n x q lt s)"
  "stays queue_tags (db s) False (qpop_end n q lt s)" "stays queue_tags (db s) False (qset n j x lt s)"
  unfolding qpush_end_def qpop_end_def qset_def
  by (intro stays_rules queue_parts incr_qsize_part; assumption)+

text \<open>
  The commands of the four types as one command, and the types a command belongs to.
\<close>

datatype command = Kv kv_cmd | Hash hash_cmd | Zset zset_cmd | Queue queue_cmd

fun exec :: "u8 \<Rightarrow> command \<Rightarrow> ssdb \<Rightarrow> (int \<times> bytes option) \<times> ssdb" where
  "exec lt (Kv c) s = kv_exec lt c s"
| "exec lt (Hash c) s = hash_exec lt c s"
| "exec lt (Zset c) s = zset_exec lt c s"
| "exec lt (Queue c) s = queue_exec lt c s"

fun tags :: "command \<Rightarrow> u8 set" where
  "tags (Kv c) = kv_tags" | "tags (Hash c) = hash_tags"
| "tags (Zset c) = zset_tags" | "tags (Queue c) = queue_tags"

lemma exec_ends: "stays (tags c) (db s) False (exec lt c s)"
proof (cases c)
  case (Kv k)
  then show ?thesis by (cases k) (simp_all add: kv_ends [unfolded ends_def] ends_def split_beta Let_def)
next
  case (Hash h)
  then show ?thesis by (cases h) (simp_all add: hash_ends [unfolded ends_def] ends_def split_beta Let_def)
next
  case (Zset z)
  then show ?thesis by (cases z) (simp_all add: zset_ends [unfolded ends_def] ends_def split_beta Let_def)
next
  case (Queue q)
  then show ?thesis
    by (cases q) (simp_all add: queue_ends [unfolded ends_def] ends_def split_beta Let_def
        qpush_front_def qpush_back_def qpop_front_def qpop_back_def)
qed


lemma exec_confined: "confined (tags c) (db s) (db (snd (exec lt c s)))"
  using exec_ends [of c s lt] by (simp add: ends_def)

section \<open>What a confined operation leaves\<close>

lemma untouched:
  assumes "confined T (db s) (db s')" "T \<inter> U = {}" "typed U k"
  shows "data s' k = data s k"
proof -
  have "\<not> typed T k" using assms(2,3) by (cases k) (auto simp: typed_def)
  then show ?thesis by (rule confinedD [OF assms(1)])
qed

lemma tags_disjoint [simp]:
  "kv_tags \<inter> hash_tags = {}" "kv_tags \<inter> zset_tags = {}" "kv_tags \<inter> queue_tags = {}"
  "hash_tags \<inter> kv_tags = {}" "hash_tags \<inter> zset_tags = {}" "hash_tags \<inter> queue_tags = {}"
  "zset_tags \<inter> kv_tags = {}" "zset_tags \<inter> hash_tags = {}" "zset_tags \<inter> queue_tags = {}"
  "queue_tags \<inter> kv_tags = {}" "queue_tags \<inter> hash_tags = {}" "queue_tags \<inter> zset_tags = {}"
  by (simp_all add: kv_tags_def hash_tags_def zset_tags_def queue_tags_def)

lemma kv_frame:
  assumes "confined T (db s) (db s')" "T \<inter> kv_tags = {}"
  shows "kv_map s' = kv_map s"
  using untouched [OF assms] by (simp add: kv_map_def typed_keys fun_eq_iff)

lemma hash_frame:
  assumes c: "confined T (db s) (db s')" "T \<inter> hash_tags = {}"
  shows "hash_map s' = hash_map s" and "hash_inv s \<Longrightarrow> hash_inv s'"
proof -
  note same = untouched [OF c]
  have mem: "members encode_hash_key (data s') n = members encode_hash_key (data s) n" for n
    by (simp add: members_def same typed_keys)
  show "hash_map s' = hash_map s" by (simp add: hash_map_def mem fun_eq_iff)
  have "data s' x = data s x" if "prefix [DT_HASH] x" for x
    using that by (intro same) (auto simp: typed_def hash_tags_def)
  moreover assume "hash_inv s"
  ultimately show "hash_inv s'"
    using c(1) by (auto simp: hash_inv_def hash_ok_def sizes_ok_def mem same typed_keys confined_def
        hash_keys_ok_def)
qed

lemma zset_frame:
  assumes c: "confined T (db s) (db s')" "T \<inter> zset_tags = {}"
  shows "zset_map s' = zset_map s" and "zset_inv s \<Longrightarrow> zset_inv s'"
proof -
  note same = untouched [OF c]
  show "zset_map s' = zset_map s" by (simp add: zset_map_def same typed_keys fun_eq_iff)
  assume "zset_inv s"
  moreover have "zset_ok (data s')" if "zset_ok (data s)"
    using that by (rule zset_ok_cong) (auto intro!: same simp: typed_def zset_tags_def)
  ultimately show "zset_inv s'" using c(1) by (simp add: zset_inv_def confined_def)
qed

lemma queue_frame:
  assumes c: "confined T (db s) (db s')" "T \<inter> queue_tags = {}" and rel: "queue_rel s Q"
  shows "queue_rel s' Q"
proof -
  note same = untouched [OF c(1,2)]
  have mem: "members encode_qitem_key (data s') n = members encode_qitem_key (data s) n" for n
    by (simp add: members_def same typed_keys)
  have "queue_at (data s') n p = queue_at (data s) n p" for n p
    by (cases p) (simp add: mem same typed_keys)
  then show ?thesis using rel c(1) by (simp add: queue_rel_def confined_def)
qed


section \<open>The server as the product of its types\<close>

text \<open>
  What a client can observe: a map of values, the families of maps of the hashes and of the sorted
  sets, and the lists of the queues.
\<close>

record view =
  kv_of :: "bytes \<rightharpoonup> bytes"
  hashes_of :: "bytes \<Rightarrow> bytes \<rightharpoonup> bytes"
  zsets_of :: "bytes \<Rightarrow> bytes \<rightharpoonup> i64"
  queues_of :: "bytes \<Rightarrow> nat \<times> bytes list"

fun spec :: "bool \<Rightarrow> command \<Rightarrow> view \<Rightarrow> (int \<times> bytes option) \<times> view" where
  "spec w (Kv c) v = (let (a, m) = kv_spec w c (kv_of v) in (a, v\<lparr>kv_of := m\<rparr>))"
| "spec w (Hash c) v = (let (a, m) = hash_spec w c (hashes_of v) in (a, v\<lparr>hashes_of := m\<rparr>))"
| "spec w (Zset c) v = (let (a, m) = zset_spec w c (zsets_of v) in (a, v\<lparr>zsets_of := m\<rparr>))"
| "spec w (Queue c) v = (let (a, m) = queue_spec w c (queues_of v) in (a, v\<lparr>queues_of := m\<rparr>))"

text \<open>The database is in order and \<open>v\<close> is what it holds.\<close>

definition shows_view :: "ssdb \<Rightarrow> view \<Rightarrow> bool" where
  "shows_view s v \<longleftrightarrow>
     kv_map s = kv_of v \<and> (hash_inv s \<and> hash_map s = hashes_of v) \<and>
     (zset_inv s \<and> zset_map s = zsets_of v) \<and> queue_rel s (queues_of v)"

text \<open>The counters have room for \<open>b\<close> more members in every hash and sorted set.\<close>

definition has_room :: "ssdb \<Rightarrow> nat \<Rightarrow> bool" where
  "has_room s b \<longleftrightarrow> (\<forall>n. hash_count s n + b < 2 ^ 63 \<and> zset_count s n + b < 2 ^ 63)"

lemma has_room_less: "has_room s b \<Longrightarrow> a \<le> b \<Longrightarrow> has_room s a"
  unfolding has_room_def by (meson add_le_mono le_refl le_less_trans)

lemma has_room_use:
  assumes "has_room s (Suc b)"
    "\<And>n. hash_count s' n \<le> hash_count s n + 1" "\<And>n. zset_count s' n \<le> zset_count s n + 1"
  shows "has_room s' b"
  unfolding has_room_def
proof
  fix n
  show "hash_count s' n + b < 2 ^ 63 \<and> zset_count s' n + b < 2 ^ 63"
    using assms(1) assms(2,3) [of n] unfolding has_room_def
    by (metis add.assoc add_le_mono1 le_less_trans plus_1_eq_Suc)
qed

fun name_of :: "command \<Rightarrow> bytes" where
  "name_of (Kv c) = []"
| "name_of (Hash c) = fst (hash_cmd_key c)"
| "name_of (Zset c) = fst (zset_cmd_key c)"
| "name_of (Queue c) = queue_cmd_name c"

fun readable :: "ssdb \<Rightarrow> command \<Rightarrow> bool" where
  "readable s (Kv c) = kv_readable s (kv_cmd_key c)"
| "readable s (Hash c) = hash_readable s (fst (hash_cmd_key c)) (snd (hash_cmd_key c))"
| "readable s (Zset c) = zset_readable s (fst (zset_cmd_key c)) (snd (zset_cmd_key c))"
| "readable s (Queue c) = queue_readable s (queue_cmd_name c)"

lemma exec_refines:
  assumes "shows_view s v" "length (name_of c) \<le> 255" "readable s c" "has_room s 1"
  shows "fst (exec lt c s) = fst (spec (write_ok (db s)) c v)"
    and "shows_view (snd (exec lt c s)) (snd (spec (write_ok (db s)) c v))"
proof -
  note v = assms(1) [unfolded shows_view_def]
  note frames = kv_frame hash_frame zset_frame queue_frame
  have *: "fst (exec lt c s) = fst (spec (write_ok (db s)) c v) \<and>
      shows_view (snd (exec lt c s)) (snd (spec (write_ok (db s)) c v))"
  proof (cases c)
    case (Kv k)
    note fr = frames [OF exec_confined [of "Kv k" s lt]]
    show ?thesis
      using kv_exec_spec [of s k lt] assms(3) v fr Kv
      by (simp add: shows_view_def split_beta)
  next
    case (Hash h)
    note fr = frames [OF exec_confined [of "Hash h" s lt]]
    show ?thesis
      using hash_exec_spec [of s h "fst (hash_cmd_key h)" "snd (hash_cmd_key h)" lt] assms(2-4) v fr Hash
      by (simp add: shows_view_def split_beta has_room_def)
  next
    case (Zset z)
    note fr = frames [OF exec_confined [of "Zset z" s lt]]
    show ?thesis
      using zset_exec_spec [of s z "fst (zset_cmd_key z)" "snd (zset_cmd_key z)" lt] assms(2-4) v fr Zset
      by (simp add: shows_view_def split_beta has_room_def)
  next
    case (Queue q)
    note fr = frames [OF exec_confined [of "Queue q" s lt]]
    show ?thesis
      using queue_exec_spec [of s "queues_of v" q lt] assms(2,3) v fr Queue
      by (simp add: shows_view_def split_beta)
  qed
  then show "fst (exec lt c s) = fst (spec (write_ok (db s)) c v)"
    and "shows_view (snd (exec lt c s)) (snd (spec (write_ok (db s)) c v))" by simp_all
qed


text \<open>
  A refinement that holds as long as a budget lasts: each step may use one unit of it, here one
  place in a counter of 63 bits.
\<close>

locale budget_refinement =
  fixes impl :: "'c \<Rightarrow> 's \<Rightarrow> 'r \<times> 's"
    and abstract :: "'c \<Rightarrow> 'a \<Rightarrow> 'r \<times> 'a"
    and good :: "'c \<Rightarrow> bool"
    and rel :: "nat \<Rightarrow> 's \<Rightarrow> 'a \<Rightarrow> bool"
  assumes step: "rel (Suc b) s a \<Longrightarrow> good c \<Longrightarrow>
      fst (impl c s) = fst (abstract c a) \<and> rel b (snd (impl c s)) (snd (abstract c a))"
begin

lemma run_within:
  "rel (b + length cs) s a \<Longrightarrow> \<forall>c \<in> set cs. good c \<Longrightarrow>
     fst (run_session impl cs s) = fst (run_session abstract cs a) \<and>
     rel b (snd (run_session impl cs s)) (snd (run_session abstract cs a))"
proof (induction cs arbitrary: s a)
  case (Cons c cs)
  have st: "fst (impl c s) = fst (abstract c a)" "rel (b + length cs) (snd (impl c s)) (snd (abstract c a))"
    using step [of "b + length cs" s a c] Cons.prems by simp_all
  from Cons.IH [OF st(2)] Cons.prems(2) st(1) show ?case by (simp add: case_prod_unfold Let_def)
qed simp

end

lemma readable_reliable: "reliable (db s) \<Longrightarrow> readable s c"
  by (cases c) (simp_all add: hash_readable_reliable zset_readable_reliable queue_readable_reliable)

lemma exec_reliable: "reliable (db s) \<Longrightarrow> reliable (db (snd (exec lt c s)))"
  using confined_reliable [OF exec_confined] .

text \<open>A command adds at most one member to one hash or sorted set.\<close>

lemma exec_room:
  assumes "shows_view s v" "length (name_of c) \<le> 255" "readable s c" "has_room s (Suc b)"
  shows "has_room (snd (exec lt c s)) b"
proof -
  have inv: "hash_inv s" "zset_inv s" using assms(1) by (simp_all add: shows_view_def)
  have one: "has_room s 1" by (rule has_room_less [OF assms(4)]) simp
  have h: "hash_count (snd (exec lt c s)) n \<le> hash_count s n + 1" for n
  proof (cases "\<exists>d. c = Hash d")
    case True
    then obtain d where "c = Hash d" ..
    then show ?thesis using hash_count_exec [OF inv(1), of d lt n] assms(2,3) one by (simp add: has_room_def)
  next
    case False
    then have "tags c \<inter> hash_tags = {}" by (cases c) simp_all
    from hash_frame(1) [OF exec_confined this] show ?thesis by (simp add: hash_count_def)
  qed
  have z: "zset_count (snd (exec lt c s)) n \<le> zset_count s n + 1" for n
  proof (cases "\<exists>d. c = Zset d")
    case True
    then obtain d where "c = Zset d" ..
    then show ?thesis using zset_count_exec [OF inv(2), of d lt n] assms(2,3) one by (simp add: has_room_def)
  next
    case False
    then have "tags c \<inter> zset_tags = {}" by (cases c) simp_all
    from zset_frame(1) [OF exec_confined this] show ?thesis by (simp add: zset_count_def)
  qed
  from has_room_use [OF assms(4) h z] show ?thesis .
qed

interpretation server: budget_refinement "exec lt" "spec True" "\<lambda>c. length (name_of c) \<le> 255"
    "\<lambda>b s v. shows_view s v \<and> reliable (db s) \<and> has_room s b" for lt
proof
  fix b s v c
  assume "shows_view s v \<and> reliable (db s) \<and> has_room s (Suc b)" and n: "length (name_of c) \<le> 255"
  then have v: "shows_view s v" and r: "reliable (db s)" and room: "has_room s (Suc b)" by simp_all
  note rd = readable_reliable [OF r, of c]
  have one: "has_room s 1" by (rule has_room_less [OF room]) simp
  show "fst (exec lt c s) = fst (spec True c v) \<and>
      shows_view (snd (exec lt c s)) (snd (spec True c v)) \<and>
      reliable (db (snd (exec lt c s))) \<and> has_room (snd (exec lt c s)) b"
    using exec_refines [OF v n rd one, of lt] exec_reliable [OF r, of lt c] exec_room [OF v n rd room, of lt] r
    by simp
qed


text \<open>
  C3: one command of any type, on a database in order whose storage can read the records of the
  command, with a name of at most 255 bytes and room in the counters: it answers as the
  specification of its type says, and the four families of values change as that specification
  says, the other three not at all; when the write fails, none of them changes. The invariants of
  all types hold afterwards.
\<close>

theorem server_command_refines:
  assumes "shows_view s v" "length (name_of c) \<le> 255" "readable s c" "has_room s 1"
  shows "fst (exec lt c s) = fst (spec (write_ok (db s)) c v) \<and>
    shows_view (snd (exec lt c s)) (snd (spec (write_ok (db s)) c v))"
  using exec_refines [OF assms, of lt] by blast

lemma shows_empty: "shows_view empty_ssdb \<lparr>kv_of = Map.empty, hashes_of = \<lambda>_. Map.empty,
    zsets_of = \<lambda>_. Map.empty, queues_of = \<lambda>_. (0, [])\<rparr>"
  by (simp add: shows_view_def kv_map_def fun_eq_iff data_map_def)

lemma room_empty: "b < 2 ^ 63 \<Longrightarrow> has_room empty_ssdb b"
  by (simp add: has_room_def hash_count_def zset_count_def)

lemma server_command_refines_witness:
  "fst (exec BT_SYNC (Zset (ZIncr [1] [2] 7)) empty_ssdb) = (1, Some (str_i64 7)) \<and>
   kv_map (snd (exec BT_SYNC (Zset (ZIncr [1] [2] 7)) empty_ssdb)) = Map.empty"
proof -
  have "readable empty_ssdb (Zset (ZIncr [1] [2] 7))" by (rule readable_reliable) simp
  moreover have "length (name_of (Zset (ZIncr [1] [2] 7))) \<le> 255" by simp
  ultimately show ?thesis
    using server_command_refines [OF shows_empty _ _ room_empty, of "Zset (ZIncr [1] [2] 7)" BT_SYNC]
    by (simp add: shows_view_def spec_write_def split_beta Let_def zincr_value_def del: exec.simps)
qed

text \<open>
  C1: a session that mixes commands on strings, hashes, sorted sets and queues, under names that
  may be the same, answers like the product of the four specifications run side by side, and
  leaves the database in order. The database is in order and shows the four families of values at
  the start, the storage fails no read and no write, names have at most 255 bytes, and the counters
  have room for the session. (C3 allows failing writes. After a failed read the counters can be
  wrong, lemma \<open>failed_read_uncounted\<close> of \<open>T_hash\<close>.)
\<close>

theorem server_session_refines:
  assumes "shows_view s v" "reliable (db s)" "has_room s (length cs)"
    and "\<forall>c \<in> set cs. length (name_of c) \<le> 255"
  shows "fst (run_session (exec lt) cs s) = fst (run_session (spec True) cs v) \<and>
    shows_view (snd (run_session (exec lt) cs s)) (snd (run_session (spec True) cs v))"
  using server.run_within [where b = 0] assms by simp

lemma server_session_refines_witness:
  "fst (run_session (exec BT_SYNC)
     [Kv (KSet [1] [9]), Hash (HSet [1] [2] [3]), Queue (QPushBack [1] [7]), Zset (ZIncr [1] [2] 5),
      Hash (HSize [1]), Queue (QPopFront [1]), Kv (KGet [1]), Zset (ZSize [1]), Queue (QSize [1])] empty_ssdb) =
   [(1, None), (1, None), (1, None), (1, Some (str_i64 5)), (1, None), (1, Some [7]), (1, Some [9]),
    (1, None), (0, None)]"
proof -
  have "reliable (db empty_ssdb)" by simp
  from server_session_refines [OF shows_empty this room_empty, of
    "[Kv (KSet [1] [9]), Hash (HSet [1] [2] [3]), Queue (QPushBack [1] [7]), Zset (ZIncr [1] [2] 5),
      Hash (HSize [1]), Queue (QPopFront [1]), Kv (KGet [1]), Zset (ZSize [1]), Queue (QSize [1])]" BT_SYNC]
  show ?thesis
    by (simp add: spec_write_def qinit_def zincr_value_def del: exec.simps)
qed

end
