(* ===== verification/Facade.thy ===== *)
theory Facade
  imports Isolation
begin

text \<open>
  \<open>SSDB.mm\<close> and the part of \<open>SSDB+Extension.mm\<close> that does not archive objects or encode JSON: the
  Objective-C methods an application calls, over the operations of the server. Arguments are not
  \<open>nil\<close>; a string argument is its UTF-8 text, of which the code takes the C string. The
  out-parameters are part of the results, and the log type is the default one.
\<close>

section \<open>SSDB.mm\<close>

definition api_set :: "bytes \<Rightarrow> bytes \<Rightarrow> ssdb \<Rightarrow> bool \<times> ssdb" where
  "api_set key v s =
     (let k = c_str key; (ret, s) = kv_set k v BT_SYNC s
      in if ret = 0 then (True, s) else (False, s))"

text \<open>\<open>out\<close> is what the out-parameter holds before the call, \<open>None\<close> for \<open>nil\<close>.\<close>

definition api_get :: "ssdb \<Rightarrow> bytes \<Rightarrow> bytes option \<Rightarrow> bool \<times> bytes option" where
  "api_get s key out =
     (let k = c_str key; (ret, v) = kv_get s k
      in if ret = 0 then (True, None) else if ret = 1 then (True, v) else (False, out))"

definition api_del :: "bytes \<Rightarrow> ssdb \<Rightarrow> bool \<times> ssdb" where
  "api_del key s =
     (let k = c_str key; (ret, s) = kv_del k BT_SYNC s
      in if ret = 0 then (True, s) else (False, s))"

definition api_hset :: "bytes \<Rightarrow> bytes \<Rightarrow> bytes \<Rightarrow> ssdb \<Rightarrow> bool \<times> ssdb" where
  "api_hset name key v s =
     (let t = c_str name; k = c_str key; (ret, s) = hset t k v BT_SYNC s
      in if ret = 0 then (True, s) else (False, s))"

definition api_hget :: "ssdb \<Rightarrow> bytes \<Rightarrow> bytes \<Rightarrow> bytes option \<Rightarrow> bool \<times> bytes option" where
  "api_hget s name key out =
     (let t = c_str name; k = c_str key; (ret, v) = hget s t k
      in if ret = 0 then (True, None) else if ret = 1 then (True, v) else (False, out))"

definition api_hsize :: "ssdb \<Rightarrow> bytes \<Rightarrow> int" where
  "api_hsize s name = (let size = of_int (hsize s (c_str name)) :: u64 in sint size)"

definition api_hclear :: "bytes \<Rightarrow> ssdb \<Rightarrow> (bool \<times> ssdb) option" where
  "api_hclear name s =
     (case hclear (c_str name) s of
        None \<Rightarrow> None
      | Some (ret, s) \<Rightarrow> Some (if ret = 0 then True else False, s))"

text \<open>
  C39: \<open>setData\<close> and \<open>del\<close> store and remove the value, and \<open>getData\<close> gives back what was
  stored; but both answer NO when they succeed, as they do when the storage fails. Only the empty
  key, for which \<open>setData\<close> stores nothing, is answered YES. The key is within the limit of its length,
  and its record can be read.
\<close>

theorem api_set_answer:
  assumes "key_ok (c_str key)" "kv_readable s (c_str key)"
    and "api_set key v s = (set_ok, s1)" "api_del key s1 = (del_ok, s2)"
  shows "\<not> set_ok \<and> \<not> del_ok \<and>
    kv_map s1 = (if write_ok (db s) then (kv_map s)(c_str key \<mapsto> v) else kv_map s) \<and>
    kv_map s2 = (if write_ok (db s1) then (kv_map s1)(c_str key := None) else kv_map s1) \<and>
    api_get s1 key out = (True, kv_map s1 (c_str key)) \<and> api_set [] v s = (True, s)"
proof -
  let ?k = "c_str key"
  have len: "length ?k \<le> SSDB_KEY_LEN_MAX" using assms(1) by (simp add: key_ok_def)
  have s1: "\<not> set_ok" "s1 = snd (act_tran BT_SYNC (kv_put_acts ?k v) 1 s)"
    using assms(3) unfolding api_set_def Let_def kv_set_tran [OF assms(1)]
    by (auto simp: case_prod_unfold act_tran_result split: if_splits)
  have s2: "\<not> del_ok" "s2 = snd (act_tran BT_SYNC (kv_del_acts ?k) 1 s1)"
    using assms(4) unfolding api_del_def Let_def kv_del_tran [OF len]
    by (auto simp: case_prod_unfold act_tran_result split: if_splits)
  have "kv_readable s1 ?k" using assms(2) unfolding s1(2) by (simp add: kv_readable_def)
  then have "api_get s1 key out = (True, kv_map s1 ?k)"
    by (simp add: api_get_def kv_get_map split: option.split)
  moreover have "api_set [] v s = (True, s)" by (simp add: api_set_def kv_set_bad c_str_def key_ok_def)
  ultimately show ?thesis using s1(1) s2(1) unfolding s1(2) s2(2) kv_map_act_tran by simp
qed

lemma api_set_answer_witness:
  "\<not> fst (api_set [1] [7] empty_ssdb) \<and> api_get (snd (api_set [1] [7] empty_ssdb)) [1] None = (True, Some [7])"
proof -
  have "key_ok (c_str [1])" "kv_readable empty_ssdb (c_str [1])" by (simp_all add: key_ok_def c_str_def)
  from api_set_answer [OF this prod.collapse [symmetric] prod.collapse [symmetric], of "[7]" None]
  show ?thesis by (simp add: c_str_def)
qed

section \<open>Queues of SSDB+Extension.mm\<close>

text \<open>The conversion of a result to \<open>NSUInteger\<close>.\<close>

definition ext_qPush :: "bytes \<Rightarrow> bytes \<Rightarrow> ssdb \<Rightarrow> u64 \<times> ssdb" where
  "ext_qPush name v s = (let (ret, s) = qpush_back (c_str name) v BT_SYNC s in (of_int ret, s))"

definition ext_qPushFront :: "bytes \<Rightarrow> bytes \<Rightarrow> ssdb \<Rightarrow> u64 \<times> ssdb" where
  "ext_qPushFront name v s = (let (ret, s) = qpush_front (c_str name) v BT_SYNC s in (of_int ret, s))"

text \<open>
  The loops of \<open>qRange\<close>. All comparisons are of unsigned numbers, since \<open>count\<close> and \<open>size\<close> are;
  the string \<open>v\<close> keeps its content when a read fails, and an empty one is not put in the result.
\<close>

definition some_value :: "bytes \<Rightarrow> bytes list" where
  "some_value v = (if length v > 0 then [v] else [])"

definition read_into :: "bytes \<Rightarrow> int \<times> bytes option \<Rightarrow> bytes" where
  "read_into v r = (case snd r of None \<Rightarrow> v | Some x \<Rightarrow> x)"

lemma unat_step:
  fixes a b :: u64
  assumes "a < b"
  shows "unat (a + 1) = unat a + 1" and "unat (b - 1) = unat b - 1"
proof -
  have "a \<noteq> - 1" "b \<noteq> 0" using assms word_n1_ge [of b] by auto
  then show "unat (a + 1) = unat a + 1" "unat (b - 1) = unat b - 1"
    using word_less_succ [of a] unat_minus_one [of b] by simp_all
qed

function qrange_up :: "ssdb \<Rightarrow> bytes \<Rightarrow> u64 \<Rightarrow> i64 \<Rightarrow> bytes \<Rightarrow> bytes list" where
  "qrange_up s name bound i v =
     (if i < bound
      then let v = read_into v (qget s name i) in some_value v @ qrange_up s name bound (i + 1) v
      else [])"
  by pat_completeness auto
termination
proof (relation "measure (\<lambda>(_, _, bound, i, _). unat bound - unat i)")
  fix bound i :: u64 assume "i < bound"
  then have "unat i < unat bound" "unat (i + 1) = unat i + 1"
    using unat_step(1) by (simp_all add: word_less_nat_alt)
  then show "((s, name, bound, i + 1, v'), (s, name, bound, i, v)) \<in>
      measure (\<lambda>(_, _, bound, i, _). unat bound - unat i)" for s :: ssdb and name v v' :: bytes
    by simp
qed simp

function qrange_down :: "ssdb \<Rightarrow> bytes \<Rightarrow> u64 \<Rightarrow> i64 \<Rightarrow> bytes \<Rightarrow> bytes list" where
  "qrange_down s name bound i v =
     (if bound < i
      then let v = read_into v (qget s name i) in qrange_down s name bound (i - 1) v @ some_value v
      else [])"
  by pat_completeness auto
termination
proof (relation "measure (\<lambda>(_, _, bound, i, _). unat i - unat bound)")
  fix bound i :: u64 assume "bound < i"
  then have "unat bound < unat i" "unat (i - 1) = unat i - 1"
    using unat_step(2) by (simp_all add: word_less_nat_alt)
  then show "((s, name, bound, i - 1, v'), (s, name, bound, i, v)) \<in>
      measure (\<lambda>(_, _, bound, i, _). unat i - unat bound)" for s :: ssdb and name v v' :: bytes
    by simp
qed simp

declare qrange_up.simps [simp del] qrange_down.simps [simp del]

definition ext_qRange :: "ssdb \<Rightarrow> bytes \<Rightarrow> i64 \<Rightarrow> u64 \<Rightarrow> bytes list" where
  "ext_qRange s table offset count =
     (let name = c_str table; size = of_int (qsize s name) :: u64
      in if sint offset \<ge> 0 then qrange_up s name (min (offset + count) size) offset []
         else qrange_down s name (max (offset - count) (- size - 1)) offset [])"


text \<open>Reading inside the list, from either end.\<close>

lemma some_value_filter: "some_value v = filter (\<lambda>x. x \<noteq> []) [v]"
  by (simp add: some_value_def)

lemma unat_u64: "unat (i :: u64) < 18446744073709551616"
  using unsigned_less [of i] by simp

lemma sint_of_nat_large:
  assumes "9223372036854775808 \<le> u" "u < 18446744073709551616"
  shows "sint (of_nat u :: i64) = int u - 18446744073709551616"
proof -
  have eq: "(of_int (int u - 18446744073709551616) :: i64) = of_nat u" by simp
  have "sint (of_int (int u - 18446744073709551616) :: i64) = int u - 18446744073709551616"
    by (rule sint_of_int_small) (use assms in simp_all)
  then show ?thesis unfolding eq .
qed

lemma unat_before_minus:
  assumes "l < 9223372036854775808"
  shows "unat (- of_nat l - 1 :: u64) = 18446744073709551616 - l - 1"
proof -
  have "(of_nat (18446744073709551615 - l) :: u64) = - 1 - of_nat l"
    using assms by (subst of_nat_diff) simp_all
  then have e: "(- of_nat l - 1 :: u64) = of_nat (18446744073709551615 - l)" by simp
  show ?thesis unfolding e using assms by (subst unat_of_nat) simp
qed

lemma sint_halves:
  fixes i :: i64
  shows "unat i < 9223372036854775808 \<Longrightarrow> sint i = int (unat i)"
    and "9223372036854775808 \<le> unat i \<Longrightarrow> sint i = int (unat i) - 18446744073709551616"
  using sint_of_nat_small [of "unat i"] sint_of_nat_large [of "unat i"] unat_u64 [of i] by simp_all

lemma qget_inside:
  assumes "queue_readable s n" "queue_at (data s) n (f, xs)" "qpos (length xs) i = int p" "p < length xs"
  shows "qget s n i = (1, Some (xs ! p))"
proof -
  have "xs \<noteq> []" using assms(4) by auto
  then have "qslot (f, xs) (int p) = Some (xs ! p)" using assms(4) by simp
  then show ?thesis unfolding qget_slot [OF assms(1,2)] assms(3) by simp
qed

lemma qget_front:
  assumes "queue_readable s n" "queue_at (data s) n (f, xs)" "unat i < length xs"
  shows "qget s n i = (1, Some (xs ! unat i))"
proof (rule qget_inside [OF assms(1,2) _ assms(3)])
  have "length xs < 9223372036854775808" using assms(2,3) by (auto split: if_splits)
  then have "sint i = int (unat i)" using assms(3) by (intro sint_halves) linarith
  then show "qpos (length xs) i = int (unat i)" by (simp add: qpos_def)
qed

lemma qget_back:
  assumes "queue_readable s n" "queue_at (data s) n (f, xs)" "9223372036854775808 \<le> unat i" "18446744073709551616 \<le> unat i + length xs"
  shows "qget s n i = (1, Some (xs ! (unat i + length xs - 18446744073709551616)))"
proof (rule qget_inside [OF assms(1,2)])
  show "unat i + length xs - 18446744073709551616 < length xs" using assms(4) unat_u64 [of i] by linarith
  have "sint i < 0" "int (length xs) + sint i = int (unat i + length xs - 18446744073709551616)"
    using sint_halves(2) [OF assms(3)] unat_u64 [of i] assms(4) by linarith+
  then show "qpos (length xs) i = int (unat i + length xs - 18446744073709551616)" by (simp add: qpos_def del: of_nat_diff)
qed

lemma qrange_up_items:
  assumes "queue_readable s n" "queue_at (data s) n (f, xs)" "unat bound \<le> length xs"
  shows "qrange_up s n bound i v = filter (\<lambda>x. x \<noteq> []) (take (unat bound - unat i) (drop (unat i) xs))"
  using assms
proof (induction s n bound i v rule: qrange_up.induct)
  case (1 s n bound i v)
  show ?case
  proof (cases "i < bound")
    case True
    then have lt: "unat i < unat bound" by (simp add: word_less_nat_alt)
    with "1.prems"(3) have i: "unat i < length xs" by simp
    note q = qget_front [OF "1.prems"(1,2) i]
    have "take (unat bound - unat i) (drop (unat i) xs) =
        xs ! unat i # take (unat bound - (unat i + 1)) (drop (unat i + 1) xs)"
      using lt i by (simp add: Cons_nth_drop_Suc [symmetric] take_Cons')
    with True "1.IH" [OF True _ "1.prems"] q show ?thesis
      by (subst qrange_up.simps) (simp add: read_into_def unat_step some_value_filter)
  next
    case False
    then have "unat bound \<le> unat i" by (simp add: word_less_nat_alt)
    with False show ?thesis by (subst qrange_up.simps) simp
  qed
qed

lemma qrange_down_items:
  assumes "queue_readable s n" "queue_at (data s) n (f, xs)"
    and "9223372036854775808 \<le> unat i" "18446744073709551616 \<le> unat bound + length xs + 1"
  shows "qrange_down s n bound i v = filter (\<lambda>x. x \<noteq> [])
    (drop (unat bound + length xs + 1 - 18446744073709551616) (take (unat i + length xs + 1 - 18446744073709551616) xs))"
  using assms
proof (induction s n bound i v rule: qrange_down.induct)
  case (1 s n bound i v)
  show ?case
  proof (cases "bound < i")
    case True
    then have lt: "unat bound < unat i" by (simp add: word_less_nat_alt)
    define j where "j = unat i + length xs - 18446744073709551616"
    have i: "18446744073709551616 \<le> unat i + length xs" using "1.prems"(4) lt by simp
    have j: "j < length xs" "unat i + length xs + 1 - 18446744073709551616 = Suc j" "unat (i - 1) + length xs + 1 - 18446744073709551616 = j"
      "unat bound + length xs + 1 - 18446744073709551616 \<le> j"
      using i lt unat_u64 [of i] "1.prems"(4) unat_step(2) [OF True] by (simp_all add: j_def)
    note q = qget_back [OF "1.prems"(1-3) i, folded j_def]
    have "length xs < 9223372036854775808" using "1.prems"(2) j(1) by (auto split: if_splits)
    then have i1: "9223372036854775808 \<le> unat (i - 1)" using unat_step(2) [OF True] "1.prems"(4) lt by simp
    have "drop (unat bound + length xs + 1 - 18446744073709551616) (take (Suc j) xs) =
        drop (unat bound + length xs + 1 - 18446744073709551616) (take j xs) @ [xs ! j]"
      using j by (simp add: take_Suc_conv_app_nth)
    with True "1.IH" [OF True _ "1.prems"(1,2) i1 "1.prems"(4)] q j show ?thesis
      by (subst qrange_down.simps) (simp add: read_into_def some_value_filter)
  next
    case False
    then have "unat i \<le> unat bound" by (simp add: word_less_nat_alt)
    with False show ?thesis by (subst qrange_down.simps) simp
  qed
qed

lemma unat_min_max:
  fixes a b :: u64
  shows "unat (min a b) = min (unat a) (unat b)" "unat (max a b) = max (unat a) (unat b)"
  by (auto simp: min_def max_def word_le_nat_alt)

text \<open>
  \<open>qRange:from:limit:\<close> of a queue yields its items from the given position on, or the ones
  that end at the given position from the back, in the order of the queue; but items that are
  empty strings are left out.
\<close>

theorem qrange_items:
  assumes "queue_rel s Q" "length (c_str table) \<le> 255" "queue_readable s (c_str table)"
    and "snd (Q (c_str table)) = xs" "nat \<bar>sint offset\<bar> + unat count < 18446744073709551616"
  shows "ext_qRange s table offset count = filter (\<lambda>x. x \<noteq> [])
    (if sint offset \<ge> 0 then take (unat count) (drop (nat (sint offset)) xs)
     else drop (length xs + 1 - (nat (- sint offset) + unat count)) (take (length xs + 1 - nat (- sint offset)) xs))"
proof -
  let ?n = "c_str table"
  obtain f where q: "queue_at (data s) ?n (f, xs)"
    using queue_relD [OF assms(1,2)] assms(4) by (metis prod.collapse)
  then have l: "length xs < 9223372036854775808" by (auto split: if_splits)
  note sz = queue_reads(3) [OF assms(3) q]
  have usz: "unat (of_nat (length xs) :: u64) = length xs" using l by simp
  have c: "count = of_nat (unat count)" by simp
  show ?thesis
  proof (cases "sint offset \<ge> 0")
    case True
    define k where "k = nat (sint offset)"
    have "unat offset < 9223372036854775808"
      using True sint_halves(2) [of offset] unat_u64 [of offset] by linarith
    then have "sint offset = int (unat offset)" by (rule sint_halves)
    then have o: "unat offset = k" unfolding k_def by (simp only: nat_int)
    have "unat (offset + count) = k + unat count"
      using assms(5) True o by (simp add: unat_word_ariths k_def)
    then have b: "unat (min (offset + count) (of_nat (length xs))) = min (k + unat count) (length xs)"
      by (simp only: unat_min_max usz)
    have "take (min (k + unat count) (length xs) - k) (drop k xs) = take (unat count) (drop k xs)"
      by (auto simp: min_def)
    with True show ?thesis
      unfolding ext_qRange_def Let_def sz
      by (simp add: qrange_up_items [OF assms(3) q] b o flip: k_def)
  next
    case False
    define k where "k = nat (- sint offset)"
    have big: "9223372036854775808 \<le> unat offset" using False sint_halves(1) [of offset] by linarith
    then have o: "unat offset + k = 18446744073709551616" "0 < k"
      using False sint_halves(2) [OF big] unat_u64 [of offset] unfolding k_def by linarith+
    have kc: "k + unat count < 18446744073709551616" using assms(5) False by (simp add: k_def)
    have "unat (offset - count) = unat offset - unat count"
      using o kc by (intro unat_sub) (simp add: word_le_nat_alt)
    moreover have "unat (- of_nat (length xs) - 1 :: u64) = 18446744073709551616 - length xs - 1"
      using l by (intro unat_before_minus) simp
    ultimately have b: "unat (max (offset - count) (- of_nat (length xs) - 1)) =
        max (unat offset - unat count) (18446744073709551616 - length xs - 1)"
      by (simp only: unat_min_max)
    have e: "max (unat offset - unat count) (18446744073709551616 - length xs - 1) + length xs + 1 - 18446744073709551616 =
        length xs + 1 - (k + unat count)" "unat offset + length xs + 1 - 18446744073709551616 = length xs + 1 - k"
      using o kc l by linarith+
    have "18446744073709551616 \<le> max (unat offset - unat count) (18446744073709551616 - length xs - 1) + length xs + 1" using l by linarith
    note d = qrange_down_items [OF assms(3) q big, where bound = "max (offset - count) (- of_nat (length xs) - 1)",
      unfolded b e, OF this]
    have sz': "of_int (int (length xs)) = (of_nat (length xs) :: u64)" by simp
    show ?thesis
      unfolding ext_qRange_def Let_def sz sz' d k_def [symmetric] using False by (simp only: if_False)
  qed
qed


lemma qrange_items_witness:
  "ext_qRange (snd (run_session (queue_exec BT_SYNC) [QPushBack [1] [7], QPushBack [1] [], QPushBack [1] [9]] empty_ssdb))
     [1] 1 5 = [[9]]"
proof -
  let ?cs = "[QPushBack [1] [7], QPushBack [1] [], QPushBack [1] [9]]"
  let ?s = "snd (run_session (queue_exec BT_SYNC) ?cs empty_ssdb)"
  let ?Q = "snd (run_session (queue_spec True) ?cs (\<lambda>_. (0, [])))"
  have "queue_rel ?s ?Q \<and> reliable (db ?s)"
    using queue_session.run_refines [of empty_ssdb "\<lambda>_. (0, [])" ?cs BT_SYNC] by simp
  then have r: "queue_rel ?s ?Q" "queue_readable ?s (c_str [1])" by (simp_all add: queue_readable_reliable)
  have q: "snd (?Q (c_str [1])) = [[7], [], [9]]" by (simp add: qinit_def c_str_def)
  have n: "length (c_str [1]) \<le> 255" by (simp add: c_str_def)
  have "nat \<bar>sint (1 :: i64)\<bar> + unat (5 :: u64) < 18446744073709551616" by simp
  from qrange_items [OF r(1) n r(2) q this] show ?thesis by simp
qed

subsection \<open>Popping and clearing\<close>

function qpop_up :: "bytes \<Rightarrow> u64 \<Rightarrow> i64 \<Rightarrow> bytes \<Rightarrow> ssdb \<Rightarrow> bytes list \<times> ssdb" where
  "qpop_up name bound i v s =
     (if i < bound
      then let (r, s) = qpop_front name BT_SYNC s; v = read_into v r;
               (vs, s) = qpop_up name bound (i + 1) v s
           in (some_value v @ vs, s)
      else ([], s))"
  by pat_completeness auto
termination
proof (relation "measure (\<lambda>(_, bound, i, _). unat bound - unat i)")
  fix bound i :: u64 assume "i < bound"
  then have "unat i < unat bound" "unat (i + 1) = unat i + 1"
    using unat_step(1) by (simp_all add: word_less_nat_alt)
  then show "((name, bound, i + 1, v', s'), (name, bound, i, v, s)) \<in>
      measure (\<lambda>(_, bound, i, _). unat bound - unat i)" for s s' :: ssdb and name v v' :: bytes
    by simp
qed simp

function qpop_down :: "bytes \<Rightarrow> u64 \<Rightarrow> i64 \<Rightarrow> bytes \<Rightarrow> ssdb \<Rightarrow> bytes list \<times> ssdb" where
  "qpop_down name bound i v s =
     (if bound < i
      then let (r, s) = qpop_back name BT_SYNC s; v = read_into v r;
               (vs, s) = qpop_down name bound (i - 1) v s
           in (vs @ some_value v, s)
      else ([], s))"
  by pat_completeness auto
termination
proof (relation "measure (\<lambda>(_, bound, i, _). unat i - unat bound)")
  fix bound i :: u64 assume "bound < i"
  then have "unat bound < unat i" "unat (i - 1) = unat i - 1"
    using unat_step(2) by (simp_all add: word_less_nat_alt)
  then show "((name, bound, i - 1, v', s'), (name, bound, i, v, s)) \<in>
      measure (\<lambda>(_, bound, i, _). unat i - unat bound)" for s s' :: ssdb and name v v' :: bytes
    by simp
qed simp

declare qpop_up.simps [simp del] qpop_down.simps [simp del]

definition ext_qPop :: "bytes \<Rightarrow> i64 \<Rightarrow> u64 \<Rightarrow> ssdb \<Rightarrow> bytes list \<times> ssdb" where
  "ext_qPop table offset count s =
     (let name = c_str table; size = of_int (qsize s name) :: u64
      in if sint offset \<ge> 0 then qpop_up name (min (offset + count) size) offset [] s
         else qpop_down name (max (offset - count) (- size - 1)) offset [] s)"

text \<open>
  \<open>qClear\<close> counts an \<open>int\<close> up to an \<open>unsigned long\<close>; the increment past the largest \<open>int\<close> is
  undefined.
\<close>

function qclear_loop :: "bytes \<Rightarrow> u64 \<Rightarrow> nat \<Rightarrow> ssdb \<Rightarrow> ssdb option" where
  "qclear_loop name amount i s =
     (if i < unat amount
      then let s = snd (qpop_front name BT_SYNC s)
           in if i = 2147483647 then None else qclear_loop name amount (i + 1) s
      else Some s)"
  by pat_completeness auto
termination by (relation "measure (\<lambda>(_, amount, i, _). unat amount - i)") auto

declare qclear_loop.simps [simp del]

definition ext_qClear :: "bytes \<Rightarrow> ssdb \<Rightarrow> ssdb option" where
  "ext_qClear aKey s =
     (let key = c_str aKey; size = of_int (qsize s key) :: u64 in qclear_loop key size 0 s)"

lemma qpop_front_step:
  assumes "queue_rel s Q" "reliable (db s)" "length n \<le> 255" "Q n = (f, x # xs)"
  shows "\<exists>s'. qpop_front n BT_SYNC s = ((1, Some x), s') \<and> queue_rel s' (Q(n := (f + 1, xs))) \<and> reliable (db s')"
proof -
  have "fst (queue_exec BT_SYNC (QPopFront n) s) = fst (queue_spec True (QPopFront n) Q) \<and>
      queue_rel (snd (queue_exec BT_SYNC (QPopFront n) s)) (snd (queue_spec True (QPopFront n) Q)) \<and>
      reliable (db (snd (queue_exec BT_SYNC (QPopFront n) s)))"
    by (rule queue_session.step) (use assms(1-3) in simp_all)
  then show ?thesis using assms(4) by (cases "qpop_front n BT_SYNC s") simp
qed

lemma qpop_back_step:
  assumes "queue_rel s Q" "reliable (db s)" "length n \<le> 255" "Q n = (f, xs)" "xs \<noteq> []"
  shows "\<exists>s'. qpop_back n BT_SYNC s = ((1, Some (last xs)), s') \<and> queue_rel s' (Q(n := (f, butlast xs))) \<and> reliable (db s')"
proof -
  have "fst (queue_exec BT_SYNC (QPopBack n) s) = fst (queue_spec True (QPopBack n) Q) \<and>
      queue_rel (snd (queue_exec BT_SYNC (QPopBack n) s)) (snd (queue_spec True (QPopBack n) Q)) \<and>
      reliable (db (snd (queue_exec BT_SYNC (QPopBack n) s)))"
    by (rule queue_session.step) (use assms(1-3) in simp_all)
  then show ?thesis using assms(4,5) by (cases "qpop_back n BT_SYNC s") simp
qed

lemma qpop_up_items:
  assumes "queue_rel s Q" "reliable (db s)" "length n \<le> 255" "Q n = (f, xs)"
    and "unat bound - unat i \<le> length xs"
  shows "\<exists>s'. qpop_up n bound i v s = (filter (\<lambda>x. x \<noteq> []) (take (unat bound - unat i) xs), s') \<and>
    queue_rel s' (Q(n := (f + (unat bound - unat i), drop (unat bound - unat i) xs))) \<and> reliable (db s')"
  using assms
proof (induction "unat bound - unat i" arbitrary: s Q f xs i v)
  case 0
  then have "\<not> i < bound" by (simp add: word_less_nat_alt)
  with 0 show ?case by (subst qpop_up.simps) (simp add: fun_upd_idem)
next
  case (Suc m)
  then have lt: "i < bound" by (simp add: word_less_nat_alt)
  obtain x ys where xs: "xs = x # ys" using Suc.hyps(2) Suc.prems(5) by (cases xs) auto
  from qpop_front_step [OF Suc.prems(1-3)] Suc.prems(4) xs obtain s1 where
    s1: "qpop_front n BT_SYNC s = ((1, Some x), s1)" "queue_rel s1 (Q(n := (f + 1, ys)))" "reliable (db s1)"
    by blast
  have m: "m = unat bound - unat (i + 1)" using Suc.hyps(2) unat_step(1) [OF lt] by simp
  have "unat bound - unat (i + 1) \<le> length ys" using Suc.hyps(2) Suc.prems(5) xs m by simp
  from Suc.hyps(1) [OF m s1(2,3) Suc.prems(3) _ this, of "f + 1" "read_into v (1, Some x)"] obtain s2 where
    s2: "qpop_up n bound (i + 1) (read_into v (1, Some x)) s1 =
        (filter (\<lambda>x. x \<noteq> []) (take m ys), s2)"
      "queue_rel s2 (Q(n := (f + 1 + m, drop m ys)))" "reliable (db s2)"
    by (auto simp flip: m)
  have "qpop_up n bound i v s = (filter (\<lambda>x. x \<noteq> []) (take (Suc m) xs), s2)"
    using lt s1(1) s2(1) xs by (subst qpop_up.simps) (simp add: read_into_def some_value_filter)
  with s2 xs show ?case unfolding Suc.hyps(2) [symmetric] by simp
qed

lemma qpop_down_items:
  assumes "queue_rel s Q" "reliable (db s)" "length n \<le> 255" "Q n = (f, xs)"
    and "unat i - unat bound \<le> length xs"
  shows "\<exists>s'. qpop_down n bound i v s =
      (filter (\<lambda>x. x \<noteq> []) (drop (length xs - (unat i - unat bound)) xs), s') \<and>
    queue_rel s' (Q(n := (f, take (length xs - (unat i - unat bound)) xs))) \<and> reliable (db s')"
  using assms
proof (induction "unat i - unat bound" arbitrary: s Q xs i v)
  case 0
  then have "\<not> bound < i" by (simp add: word_less_nat_alt)
  with 0 show ?case by (subst qpop_down.simps) (simp add: fun_upd_idem)
next
  case (Suc m)
  then have lt: "bound < i" by (simp add: word_less_nat_alt)
  obtain ys x where xs: "xs = ys @ [x]" using Suc.hyps(2) Suc.prems(5) by (cases xs rule: rev_cases) auto
  from qpop_back_step [OF Suc.prems(1-4)] xs obtain s1 where
    s1: "qpop_back n BT_SYNC s = ((1, Some x), s1)" "queue_rel s1 (Q(n := (f, ys)))" "reliable (db s1)"
    by auto
  have m: "m = unat (i - 1) - unat bound" using Suc.hyps(2) unat_step(2) [OF lt] by simp
  have le: "m \<le> length ys" using Suc.hyps(2) Suc.prems(5) xs by simp
  from Suc.hyps(1) [OF m s1(2,3) Suc.prems(3) _ le [unfolded m], of "read_into v (1, Some x)"] obtain s2 where
    s2: "qpop_down n bound (i - 1) (read_into v (1, Some x)) s1 =
        (filter (\<lambda>x. x \<noteq> []) (drop (length ys - m) ys), s2)"
      "queue_rel s2 (Q(n := (f, take (length ys - m) ys)))" "reliable (db s2)"
    by (auto simp flip: m)
  have "qpop_down n bound i v s = (filter (\<lambda>x. x \<noteq> []) (drop (length xs - Suc m) xs), s2)"
    using lt s1(1) s2(1) xs le by (subst qpop_down.simps) (simp add: read_into_def some_value_filter)
  with s2 xs le show ?case unfolding Suc.hyps(2) [symmetric] by simp
qed

lemma qpop_up_counted:
  assumes "queue_rel s Q" "reliable (db s)" "length (c_str table) \<le> 255" "Q (c_str table) = (f, xs)"
    and "sint offset \<ge> 0" "nat \<bar>sint offset\<bar> + unat count < 18446744073709551616"
  defines "m \<equiv> min (nat (sint offset) + unat count) (length xs) - nat (sint offset)"
  shows "\<exists>s'. ext_qPop table offset count s = (filter (\<lambda>x. x \<noteq> []) (take m xs), s') \<and>
    queue_rel s' (Q(c_str table := (f + m, drop m xs)))"
proof -
  let ?n = "c_str table"
  have q: "queue_at (data s) ?n (f, xs)" using queue_relD [OF assms(1,3)] assms(4) by simp
  then have "length xs < 9223372036854775808" by (auto split: if_splits)
  then have usz: "unat (of_nat (length xs) :: u64) = length xs" by simp
  note sz = queue_reads(3) [OF queue_readable_reliable [OF assms(2)] q]
  have "unat offset < 9223372036854775808"
    using assms(5) sint_halves(2) [of offset] unat_u64 [of offset] by linarith
  then have "sint offset = int (unat offset)" by (rule sint_halves)
  then have o: "nat (sint offset) = unat offset" by (simp only: nat_int)
  have "unat (offset + count) = unat offset + unat count"
    using assms(5,6) o by (simp add: unat_word_ariths)
  then have b: "unat (min (offset + count) (of_nat (length xs))) = min (unat offset + unat count) (length xs)"
    by (simp only: unat_min_max usz)
  have m: "m = unat (min (offset + count) (of_nat (length xs))) - unat offset"
    unfolding b m_def o ..
  have le: "unat (min (offset + count) (of_nat (length xs))) - unat offset \<le> length xs" unfolding b by simp
  from qpop_up_items [OF assms(1-4) le, of "[]"] show ?thesis
    using assms(5) unfolding ext_qPop_def Let_def sz m by auto
qed

lemma qpop_down_counted:
  assumes "queue_rel s Q" "reliable (db s)" "length (c_str table) \<le> 255" "Q (c_str table) = (f, xs)"
    and "sint offset < 0" "nat \<bar>sint offset\<bar> + unat count < 18446744073709551616"
  defines "m \<equiv> min (nat (- sint offset) + unat count) (length xs + 1) - nat (- sint offset)"
  shows "\<exists>s'. ext_qPop table offset count s = (filter (\<lambda>x. x \<noteq> []) (drop (length xs - m) xs), s') \<and>
    queue_rel s' (Q(c_str table := (f, take (length xs - m) xs)))"
proof -
  let ?n = "c_str table" and ?b = "max (offset - count) (- of_nat (length xs) - 1)"
  have q: "queue_at (data s) ?n (f, xs)" using queue_relD [OF assms(1,3)] assms(4) by simp
  then have l: "length xs < 9223372036854775808" by (auto split: if_splits)
  note sz = queue_reads(3) [OF queue_readable_reliable [OF assms(2)] q]
  define k where "k = nat (- sint offset)"
  have big: "9223372036854775808 \<le> unat offset" using assms(5) sint_halves(1) [of offset] by linarith
  then have o: "unat offset + k = 18446744073709551616" "0 < k"
    using assms(5) sint_halves(2) [OF big] unat_u64 [of offset] unfolding k_def by linarith+
  have kc: "k + unat count < 18446744073709551616" using assms(5,6) by (simp add: k_def)
  have "unat (offset - count) = unat offset - unat count"
    using o kc by (intro unat_sub) (simp add: word_le_nat_alt)
  moreover have "unat (- of_nat (length xs) - 1 :: u64) = 18446744073709551616 - length xs - 1"
    using l by (intro unat_before_minus) simp
  ultimately have b: "unat ?b = max (unat offset - unat count) (18446744073709551616 - length xs - 1)"
    by (simp only: unat_min_max)
  have m: "m = unat offset - unat ?b" unfolding b m_def k_def [symmetric] using o kc l by linarith
  have "m \<le> length xs" unfolding m_def k_def [symmetric] using o(2) by linarith
  from qpop_down_items [OF assms(1-4) this [unfolded m], of "[]"] show ?thesis
    using assms(5) unfolding ext_qPop_def Let_def sz m by auto
qed

lemma qclear_loop_items:
  assumes "queue_rel s Q" "reliable (db s)" "length n \<le> 255" "Q n = (f, xs)"
    and "unat amount - i = length xs" "unat amount < 2147483648"
  shows "\<exists>s'. qclear_loop n amount i s = Some s' \<and> queue_rel s' (Q(n := (f + length xs, []))) \<and> reliable (db s')"
  using assms
proof (induction xs arbitrary: s Q f i)
  case Nil
  then show ?case by (subst qclear_loop.simps) (simp add: fun_upd_idem)
next
  case (Cons x xs)
  from qpop_front_step [OF Cons.prems(1-4)] obtain s1 where
    s1: "qpop_front n BT_SYNC s = ((1, Some x), s1)" "queue_rel s1 (Q(n := (f + 1, xs)))" "reliable (db s1)"
    by blast
  have i: "i < unat amount" "unat amount - (i + 1) = length xs" using Cons.prems(5) by simp_all
  have "(Q(n := (f + 1, xs))) n = (f + 1, xs)" by simp
  from Cons.IH [OF s1(2,3) Cons.prems(3) this i(2) Cons.prems(6)] obtain s2 where
    "qclear_loop n amount (i + 1) s1 = Some s2" "queue_rel s2 (Q(n := (f + 1 + length xs, [])))" "reliable (db s2)"
    unfolding fun_upd_upd by blast
  with s1(1) i(1) Cons.prems(6) show ?case by (subst qclear_loop.simps) simp
qed

text \<open>
  C40: \<open>qPop:from:limit:\<close> takes its items off an end of the queue, wherever the position is. The
  number of items is that of the positions \<open>qRange:from:limit:\<close> would read; for a position of 0
  or more they are the first items of the queue, for a negative one the last. Empty items are
  removed and not returned. \<open>qClear\<close> empties a queue of less than 2^31 items. The storage does not
  fail, the queues of the database are in order, the name has at most 255 bytes, and the position
  without its sign plus the limit is below 2^64.
\<close>

theorem qpop_takes_front:
  assumes "queue_rel s Q" "reliable (db s)" "length (c_str table) \<le> 255" "Q (c_str table) = (f, xs)"
    and "nat \<bar>sint offset\<bar> + unat count < 18446744073709551616"
  shows "(sint offset \<ge> 0 \<longrightarrow>
      (let m = min (nat (sint offset) + unat count) (length xs) - nat (sint offset)
       in \<exists>s'. ext_qPop table offset count s = (filter (\<lambda>x. x \<noteq> []) (take m xs), s') \<and>
            queue_rel s' (Q(c_str table := (f + m, drop m xs))))) \<and>
    (sint offset < 0 \<longrightarrow>
      (let m = min (nat (- sint offset) + unat count) (length xs + 1) - nat (- sint offset)
       in \<exists>s'. ext_qPop table offset count s = (filter (\<lambda>x. x \<noteq> []) (drop (length xs - m) xs), s') \<and>
            queue_rel s' (Q(c_str table := (f, take (length xs - m) xs))))) \<and>
    (length xs < 2147483648 \<longrightarrow>
      (\<exists>s'. ext_qClear table s = Some s' \<and> queue_rel s' (Q(c_str table := (f + length xs, [])))))"
proof (intro conjI impI)
  let ?n = "c_str table"
  assume l: "length xs < 2147483648"
  have q: "queue_at (data s) ?n (f, xs)" using queue_relD [OF assms(1,3)] assms(4) by simp
  note sz = queue_reads(3) [OF queue_readable_reliable [OF assms(2)] q]
  have "unat (of_nat (length xs) :: u64) - 0 = length xs" "unat (of_nat (length xs) :: u64) < 2147483648"
    using l by simp_all
  from qclear_loop_items [OF assms(1-4) this]
  show "\<exists>s'. ext_qClear table s = Some s' \<and> queue_rel s' (Q(?n := (f + length xs, [])))"
    unfolding ext_qClear_def Let_def sz by auto
qed (use assms in \<open>simp_all only: Let_def qpop_up_counted qpop_down_counted\<close>)

lemma qpop_takes_front_witness:
  "fst (ext_qPop [1] 1 1 (snd (run_session (queue_exec BT_SYNC) [QPushBack [1] [7], QPushBack [1] [8]] empty_ssdb))) =
     [[7]] \<and>
   fst (ext_qPop [1] (- 2) 1 (snd (run_session (queue_exec BT_SYNC) [QPushBack [1] [7], QPushBack [1] [8]] empty_ssdb))) =
     [[8]]"
proof -
  let ?cs = "[QPushBack [1] [7], QPushBack [1] [8]]"
  let ?s = "snd (run_session (queue_exec BT_SYNC) ?cs empty_ssdb)"
  let ?Q = "snd (run_session (queue_spec True) ?cs (\<lambda>_. (0, [])))"
  have "queue_rel ?s ?Q \<and> reliable (db ?s)"
    using queue_session.run_refines [of empty_ssdb "\<lambda>_. (0, [])" ?cs BT_SYNC] by simp
  then have r: "queue_rel ?s ?Q" "reliable (db ?s)" by simp_all
  have n: "length (c_str [1]) \<le> 255" by (simp add: c_str_def)
  have q: "?Q (c_str [1]) = (4611686018427387903, [[7], [8]])" by (simp add: qinit_def c_str_def)
  have b: "nat \<bar>sint (1 :: i64)\<bar> + unat (1 :: u64) < 18446744073709551616"
    "nat \<bar>sint (- 2 :: i64)\<bar> + unat (1 :: u64) < 18446744073709551616" by simp_all
  from qpop_takes_front [OF r n q b(1)] qpop_takes_front [OF r n q b(2)]
  show ?thesis by (auto simp: Let_def)
qed

section \<open>Clearing a sorted set\<close>

function zclear_loop :: "bytes \<Rightarrow> ziter \<Rightarrow> ssdb \<Rightarrow> ssdb" where
  "zclear_loop key z s =
     (let s = (if zkey z \<noteq> [] \<and> zscore z \<noteq> [] then snd (zdel key (zkey z) BT_SYNC s) else s)
      in case ziter_next z of
           (False, z') \<Rightarrow> s
         | (True, z') \<Rightarrow> zclear_loop key z' s)"
  by pat_completeness auto
termination
  by (relation "measure (\<lambda>(_, z, _). unat (limit (zit z)))") (auto dest: ziter_next_limit [OF sym])

declare zclear_loop.simps [simp del]

definition ext_zClear :: "bytes \<Rightarrow> ssdb \<Rightarrow> ssdb" where
  "ext_zClear aKey s = (let key = c_str aKey in zclear_loop key (zscan s key [] [] [] (- 1)) s)"

text \<open>The deletions of a list of members, one after the other.\<close>

definition zdels :: "bytes \<Rightarrow> (i64 \<times> bytes) list \<Rightarrow> ssdb \<Rightarrow> ssdb" where
  "zdels n xs s = fold (\<lambda>x. snd \<circ> zdel n (snd x) BT_SYNC) xs s"

lemma zclear_loop_zdels:
  "zyields z xs \<Longrightarrow> \<forall>x \<in> set xs. snd x \<noteq> [] \<Longrightarrow>
     zclear_loop n z s =
       zdels n xs (if zkey z \<noteq> [] \<and> zscore z \<noteq> [] then snd (zdel n (zkey z) BT_SYNC s) else s)"
proof (induction xs arbitrary: z s)
  case Nil
  obtain z' where "ziter_next z = (False, z')" using Nil(1) zyields_Nil by metis
  then show ?case by (subst zclear_loop.simps) (simp add: zdels_def Let_def)
next
  case (Cons x xs)
  obtain z' where z': "ziter_next z = (True, z')" "zkey z' = snd x" "zscore z' = str_i64 (fst x)" "zyields z' xs"
    using Cons.prems(1) zyields_Cons by metis
  with Cons.IH [OF z'(4)] Cons.prems(2) show ?case
    by (subst zclear_loop.simps) (simp add: zdels_def Let_def)
qed

lemma zdels_map:
  "zset_inv s \<Longrightarrow> reliable (db s) \<Longrightarrow> length n \<le> 255 \<Longrightarrow> zset_count s n + 1 < 2 ^ 63 \<Longrightarrow>
     \<forall>x \<in> set xs. length (snd x) \<le> 255 \<Longrightarrow>
     zset_inv (zdels n xs s) \<and>
     zset_map (zdels n xs s) = (zset_map s)(n := (\<lambda>k. if k \<in> snd ` set xs then None else zset_map s n k))"
proof (induction xs arbitrary: s)
  case Nil
  then show ?case by (simp add: zdels_def)
next
  case (Cons x xs)
  define s1 where "s1 = snd (zdel n (snd x) BT_SYNC s)"
  have e: "snd (zset_exec BT_SYNC (ZDel n (snd x)) s) = s1" by (simp add: s1_def split_beta Let_def)
  have i: "zset_inv s1" "reliable (db s1)" and m: "zset_map s1 = (zset_map s)(n := (zset_map s n)(snd x := None))"
    using zset_exec_reliably [OF Cons.prems(1,2), of "ZDel n (snd x)" BT_SYNC, unfolded e] Cons.prems(3-5)
    by (simp_all add: spec_write_def)
  have "card (dom (zset_map s n) - {snd x}) \<le> card (dom (zset_map s n))" by (rule card_Diff1_le)
  then have "zset_count s1 n \<le> zset_count s n" unfolding zset_count_def m by simp
  then have count: "zset_count s1 n + 1 < 2 ^ 63" using Cons.prems(4) by linarith
  have rest: "\<forall>x \<in> set xs. length (snd x) \<le> 255" using Cons.prems(5) by simp
  have i2: "zset_inv (zdels n xs s1)"
    and m2: "zset_map (zdels n xs s1) = (zset_map s1)(n := (\<lambda>k. if k \<in> snd ` set xs then None else zset_map s1 n k))"
    by (rule conjunct1 conjunct2, rule Cons.IH [OF i Cons.prems(3) count rest])+
  have "zdels n (x # xs) s = zdels n xs s1" by (simp add: zdels_def s1_def)
  moreover have "zset_map (zdels n xs s1) =
      (zset_map s)(n := (\<lambda>k. if k \<in> snd ` set (x # xs) then None else zset_map s n k))"
    unfolding m2 m fun_upd_upd by (rule arg_cong [where f = "fun_upd (zset_map s) n"], rule ext) simp
  ultimately show ?case using i2 by (simp only: simp_thms)
qed

lemma zset_map_member:
  assumes "zset_inv s" "length n \<le> 255" "zset_map s n k = Some v"
  shows "member_ok n k"
proof -
  have ok: "zset_ok (data s)" using assms(1) by (simp add: zset_inv_def)
  have "data s (encode_zset_key n k) = Some (str_i64 v)" using zset_map_stored [OF ok assms(2), of k] assms(3) by simp
  from zset_stored [OF ok this assms(2)] show ?thesis by blast
qed

text \<open>
  \<open>zClear\<close> deletes every member its scan reaches, and those only: a member with the largest
  score and a key after \<open>"\xff"\<close> stays. The other sorted sets are as before.
\<close>

theorem zclear_leaves:
  assumes "zset_inv s" "reliable (db s)" "length (c_str aKey) \<le> 255" "zset_count s (c_str aKey) + 1 < 2 ^ 63"
  shows "zset_inv (ext_zClear aKey s) \<and>
    zset_map (ext_zClear aKey s) = (zset_map s)(c_str aKey := (\<lambda>k.
      if zset_map s (c_str aKey) k = Some 9223372036854775807 \<and> [255] < k
      then zset_map s (c_str aKey) k else None))"
proof -
  let ?n = "c_str aKey"
  let ?xs = "zset_entries (tbl (db s)) ?n"
  let ?ys = "zreach FORWARD ?xs"
  have mem: "(v, k) \<in> set ?xs \<longleftrightarrow> zset_map s ?n k = Some v" for v k
    by (rule zset_entries_mem [OF assms(1,3)])
  have "length ?ys \<le> length ?xs" by (simp add: zreach_def)
  also have "\<dots> < 2 ^ 63" using zset_entries_count [OF assms(1,3)] assms(4) by simp
  finally have all: "take (unat (- 1 :: u64)) ?ys = ?ys" by (simp add: unsigned_minus_1_eq_mask mask_eq_exp_minus_1)
  have keys: "snd x \<noteq> [] \<and> length (snd x) \<le> 255" if "x \<in> set ?ys" for x
  proof -
    have x: "x \<in> set ?xs" using that by (simp add: zreach_def)
    then have "zset_map s ?n (snd x) = Some (fst x)" using mem [of "fst x" "snd x"] by (simp only: prod.collapse)
    then have "member_ok ?n (snd x)" using zset_map_member [OF assms(1,3)] by blast
    then show ?thesis by (simp add: member_ok_def)
  qed
  have start: "zkey (zscan s ?n [] [] [] (- 1)) = []"
    by (simp add: zscan_def ziterator_def ziter_new_def)
  have "zyields (zscan s ?n [] [] [] (- 1)) ?ys"
    using ziterator_all [OF assms(1,3), of "- 1" FORWARD] unfolding all by (simp add: zscan_def)
  from zclear_loop_zdels [OF this] keys start have "ext_zClear aKey s = zdels ?n ?ys s"
    by (simp add: ext_zClear_def Let_def)
  moreover have "(\<lambda>k. if k \<in> snd ` set ?ys then None else zset_map s ?n k) =
      (\<lambda>k. if zset_map s ?n k = Some 9223372036854775807 \<and> [255] < k then zset_map s ?n k else None)"
  proof (rule ext)
    fix k
    have "k \<in> snd ` set ?ys \<longleftrightarrow> (\<exists>v. zset_map s ?n k = Some v \<and> (v = 9223372036854775807 \<longrightarrow> k \<le> [255]))"
      using mem by (force simp: zreach_def)
    then show "(if k \<in> snd ` set ?ys then None else zset_map s ?n k) =
        (if zset_map s ?n k = Some 9223372036854775807 \<and> [255] < k then zset_map s ?n k else None)"
      by (cases "zset_map s ?n k") (auto simp: not_le)
  qed
  ultimately show ?thesis using zdels_map [OF assms, of ?ys] keys by simp
qed

lemma zclear_leaves_witness: "zset_map (ext_zClear [1] two_zset) [1] = (\<lambda>_. None)"
proof -
  have n: "length (c_str [1]) \<le> 255" and c: "c_str [1] = [1]" by (simp_all add: c_str_def)
  have "zset_count two_zset (c_str [1]) + 1 < 2 ^ 63" unfolding c by (simp add: zset_count_def two_zset_facts)
  from zclear_leaves [OF two_zset_facts(1,2) n this] show ?thesis
    unfolding c by (simp add: two_zset_facts fun_eq_iff)
qed

end
