(* ===== verification/T_zset_Fix.thy ===== *)
theory T_zset_Fix
  imports T_zset_Order
begin

text \<open>
  \<open>SSDBImpl::zfix\<close> of \<open>ssdb/ssdb/t_zset.cpp\<close>: the repair of one sorted set. Both passes write
  to the database directly, past the batch of the open transaction, while their iterators read the
  snapshot taken when they were made.
\<close>

section \<open>The repair\<close>

text \<open>
  The first pass: every record with a score in its key must have its record from key to score. A
  negative number stands for the paths that return -1.
\<close>

function zfix_scores :: "bytes \<Rightarrow> iter \<Rightarrow> int \<Rightarrow> ssdb \<Rightarrow> int \<times> ssdb" where
  "zfix_scores name i sz s =
     (case iter_next i of
        (False, i') \<Rightarrow> (sz, s)
      | (True, i') \<Rightarrow>
          if key_type (iter_key i') \<noteq> DT_ZSCORE then (sz, s)
          else (case decode_zscore_key (iter_key i') of
                  None \<Rightarrow> (-1, s)
                | Some (name2, key, score) \<Rightarrow>
                    if name \<noteq> name2 then (sz, s)
                    else let buf = encode_zset_key name key
                         in (case ldb_get (db s) buf of
                               GetError \<Rightarrow> (-1, s)
                             | NotFound \<Rightarrow>
                                 (let (ok, d) = ldb_put buf score (db s)
                                  in if \<not> ok then (-1, s\<lparr>db := d\<rparr>)
                                     else zfix_scores name i' (sz + 1) (s\<lparr>db := d\<rparr>))
                             | Found score2 \<Rightarrow>
                                 if score \<noteq> score2
                                 then (let (ok, d) = ldb_put buf score (db s)
                                       in if \<not> ok then (-1, s\<lparr>db := d\<rparr>)
                                          else zfix_scores name i' (sz + 1) (s\<lparr>db := d\<rparr>))
                                 else zfix_scores name i' (sz + 1) s)))"
  by pat_completeness auto
termination
  by (relation "measure (\<lambda>(_, i, _). unat (limit i))") (auto dest: iter_next_limit [OF sym])

text \<open>The second pass: every record from key to score must have its record with the score in the key.\<close>

function zfix_items :: "bytes \<Rightarrow> iter \<Rightarrow> int \<Rightarrow> ssdb \<Rightarrow> int \<times> ssdb" where
  "zfix_items name i sz s =
     (case iter_next i of
        (False, i') \<Rightarrow> (sz, s)
      | (True, i') \<Rightarrow>
          if key_type (iter_key i') \<noteq> DT_ZSET then (sz, s)
          else (case decode_zset_key (iter_key i') of
                  None \<Rightarrow> (-1, s)
                | Some (name2, key) \<Rightarrow>
                    if name \<noteq> name2 then (sz, s)
                    else let score = iter_val i'; buf = encode_zscore_key name key score
                         in (case ldb_get (db s) buf of
                               GetError \<Rightarrow> (-1, s)
                             | NotFound \<Rightarrow>
                                 (let (ok, d) = ldb_put buf [] (db s)
                                  in if \<not> ok then (-1, s\<lparr>db := d\<rparr>)
                                     else zfix_items name i' (sz + 1) (s\<lparr>db := d\<rparr>))
                             | Found v \<Rightarrow> zfix_items name i' (sz + 1) s)))"
  by pat_completeness auto
termination
  by (relation "measure (\<lambda>(_, i, _). unat (limit i))") (auto dest: iter_next_limit [OF sym])

declare zfix_scores.simps [simp del] zfix_items.simps [simp del]

text \<open>
  The code after each pass. The status of the write is not looked at; \<open>False\<close> means \<open>zfix\<close>
  returns -1.
\<close>

definition zfix_size :: "bytes \<Rightarrow> int \<Rightarrow> ssdb \<Rightarrow> bool \<times> ssdb" where
  "zfix_size name sz s =
     (let old_size = zsize s name
      in if old_size = -1 then (False, s)
         else if old_size \<noteq> sz
         then let size_key = encode_zsize_key name;
                  (ok, d) = (if sz = 0 then ldb_delete size_key (db s)
                             else ldb_put size_key (mem64 (of_int sz)) (db s))
              in (True, s\<lparr>db := d\<rparr>)
         else (True, s))"

definition zfix :: "bytes \<Rightarrow> ssdb \<Rightarrow> int \<times> ssdb" where
  "zfix name s =
     transaction (\<lambda>s.
       let it_start = encode_zscore_key name [] SSDB_SCORE_MIN;
           it_end = encode_zscore_key name [255] SSDB_SCORE_MAX;
           (sz, s) = zfix_scores name (ssdb_iterator s it_start it_end (- 1)) 0 s
       in if sz = -1 then (-1, s)
          else let (ok, s) = zfix_size name sz s
          in if \<not> ok then (-1, s)
          else let it_start = encode_zset_key name [];
                   it_end = encode_zset_key (name @ [255]) [];
                   (sz, s) = zfix_items name (ssdb_iterator s it_start it_end (- 1)) 0 s
          in if sz = -1 then (-1, s)
          else let (ok, s) = zfix_size name sz s
          in if \<not> ok then (-1, s) else (sz, s)) s"

section \<open>A set that needs no repair\<close>

lemma zfix_scores_intact:
  assumes "iter_ok i" "upcoming i = es"
    and "\<And>e. e \<in> set es \<Longrightarrow> \<exists>x. fst e = encode_zscore_key name (snd x) (str_i64 (fst x)) \<and>
      ldb_get (db s) (encode_zset_key name (snd x)) = Found (str_i64 (fst x))"
    and "length name \<le> 255"
  shows "zfix_scores name i sz s = (sz + int (length es), s)"
  using assms(1-3)
proof (induction es arbitrary: i sz)
  case Nil
  then obtain i' where "iter_next i = (False, i')" by (metis iter_next_Nil)
  then show ?case by (subst zfix_scores.simps) simp
next
  case (Cons e es)
  obtain i' where i': "iter_next i = (True, i')" "entry i' = e" "upcoming i' = es" "iter_ok i'"
    using Cons.prems(1,2) by (rule iter_next_Cons)
  obtain x where x: "fst e = encode_zscore_key name (snd x) (str_i64 (fst x))"
    "ldb_get (db s) (encode_zset_key name (snd x)) = Found (str_i64 (fst x))"
    using Cons.prems(3) by (meson list.set_intros(1))
  have k: "iter_key i' = encode_zscore_key name (snd x) (str_i64 (fst x))"
    using i'(2) x(1) by (auto simp: entry_def)
  have "decode_zscore_key (iter_key i') = Some (name, snd x, str_i64 (fst x))"
    unfolding k using zscore_key.dec_enc [of "(name, snd x, str_i64 (fst x))"] assms(4) by auto
  moreover have "key_type (iter_key i') = DT_ZSCORE" unfolding k by (simp add: key_type_prefix)
  moreover have "zfix_scores name i' (sz + 1) s = (sz + 1 + int (length es), s)"
    by (rule Cons.IH [OF i'(4,3)]) (use Cons.prems(3) in auto)
  ultimately show ?case using i'(1) x(2) by (subst zfix_scores.simps) simp
qed

text \<open>The second pass ends at the first record of another set.\<close>

lemma zfix_items_intact:
  assumes "iter_ok i" "upcoming i = es @ fs"
    and "\<And>e. e \<in> set es \<Longrightarrow> \<exists>k. length k \<le> 255 \<and> fst e = encode_zset_key name k \<and>
      (\<exists>v. ldb_get (db s) (encode_zscore_key name k (snd e)) = Found v)"
    and "fs \<noteq> [] \<Longrightarrow> key_type (fst (hd fs)) \<noteq> DT_ZSET \<or>
      (\<exists>n k. n \<noteq> name \<and> length n \<le> 255 \<and> length k \<le> 255 \<and> fst (hd fs) = encode_zset_key n k)"
    and "length name \<le> 255"
  shows "zfix_items name i sz s = (sz + int (length es), s)"
  using assms(1-3)
proof (induction es arbitrary: i sz)
  case Nil
  show ?case
  proof (cases fs)
    case Nil
    with Nil.prems obtain i' where "iter_next i = (False, i')" by (metis append_Nil iter_next_Nil)
    then show ?thesis by (subst zfix_items.simps) simp
  next
    case (Cons e fs')
    with Nil.prems obtain i' where i': "iter_next i = (True, i')" "entry i' = e"
      by (metis append_Nil iter_next_Cons)
    have k: "iter_key i' = fst (hd fs)" using i'(2) Cons by (auto simp: entry_def)
    from assms(4) Cons consider "key_type (fst (hd fs)) \<noteq> DT_ZSET"
      | n k where "n \<noteq> name" "length n \<le> 255" "length k \<le> 255" "fst (hd fs) = encode_zset_key n k"
      by auto
    then show ?thesis
    proof cases
      case 1
      with i' k show ?thesis by (subst zfix_items.simps) simp
    next
      case (2 n k)
      then have "decode_zset_key (fst (hd fs)) = Some (n, k)" using zset_key.dec_enc [of "(n, k)"] by simp
      with 2 i' k show ?thesis by (subst zfix_items.simps) (simp del: DT_ZSET_def)
    qed
  qed
next
  case (Cons e es)
  obtain i' where i': "iter_next i = (True, i')" "entry i' = e" "upcoming i' = es @ fs" "iter_ok i'"
    using Cons.prems(1,2) by (metis append_Cons iter_next_Cons)
  obtain k v where x: "fst e = encode_zset_key name k" "length k \<le> 255"
    "ldb_get (db s) (encode_zscore_key name k (snd e)) = Found v"
    using Cons.prems(3) by (meson list.set_intros(1))
  have k: "iter_key i' = encode_zset_key name k" "iter_val i' = snd e"
    using i'(2) x(1) by (auto simp: entry_def)
  have "decode_zset_key (iter_key i') = Some (name, k)"
    unfolding k using zset_key.dec_enc [of "(name, k)"] assms(5) x(2) by simp
  moreover have "key_type (iter_key i') = DT_ZSET" unfolding k by (simp add: key_type_prefix)
  moreover have "zfix_items name i' (sz + 1) s = (sz + 1 + int (length es), s)"
    by (rule Cons.IH [OF i'(4,3)]) (use Cons.prems(3) in auto)
  ultimately show ?case using i'(1) x(3) k(2) by (subst zfix_items.simps) simp
qed

lemma take_all64: "length xs < 2 ^ 63 \<Longrightarrow> take (unat (- 1 :: u64)) xs = xs"
proof -
  have "unat (- 1 :: u64) = 2 ^ 64 - 1" by (simp add: unsigned_minus_1_eq_mask mask_eq_exp_minus_1)
  then show "length xs < 2 ^ 63 \<Longrightarrow> take (unat (- 1 :: u64)) xs = xs" by simp
qed

lemma zset_count_bound: "zset_ok (data s) \<Longrightarrow> length n \<le> 255 \<Longrightarrow> zset_count s n < 2 ^ 63"
  using sizes_okD(2) [OF zset_okD(1), of "data s" n] by (simp add: zset_count_members)

lemma zfix_first_pass:
  assumes inv: "zset_inv s" and rel: "reliable (db s)" and n: "length n \<le> 255"
  shows "zfix_scores n (ssdb_iterator s (encode_zscore_key n [] SSDB_SCORE_MIN)
      (encode_zscore_key n [255] SSDB_SCORE_MAX) (- 1)) 0 s =
    (int (length (zreach FORWARD (zset_entries (tbl (db s)) n))), s)"
proof -
  let ?a = "(9223372036854775808, []) :: i64 \<times> bytes" and ?b = "(9223372036854775807, [255]) :: i64 \<times> bytes"
  let ?es = "range_asc (tbl (db s)) (zblock n @ zpos ?a) (zblock n @ zpos ?b)"
  have srt: "sorted_keys (tbl (db s))" and ok: "zset_ok (data s)"
    using inv by (simp_all add: zset_inv_def)
  note es = range_asc_zpos [OF inv n, of ?a ?b]
  have "filter (\<lambda>e. prefix (zblock n) (fst e)) ?es = ?es" using es(2) by (simp add: filter_id_conv)
  then have "length ?es = length (map (\<lambda>e. zmember (fst e)) (block_entries (zblock n) ?es))"
    by (simp add: block_entries_def)
  also have "\<dots> = length (zreach FORWARD (zset_entries (tbl (db s)) n))"
    using zpass_all [OF inv n, of FORWARD] unfolding es(3) by (simp add: zstart_def zend_def)
  finally have len: "length ?es = length (zreach FORWARD (zset_entries (tbl (db s)) n))" .
  also have "\<dots> \<le> zset_count s n"
    using zreach_sorted(5) [OF zset_listing_entries [OF inv n], of FORWARD] zset_entries_count [OF inv n] by simp
  also have "\<dots> < 2 ^ 63" by (rule zset_count_bound [OF ok n])
  finally have small: "length ?es < 2 ^ 63" .
  have "zfix_scores n (ssdb_iterator s (zblock n @ zpos ?a) (zblock n @ zpos ?b) (- 1)) 0 s =
      (0 + int (length ?es), s)"
  proof (rule zfix_scores_intact [OF upcoming_iterator(1) [OF srt] _ _ n])
    show "upcoming (ssdb_iterator s (zblock n @ zpos ?a) (zblock n @ zpos ?b) (- 1)) = ?es"
      using upcoming_iterator(2) [OF srt] take_all64 [OF small] by simp
    fix e assume e: "e \<in> set ?es"
    then obtain r where r: "fst e = zblock n @ r" using es(2) by (auto simp: prefix_def)
    then have "e = (zblock n @ r, snd e)" by (simp add: prod_eq_iff)
    with e es(1) have "(zblock n @ r, snd e) \<in> set (tbl (db s))" by auto
    then obtain x where x: "r = zpos x" "zset_map s n (snd x) = Some (fst x)"
      using zblock_entry [OF inv n] by blast
    have "ldb_get (db s) (encode_zset_key n (snd x)) = Found (str_i64 (fst x))"
      using zset_map_stored [OF ok n, of "snd x"] x(2) rel by (simp add: ldb_get_data reliable_def)
    then show "\<exists>x. fst e = encode_zscore_key n (snd x) (str_i64 (fst x)) \<and>
        ldb_get (db s) (encode_zset_key n (snd x)) = Found (str_i64 (fst x))"
      by (intro exI [of _ x]) (simp add: r x(1) encode_zscore_zpos)
  qed
  then show ?thesis using len by (simp add: encode_zscore_zpos score_limits)
qed

text \<open>The records from key to score of one set, in the table.\<close>

abbreviation zitems :: "bytes \<Rightarrow> bytes" where
  "zitems n \<equiv> name_prefix DT_ZSET n"

lemma encode_zset_items: "encode_zset_key n k = zitems n @ of_nat (length k) # k"
  by (simp add: encode_zset_key_def name_prefix_def)

lemma zset_table_entry:
  assumes "zset_ok (data s)" "sorted_keys (tbl (db s))" "e \<in> set (tbl (db s))" "key_type (fst e) = DT_ZSET"
  obtains n k sc where "fst e = encode_zset_key n k" "member_ok n k" "snd e = str_i64 sc"
    "data s (encode_zscore_key n k (str_i64 sc)) \<noteq> None"
proof -
  have pre: "prefix [DT_ZSET] (fst e)" using assms(4) by (simp add: key_type_prefix)
  then have "\<not> is_log_key (fst e)" by (cases "fst e") auto
  then have d: "data s (fst e) = Some (snd e)"
    using data_of_table [OF assms(2), of "fst e" "snd e"] assms(3) by simp
  from zset_okD(2) [OF assms(1) d pre] obtain n k sc where
    k: "fst e = encode_zset_key n k" "member_ok n k" "snd e = str_i64 sc" by blast
  moreover have "data s (encode_zscore_key n k (str_i64 sc)) \<noteq> None"
    using zset_okD(4) [OF assms(1), of n k sc] d k by (simp add: member_ok_def)
  ultimately show thesis using that by blast
qed

lemma zset_items_count:
  assumes "zset_inv s" "length n \<le> 255"
  shows "length (filter (\<lambda>e. prefix (zitems n) (fst e)) (tbl (db s))) = zset_count s n"
proof -
  let ?t = "tbl (db s)" and ?f = "\<lambda>k :: bytes. of_nat (length k) # k"
  have srt: "sorted_keys ?t" and ok: "zset_ok (data s)" using assms(1) by (simp_all add: zset_inv_def)
  have nl: "\<not> is_log_key (zitems n @ r)" for r by (simp add: name_prefix_def)
  have map_data: "map_of ?t (zitems n @ r) = data s (zitems n @ r)" for r
    using nl by (simp add: data_map_def)
  have "(\<exists>v. map_of ?t (zitems n @ r) = Some v) \<longleftrightarrow> r \<in> ?f ` dom (zset_map s n)" for r
  proof
    assume "\<exists>v. map_of ?t (zitems n @ r) = Some v"
    then obtain v where v: "data s (zitems n @ r) = Some v" using map_data by auto
    have "prefix [DT_ZSET] (zitems n @ r)" by (simp add: name_prefix_def)
    from zset_okD(2) [OF ok v this] obtain n' k sc where k: "zitems n @ r = encode_zset_key n' k"
      "member_ok n' k" "v = str_i64 sc" by blast
    have "prefix (zitems n) (zitems n' @ ?f k)" using k(1) by (metis encode_zset_items prefixI)
    then have "n = n'" using name_prefix_prefix [OF assms(2), of n' DT_ZSET DT_ZSET "?f k"] k(2)
      by (simp add: member_ok_def)
    with k v have "r = ?f k" "zset_map s n k = Some sc"
      using zset_map_stored [OF ok assms(2), of k]
      by (cases "zset_map s n k"; simp add: encode_zset_items str_i64_inject)+
    then show "r \<in> ?f ` dom (zset_map s n)" by blast
  next
    assume "r \<in> ?f ` dom (zset_map s n)"
    then obtain k sc where "r = ?f k" "zset_map s n k = Some sc" by auto
    then show "\<exists>v. map_of ?t (zitems n @ r) = Some v"
      using zset_map_stored [OF ok assms(2), of k] map_data [of r] by (simp add: encode_zset_items)
  qed
  then have "dom (\<lambda>r. map_of ?t (zitems n @ r)) = ?f ` dom (zset_map s n)" by (auto simp: dom_def)
  moreover have "inj_on ?f (dom (zset_map s n))" by (auto simp: inj_on_def)
  ultimately have "length (block_entries (zitems n) ?t) = zset_count s n"
    using card_block_entries [OF srt, of "zitems n"] by (simp add: card_image zset_count_def)
  then show ?thesis by (simp add: block_entries_def)
qed

lemma zfix_second_pass:
  assumes inv: "zset_inv s" and rel: "reliable (db s)" and n: "length n < 255"
  shows "zfix_items n (ssdb_iterator s (encode_zset_key n []) (encode_zset_key (n @ [255]) []) (- 1)) 0 s =
    (int (zset_count s n), s)"
proof -
  let ?t = "tbl (db s)" and ?p = "zitems n"
  let ?a = "encode_zset_key n []" and ?b = "encode_zset_key (n @ [255]) []"
  let ?P = "\<lambda>e :: bytes \<times> bytes. prefix ?p (fst e)"
  let ?up = "take (unat (- 1 :: u64)) (range_asc ?t ?a ?b)"
  have n255: "length n \<le> 255" using n by simp
  have srt: "sorted_keys ?t" and ok: "zset_ok (data s)" using inv by (simp_all add: zset_inv_def)
  have mine: "\<exists>k. length k \<le> 255 \<and> k \<noteq> [] \<and> fst e = encode_zset_key n k \<and>
      (\<exists>v. ldb_get (db s) (encode_zscore_key n k (snd e)) = Found v)"
    if e: "e \<in> set ?t" "?P e" for e
  proof -
    have "key_type (fst e) = DT_ZSET" using e(2) by (auto simp: name_prefix_def key_type_def split: list.split)
    from zset_table_entry [OF ok srt e(1) this] obtain n' k sc where k: "fst e = encode_zset_key n' k"
      "member_ok n' k" "snd e = str_i64 sc" "data s (encode_zscore_key n' k (str_i64 sc)) \<noteq> None" .
    have "n' = n" using e(2) name_prefix_prefix [OF n255, of n' DT_ZSET DT_ZSET] k(1,2)
      by (simp add: encode_zset_items member_ok_def)
    with k rel show ?thesis
      by (auto simp: member_ok_def ldb_get_data reliable_def)
  qed
  have inside: "?a < fst e \<and> fst e \<le> ?b" if e: "e \<in> set ?t" "?P e" for e
  proof -
    obtain k where k: "length k \<le> 255" "k \<noteq> []" "fst e = encode_zset_key n k" using mine [OF e] by (elim exE conjE)
    have "(0 :: u8) < of_nat (length k)"
      using k(1,2) by (simp add: word_less_nat_alt length_byte)
    then have "?a < fst e" by (simp add: k(3) encode_zset_key_def)
    moreover have "(of_nat (length n) :: u8) < of_nat (length (n @ [255]))"
      unfolding word_less_nat_alt
      using n length_byte [of "length n"] length_byte [of "length (n @ [255])"] by simp
    then have "fst e < ?b" unfolding k(3) encode_zset_key_def by simp
    ultimately show ?thesis by simp
  qed
  have "takeWhile ?P ?up = take (unat (- 1 :: u64)) (filter ?P (range_asc ?t ?a ?b))"
    by (rule block_asc [OF srt]) (simp add: encode_zset_items prefix_le)
  also have "filter ?P (range_asc ?t ?a ?b) = filter ?P ?t"
    using inside by (auto simp: range_asc_def in_bound_def intro: filter_cong)
  also have "take (unat (- 1 :: u64)) (filter ?P ?t) = filter ?P ?t"
    using take_all64 [of "filter ?P ?t"] zset_items_count [OF inv n255] zset_count_bound [OF ok n255] by simp
  finally have tw: "takeWhile ?P ?up = filter ?P ?t" .
  have "zfix_items n (ssdb_iterator s ?a ?b (- 1)) 0 s = (0 + int (length (filter ?P ?t)), s)"
  proof (rule zfix_items_intact [OF upcoming_iterator(1) [OF srt] _ _ _ n255])
    show "upcoming (ssdb_iterator s ?a ?b (- 1)) = filter ?P ?t @ dropWhile ?P ?up"
      unfolding upcoming_iterator(2) [OF srt] tw [symmetric] by simp
    show "\<exists>k. length k \<le> 255 \<and> fst e = encode_zset_key n k \<and>
        (\<exists>v. ldb_get (db s) (encode_zscore_key n k (snd e)) = Found v)" if "e \<in> set (filter ?P ?t)" for e
      using mine [of e] that by auto
    assume ne: "dropWhile ?P ?up \<noteq> []"
    let ?e = "hd (dropWhile ?P ?up)"
    have np: "\<not> ?P ?e" by (rule hd_dropWhile [OF ne])
    have "?e \<in> set ?up" using ne by (metis hd_in_set set_dropWhileD)
    then have "?e \<in> set ?t" by (auto simp: range_asc_def dest: in_set_takeD)
    then show "key_type (fst ?e) \<noteq> DT_ZSET \<or>
        (\<exists>m k. m \<noteq> n \<and> length m \<le> 255 \<and> length k \<le> 255 \<and> fst ?e = encode_zset_key m k)"
      using zset_table_entry [OF ok srt, of ?e] np
      by (metis encode_zset_items member_ok_def prefixI)
  qed
  then show ?thesis by (simp only: zset_items_count [OF inv n255] add_0)
qed

text \<open>With a name of 255 bytes the length byte of the end key wraps to 0 and the range is empty.\<close>

lemma zfix_second_pass_long:
  assumes srt: "sorted_keys (tbl (db s))" and n: "length n = 255"
  shows "zfix_items n (ssdb_iterator s (encode_zset_key n []) (encode_zset_key (n @ [255]) []) (- 1)) 0 s = (0, s)"
proof -
  have "range_asc (tbl (db s)) (encode_zset_key n []) (encode_zset_key (n @ [255]) []) = []"
    using n by (fastforce simp: range_asc_def in_bound_def encode_zset_key_def filter_empty_conv
        dest: order.strict_trans2)
  then have "upcoming (ssdb_iterator s (encode_zset_key n []) (encode_zset_key (n @ [255]) []) (- 1)) = []"
    by (simp add: upcoming_iterator(2) [OF srt])
  then obtain i' where
    "iter_next (ssdb_iterator s (encode_zset_key n []) (encode_zset_key (n @ [255]) []) (- 1)) = (False, i')"
    using upcoming_iterator(1) [OF srt] by (metis iter_next_Nil)
  then show ?thesis by (subst zfix_items.simps) simp
qed

lemma zset_map_db: "db s' = db s \<Longrightarrow> zset_map s' = zset_map s"
  by (rule ext) (simp only: zset_map_def)

lemma zset_begin [simp]:
  "zset_inv (bl_begin s) = zset_inv s" "zset_count (bl_begin s) = zset_count s"
  "zsize (bl_begin s) = zsize s"
  using zset_map_db [of "bl_begin s" s]
  by (simp_all add: zset_inv_def zset_count_def [abs_def] zsize_def [abs_def])

lemma zreach_everything:
  assumes "zset_inv s" "length n \<le> 255"
    and "\<forall>k. zset_map s n k = Some 9223372036854775807 \<longrightarrow> k \<le> [255]"
  shows "length (zreach FORWARD (zset_entries (tbl (db s)) n)) = zset_count s n"
proof -
  have "zreach FORWARD (zset_entries (tbl (db s)) n) = zset_entries (tbl (db s)) n"
    using assms(3) zset_entries_mem [OF assms(1,2)] by (auto simp: zreach_def filter_id_conv)
  then show ?thesis by (simp add: zset_entries_count [OF assms(1,2)])
qed

lemma zfix_size_right: "zsize s n = c \<Longrightarrow> c \<noteq> -1 \<Longrightarrow> zfix_size n c s = (True, s)"
  by (simp add: zfix_size_def)

text \<open>
  C25: on a set that is in order, with a name of less than 255 bytes and no member at the largest
  score with a key above the one-byte key 255, on storage that does not fail, \<open>zfix\<close> answers the size
  of the set and writes nothing.
\<close>

theorem zfix_intact:
  assumes "zset_inv s" "reliable (db s)" "length n < 255"
    and "\<forall>k. zset_map s n k = Some 9223372036854775807 \<longrightarrow> k \<le> [255]"
  shows "fst (zfix n s) = zsize s n \<and> db (snd (zfix n s)) = db s"
proof -
  let ?s = "bl_begin s"
  have n: "length n \<le> 255" using assms(3) by simp
  have inv: "zset_inv ?s" and rel: "reliable (db ?s)" using assms(1,2) by simp_all
  have ok: "zset_ok (data s)" using assms(1) by (simp add: zset_inv_def)
  have z: "zsize ?s n = int (zset_count s n)"
    using zsize_count [OF ok _ n] assms(2) by (simp add: reliable_def)
  have "length (zreach FORWARD (zset_entries (tbl (db ?s)) n)) = zset_count s n"
    using zreach_everything [OF assms(1) n assms(4)] by simp
  note pass = zfix_first_pass [OF inv rel n, unfolded this] zfix_second_pass [OF inv rel assms(3)]
    zfix_size_right [OF z]
  show ?thesis
    unfolding zfix_def transaction_def Let_def pass(1) prod.case
    using z by (simp add: pass)
qed

lemma zfix_intact_witness: "fst (zfix [1] two_zset) = 2"
proof -
  have "\<forall>k. zset_map two_zset [1] k = Some 9223372036854775807 \<longrightarrow> k \<le> [255]"
    by (simp add: two_zset_facts)
  with zfix_intact [OF two_zset_facts(1,2), of "[1]"] show ?thesis
    using zsize_count [of two_zset "[1]"] two_zset_facts
    by (simp add: zset_inv_def reliable_def zset_count_def)
qed

text \<open>
  C26: for a set in order whose name has the largest length the code accepts, 255 bytes, \<open>zfix\<close>
  answers 0 and deletes the size record: the set has members and reports that it is empty. As in C25
  the storage does not fail, and no member at the largest score has a key above the one-byte key 255.
\<close>

theorem zfix_long_name:
  assumes "zset_inv s" "reliable (db s)" "length n = 255" "zset_map s n k \<noteq> None"
    and "\<forall>k. zset_map s n k = Some 9223372036854775807 \<longrightarrow> k \<le> [255]"
  shows "fst (zfix n s) = 0 \<and> zsize (snd (zfix n s)) n = 0 \<and> zset_map (snd (zfix n s)) n k = zset_map s n k"
proof -
  let ?s = "bl_begin s" and ?sk = "encode_zsize_key n"
  have n: "length n \<le> 255" using assms(3) by simp
  have inv: "zset_inv ?s" and rel: "reliable (db ?s)" using assms(1,2) by simp_all
  have ok: "zset_ok (data s)" and srt: "sorted_keys (tbl (db ?s))"
    using assms(1) by (simp_all add: zset_inv_def)
  have z: "zsize ?s n = int (zset_count s n)"
    using zsize_count [OF ok _ n] assms(2) by (simp add: reliable_def)
  have pos: "zset_count s n \<noteq> 0"
    using assms(4) zset_map_finite [OF ok, of n] by (auto simp: zset_count_def)
  obtain d where del: "ldb_delete ?sk (db s) = (True, d)" "data_map (tbl d) = (data s)(?sk := None)"
    "unreadable d = {}"
    using assms(2)
    by (simp add: ldb_delete_def ldb_write_eq reliable_def write_ok_def data_map_tbatch)
  have "length (zreach FORWARD (zset_entries (tbl (db ?s)) n)) = zset_count s n"
    using zreach_everything [OF assms(1) n assms(5)] by simp
  note pass = zfix_first_pass [OF inv rel n, unfolded this] zfix_second_pass_long [OF srt assms(3)]
    zfix_size_right [OF z]
  have "zfix n s = (0, bl_rollback (?s\<lparr>db := d\<rparr>))"
    unfolding zfix_def transaction_def Let_def pass(1) prod.case
    using z pos del(1) by (simp add: pass zfix_size_def)
  moreover have "ldb_get d ?sk = NotFound" using del(2,3) by (simp add: ldb_get_data)
  ultimately show ?thesis
    using del(2) by (simp add: zsize_def zset_map_def)
qed

lemma zfix_long_name_witness:
  "\<exists>s n. zset_map s n [2] = Some 7 \<and> fst (zfix n s) = 0 \<and> zsize (snd (zfix n s)) n = 0"
proof -
  let ?n = "replicate 255 (1 :: u8)" and ?c = "ZIncr (replicate 255 1) [2] 7"
  let ?s = "snd (zset_exec BT_SYNC ?c empty_ssdb)"
  have "zset_inv ?s" "reliable (db ?s)" "zset_map ?s = snd (zset_spec True ?c (zset_map empty_ssdb))"
    by (rule zset_exec_reliably; simp add: zset_count_def)+
  then have s: "zset_inv ?s" "reliable (db ?s)" "zset_map ?s ?n = [[2] \<mapsto> 7]"
    by (simp_all add: spec_write_def zincr_value_def del: zset_exec.simps)
  have len: "length ?n = 255" by simp
  have "zset_map ?s ?n [2] \<noteq> None"
    "\<forall>k. zset_map ?s ?n k = Some 9223372036854775807 \<longrightarrow> k \<le> [255]"
    unfolding s(3) by simp_all
  from zfix_long_name [OF s(1,2) len this] have "zset_map ?s ?n [2] = Some 7 \<and>
      fst (zfix ?n ?s) = 0 \<and> zsize (snd (zfix ?n ?s)) ?n = 0"
    unfolding s(3) by simp
  then show ?thesis by blast
qed

end
