(* ===== verification/Isolation_Bulk.thy ===== *)
theory Isolation_Bulk
  imports Isolation T_zset_Fix
begin

text \<open>
  The operations that change many records or repair a structure: the vector commands and bits of
  values, \<open>hclear\<close>, \<open>zfix\<close>, \<open>qset_by_seq\<close> and \<open>qfix\<close>. They too stay within the records of
  their own type, on every path.
\<close>

section \<open>Values\<close>

lemma multi_set_loop_within:
  "within kv_tags d s \<Longrightarrow> within kv_tags d (snd (multi_set_loop lt ks s))"
proof (induction lt ks s rule: multi_set_loop.induct)
  case (2 lt key rest s)
  then show ?case by (cases rest) (simp_all add: Let_def within_steps typed_keys)
qed simp

lemma multi_del_loop_within:
  "within kv_tags d s \<Longrightarrow> within kv_tags d (multi_del_loop lt ks s)"
  by (induction lt ks s rule: multi_del_loop.induct)
    (auto simp: Let_def intro: within_steps typed_keys)

lemma bulk_kv_ends:
  "stays kv_tags (db s) False (kv_multi_set ks ofs lt s)"
  "stays kv_tags (db s) False (kv_multi_del ks ofs lt s)"
  "stays kv_tags (db s) False (kv_setbit k i on lt s)"
proof -
  show "stays kv_tags (db s) False (kv_multi_set ks ofs lt s)"
    unfolding kv_multi_set_def
  proof (intro stays_transaction ends_if)
    fix s' assume w: "within kv_tags (db s) s'"
    then show "stays kv_tags (db s) False (None, s')" by (rule isolation.ends_return)
    obtain m s1 where m: "multi_set_loop lt (drop ofs ks) s' = (m, s1)" by fastforce
    then have "within kv_tags (db s) s1" using multi_set_loop_within [OF w, of lt "drop ofs ks"] by simp
    then show "stays kv_tags (db s) False (case multi_set_loop lt (drop ofs ks) s' of
        (MDone, s) \<Rightarrow> let (r, s) = commit_ret (int ((length ks - ofs) div 2)) s in (Some r, s)
      | (MReturn r, s) \<Rightarrow> (Some r, s) | (MUndefined, s) \<Rightarrow> (None, s))"
      unfolding m by (cases m) (auto intro: isolation.ends_return isolation.ends_commit_then)
  qed
  show "stays kv_tags (db s) False (kv_multi_del ks ofs lt s)"
    unfolding kv_multi_del_def
    by (intro stays_rules multi_del_loop_within; assumption?)
  show "stays kv_tags (db s) False (kv_setbit k i on lt s)"
    unfolding kv_setbit_def by (intro stays_rules typed_keys; assumption)
qed

section \<open>Hashes\<close>

text \<open>
  \<open>hclear\<close> is a chain of deletions: what holds of each of them and can be composed holds of it.
\<close>

lemma hclear_inner_chain:
  fixes R :: "ssdb \<Rightarrow> ssdb \<Rightarrow> bool"
  assumes refl: "\<And>s. R s s" and trans: "\<And>a b c. R a b \<Longrightarrow> R b c \<Longrightarrow> R a c"
    and step: "\<And>k s. R s (snd (hdel n k BT_SYNC s))"
  shows "R s (snd (hclear_inner n h num s))"
  using step
proof (induction n h num s rule: hclear_inner.induct)
  case (1 n h num s)
  obtain b h' where h: "hiter_next h = (b, h')" by fastforce
  obtain ret s1 where d: "hdel n (hkey h') BT_SYNC s = (ret, s1)" by fastforce
  have c: "R s s1" using "1.prems" [of s "hkey h'"] unfolding d by simp
  have e: "hclear_inner n h num s =
      (if b then if ret = -1 then ((False, num), s1) else hclear_inner n h' (num + 1) s1 else ((True, num), s))"
    by (subst hclear_inner.simps) (cases b; simp add: h d [simplified])
  have "R s1 (snd (hclear_inner n h' (num + 1) s1))" if "b" "ret \<noteq> -1"
    using "1.IH" [OF h [symmetric] _ HOL.refl d [symmetric] _ "1.prems"] that by simp
  then show ?case using c refl unfolding e by (auto intro: trans)
qed

lemma hclear_chain:
  fixes R :: "ssdb \<Rightarrow> ssdb \<Rightarrow> bool"
  assumes refl: "\<And>s. R s s" and trans: "\<And>a b c. R a b \<Longrightarrow> R b c \<Longrightarrow> R a c"
    and step: "\<And>n k s. R s (snd (hdel n k BT_SYNC s))" and run: "hclear n s = Some (r, s')"
  shows "R s s'"
proof -
  have "hclear_loop n 0 s = Some (r, s')" using run by (simp add: hclear_def)
  from this have "R s (snd (r, s'))"
  proof (rule hclear_loop.raw_induct [where P = "\<lambda>n c s y. R s (snd y)", rotated])
    fix f :: "bytes \<Rightarrow> int \<Rightarrow> ssdb \<Rightarrow> (int \<times> ssdb) option" and n c s y
    assume IH: "\<And>n c s y. f n c s = Some y \<Longrightarrow> R s (snd y)"
      and y: "(let ((ok, num), s') = hclear_inner n (hscan s n [] [] 1000) 0 s
         in if \<not> ok then Some (0, s') else if num = 0 then Some (c, s') else f n (c + int num) s') = Some y"
    obtain ok num s1 where i: "hclear_inner n (hscan s n [] [] 1000) 0 s = ((ok, num), s1)"
      by (metis prod.collapse)
    have c: "R s s1"
      using hclear_inner_chain [where R = R and n = n and s = s and h = "hscan s n [] [] 1000" and num = 0, OF refl trans step] unfolding i by simp
    from y show "R s (snd y)"
      unfolding i by (auto split: if_splits intro: c trans [OF c IH])
  qed
  then show ?thesis by simp
qed

lemma hclear_confined:
  assumes "hclear n s = Some (r, s')"
  shows "confined hash_tags (db s) (db s')"
  using hash_ends(2) confined_trans
  by (intro hclear_chain [OF _ _ _ assms, of "\<lambda>s s'. confined hash_tags (db s) (db s')"])
    (auto simp: ends_def)

section \<open>Sorted sets\<close>

lemma confined_direct:
  "typed T k \<Longrightarrow> confined T d (snd (ldb_put k v d))" "typed T k \<Longrightarrow> confined T d (snd (ldb_delete k d))"
  by (simp_all add: ldb_put_def ldb_delete_def confined_write)

lemma zfix_scores_confined: "confined zset_tags (db s) (db (snd (zfix_scores n i sz s)))"
proof (induction "unat (limit i)" arbitrary: i sz s rule: less_induct)
  case less
  obtain b j where i: "iter_next i = (b, j)" by fastforce
  have stay: "confined zset_tags (db s) (db (snd (zfix_scores n j sz' s)))" if b for sz'
    using less iter_next_limit i that by simp
  have put: "confined zset_tags (db s) d" if "ldb_put (encode_zset_key n k) v (db s) = (ok, d)" for k v ok d
    using confined_direct(1) [OF typed_keys(4) [of n k], where v = v and d = "db s"] that by simp
  have go: "confined zset_tags (db s) (db (snd (zfix_scores n j sz' (s\<lparr>db := d\<rparr>))))"
    if "ldb_put (encode_zset_key n k) v (db s) = (ok, d)" b for k v ok d sz'
    using confined_trans [OF put [OF that(1)]] less [of j "s\<lparr>db := d\<rparr>"] iter_next_limit i that(2) by simp
  show ?case
    by (subst zfix_scores.simps)
      (auto simp: i Let_def split: prod.split option.split get_result.split bool.split intro: stay put go)
qed

lemma zfix_items_confined: "confined zset_tags (db s) (db (snd (zfix_items n i sz s)))"
proof (induction "unat (limit i)" arbitrary: i sz s rule: less_induct)
  case less
  obtain b j where i: "iter_next i = (b, j)" by fastforce
  have stay: "confined zset_tags (db s) (db (snd (zfix_items n j sz' s)))" if b for sz'
    using less iter_next_limit i that by simp
  have put: "confined zset_tags (db s) d" if "ldb_put (encode_zscore_key n k sc) v (db s) = (ok, d)" for k sc v ok d
    using confined_direct(1) [OF typed_keys(5) [of n k sc], where v = v and d = "db s"] that by simp
  have go: "confined zset_tags (db s) (db (snd (zfix_items n j sz' (s\<lparr>db := d\<rparr>))))"
    if "ldb_put (encode_zscore_key n k sc) v (db s) = (ok, d)" b for k sc v ok d sz'
    using confined_trans [OF put [OF that(1)]] less [of j "s\<lparr>db := d\<rparr>"] iter_next_limit i that(2) by simp
  show ?case
    by (subst zfix_items.simps)
      (auto simp: i Let_def split: prod.split option.split get_result.split bool.split intro: stay put go)
qed

lemma zfix_size_confined: "confined zset_tags (db s) (db (snd (zfix_size n sz s)))"
  using confined_direct [OF typed_keys(6)] by (auto simp: zfix_size_def Let_def split_beta)

text \<open>The pieces of \<open>zfix\<close> write one after the other, past the transaction.\<close>

lemma ends_direct:
  "confined T d (db s) \<Longrightarrow> stays T d False (a, s)"
  "(\<And>s. confined T (db s) (db (snd (x s)))) \<Longrightarrow> confined T d (db s) \<Longrightarrow>
     (\<And>a s'. confined T d (db s') \<Longrightarrow> stays T d False (f a s')) \<Longrightarrow>
     stays T d False (case x s of (a, s') \<Rightarrow> f a s')"
  by (simp_all add: ends_def split_beta) (blast intro: confined_trans)

lemma bulk_zset_ends: "stays zset_tags (db s) False (zfix n s)"
  unfolding zfix_def
proof (rule stays_transaction)
  fix s'
  assume "within zset_tags (db s) s'"
  then have "confined zset_tags (db s) (db s')" by (rule within_confined)
  then show "stays zset_tags (db s) False
      (let it_start = encode_zscore_key n [] SSDB_SCORE_MIN;
           it_end = encode_zscore_key n [255] SSDB_SCORE_MAX;
           (sz, s) = zfix_scores n (ssdb_iterator s' it_start it_end (- 1)) 0 s'
       in if sz = -1 then (-1, s)
          else let (ok, s) = zfix_size n sz s
          in if \<not> ok then (-1, s)
          else let it_start = encode_zset_key n [];
                   it_end = encode_zset_key (n @ [255]) [];
                   (sz, s) = zfix_items n (ssdb_iterator s it_start it_end (- 1)) 0 s
          in if sz = -1 then (-1, s)
          else let (ok, s) = zfix_size n sz s
          in if \<not> ok then (-1, s) else (sz, s))"
    unfolding Let_def
    by (intro ends_if ends_direct zfix_scores_confined zfix_items_confined zfix_size_confined)
qed

section \<open>Queues\<close>

lemma bulk_queue_ends:
  "stays queue_tags (db s) False (qset_by_seq n q x lt s)" "stays queue_tags (db s) False (qfix n s)"
proof -
  show "stays queue_tags (db s) False (qset_by_seq n q x lt s)"
    unfolding qset_by_seq_def by (intro stays_rules queue_parts typed_keys; assumption)
  show "stays queue_tags (db s) False (qfix n s)"
    unfolding qfix_def
    by (rule stays_transaction, simp only: Let_def split: option.split prod.split)
      (intro conjI allI impI stays_rules queue_parts typed_keys; assumption)
qed

section \<open>Every operation that writes\<close>

datatype operation =
    Single command | MultiSet "bytes list" nat | MultiDel "bytes list" nat | SetBit bytes int int
  | HClear bytes | ZFix bytes | QSetBySeq bytes u64 bytes | QFix bytes

text \<open>The state after an operation, if it returns.\<close>

fun operate :: "u8 \<Rightarrow> operation \<Rightarrow> ssdb \<Rightarrow> ssdb option" where
  "operate lt (Single c) s = Some (snd (exec lt c s))"
| "operate lt (MultiSet ks ofs) s = Some (snd (kv_multi_set ks ofs lt s))"
| "operate lt (MultiDel ks ofs) s = Some (snd (kv_multi_del ks ofs lt s))"
| "operate lt (SetBit k i on) s = Some (snd (kv_setbit k i on lt s))"
| "operate lt (HClear n) s = map_option snd (hclear n s)"
| "operate lt (ZFix n) s = Some (snd (zfix n s))"
| "operate lt (QSetBySeq n q x) s = Some (snd (qset_by_seq n q x lt s))"
| "operate lt (QFix n) s = Some (snd (qfix n s))"

fun op_tags :: "operation \<Rightarrow> u8 set" where
  "op_tags (Single c) = tags c"
| "op_tags (MultiSet ks ofs) = kv_tags" | "op_tags (MultiDel ks ofs) = kv_tags"
| "op_tags (SetBit k i on) = kv_tags" | "op_tags (HClear n) = hash_tags"
| "op_tags (ZFix n) = zset_tags"
| "op_tags (QSetBySeq n q x) = queue_tags" | "op_tags (QFix n) = queue_tags"

lemma operate_confined: "operate lt p s = Some s' \<Longrightarrow> confined (op_tags p) (db s) (db s')"
  using bulk_kv_ends bulk_zset_ends bulk_queue_ends exec_confined hclear_confined
  by (cases p) (fastforce simp: ends_def)+

text \<open>
  C5: no operation changes data outside its own type, whatever state the server is in, whichever
  reads and writes fail and whatever the operation answers: every record under another type byte
  stays as it was. The table remains sorted. This covers the single commands, the vector commands,
  the bits, the clearing of a hash and the repairs of sorted sets and queues.
\<close>

theorem types_isolated:
  assumes "operate lt p s = Some s'"
  shows "(\<forall>t x. t \<notin> op_tags p \<longrightarrow> data s' (t # x) = data s (t # x)) \<and>
    (sorted_keys (tbl (db s)) \<longrightarrow> sorted_keys (tbl (db s')))"
proof (intro conjI allI impI)
  note frame = operate_confined [OF assms]
  show "data s' (t # x) = data s (t # x)" if "t \<notin> op_tags p" for t x
    using that by (intro confinedD [OF frame]) (auto simp: typed_def)
  show "sorted_keys (tbl (db s)) \<Longrightarrow> sorted_keys (tbl (db s'))"
    using frame by (simp add: confined_def)
qed

lemma types_isolated_witness:
  "data (snd (zfix [1] (snd (kv_set [5] [6] BT_SYNC empty_ssdb)))) (DT_KV # [5]) =
   data (snd (kv_set [5] [6] BT_SYNC empty_ssdb)) (DT_KV # [5])"
proof -
  have "DT_KV \<notin> op_tags (ZFix [1])" by (simp add: zset_tags_def)
  then show ?thesis
    using types_isolated [of BT_SYNC "ZFix [1]" "snd (kv_set [5] [6] BT_SYNC empty_ssdb)" "snd (zfix [1] (snd (kv_set [5] [6] BT_SYNC empty_ssdb)))", OF operate.simps(6)]
    by blast
qed

end
