(* ===== verification/Change_Log.thy ===== *)
theory Change_Log
  imports Isolation_Bulk
begin

text \<open>
  What the log is for: a reader that knows the data up to one sequence number learns from the later
  records which keys to look at again. Every operation but \<open>zfix\<close> keeps this promise (\<open>hclear\<close> through its
  calls of \<open>hdel\<close>): each change of a user's record is named by a log record of the same batch.
\<close>

section \<open>Records that are named\<close>

text \<open>A pop logs the name of its queue, every other operation the key it has written.\<close>

definition log_names :: "u8 \<times> u8 \<times> bytes \<Rightarrow> bytes \<Rightarrow> bool" where
  "log_names e k \<longleftrightarrow>
     (case e of (t, c, x) \<Rightarrow>
        x = k \<or> c \<in> {BC_QPOP_FRONT, BC_QPOP_BACK} \<and> (\<exists>q. k = encode_qitem_key x q))"

text \<open>
  Records that follow from the others: the counters, the records ordered by score and the pointers
  to the ends of the queues.
\<close>

definition bookkeeping :: "bytes \<Rightarrow> bool" where
  "bookkeeping k \<longleftrightarrow> typed {DT_HSIZE, DT_ZSIZE, DT_ZSCORE, DT_QSIZE} k \<or>
     (\<exists>n q. q \<in> {QFRONT_SEQ, QBACK_SEQ} \<and> k = encode_qitem_key n q)"

lemma bookkeeping_keys:
  "bookkeeping (encode_hsize_key n)" "bookkeeping (encode_zsize_key n)"
  "bookkeeping (encode_zscore_key n k sc)" "bookkeeping (encode_qsize_key n)"
  "bookkeeping (encode_qitem_key n QFRONT_SEQ)" "bookkeeping (encode_qitem_key n QBACK_SEQ)"
  unfolding bookkeeping_def typed_def by (auto simp: key_heads)

definition log_entry :: "u64 \<Rightarrow> u8 \<times> u8 \<times> bytes \<Rightarrow> bytes" where
  "log_entry p e = (case e of (t, c, x) \<Rightarrow> binlog_new p t c x)"

text \<open>
  The records of \<open>ls\<close> were added to the log, and they name what has changed. When the log is off,
  nothing was added.
\<close>

definition named_by :: "(u8 \<times> u8 \<times> bytes) list \<Rightarrow> ssdb \<Rightarrow> ssdb \<Rightarrow> bool" where
  "named_by ls s0 s \<longleftrightarrow>
     enabled s = enabled s0 \<and> (\<not> enabled s0 \<longrightarrow> ls = []) \<and> last_seq s = last_seq s0 + of_nat (length ls) \<and>
     (enabled s0 \<longrightarrow> (\<forall>k. data s k \<noteq> data s0 k \<longrightarrow> bookkeeping k \<or> (\<exists>e \<in> set ls. log_names e k))) \<and>
     (unat (last_seq s0) + length ls < 2 ^ 64 \<longrightarrow>
        (\<forall>p. log_map (tbl (db s)) p =
           (if last_seq s0 < p \<and> unat p \<le> unat (last_seq s0) + length ls
            then Some (log_entry p (ls ! (unat p - unat (last_seq s0) - 1)))
            else log_map (tbl (db s0)) p)))"

definition changes_named :: "nat \<Rightarrow> ssdb \<Rightarrow> ssdb \<Rightarrow> bool" where
  "changes_named c s0 s \<longleftrightarrow> (\<exists>ls. length ls \<le> c \<and> named_by ls s0 s)"

lemma named_by_same:
  "db s = db s0 \<Longrightarrow> enabled s = enabled s0 \<Longrightarrow> last_seq s = last_seq s0 \<Longrightarrow> named_by [] s0 s"
  by (auto simp: named_by_def word_less_nat_alt)

lemma named_by_append:
  assumes "named_by ls s0 s1" "named_by ls' s1 s2"
  shows "named_by (ls @ ls') s0 s2"
proof -
  note one = assms(1) [unfolded named_by_def] and two = assms(2) [unfolded named_by_def]
  have "bookkeeping k \<or> (\<exists>e \<in> set (ls @ ls'). log_names e k)" if en: "enabled s0" and k: "data s2 k \<noteq> data s0 k" for k
  proof -
    have "data s1 k \<noteq> data s0 k \<Longrightarrow> bookkeeping k \<or> (\<exists>e \<in> set ls. log_names e k)"
      "data s2 k \<noteq> data s1 k \<Longrightarrow> bookkeeping k \<or> (\<exists>e \<in> set ls'. log_names e k)"
      using one two en by blast+
    then show ?thesis using k unfolding set_append by (metis UnCI)
  qed
  moreover have "log_map (tbl (db s2)) p =
      (if last_seq s0 < p \<and> unat p \<le> unat (last_seq s0) + length (ls @ ls')
       then Some (log_entry p ((ls @ ls') ! (unat p - unat (last_seq s0) - 1)))
       else log_map (tbl (db s0)) p)"
    if b: "unat (last_seq s0) + length (ls @ ls') < 2 ^ 64" for p
  proof -
    have l1: "unat (last_seq s1) = unat (last_seq s0) + length ls"
      using one b by (simp add: unat_word_ariths unat_of_nat)
    have m1: "log_map (tbl (db s1)) p =
        (if last_seq s0 < p \<and> unat p \<le> unat (last_seq s0) + length ls
         then Some (log_entry p (ls ! (unat p - unat (last_seq s0) - 1))) else log_map (tbl (db s0)) p)"
      using one b by simp
    have m2: "log_map (tbl (db s2)) p =
        (if last_seq s1 < p \<and> unat p \<le> unat (last_seq s1) + length ls'
         then Some (log_entry p (ls' ! (unat p - unat (last_seq s1) - 1))) else log_map (tbl (db s1)) p)"
      using two b l1 by simp
    show ?thesis unfolding m2 m1 word_less_nat_alt l1 by (auto simp: nth_append)
  qed
  ultimately show ?thesis using one two unfolding named_by_def by simp
qed

lemma changes_named_trans:
  assumes "changes_named c s0 s1" "changes_named c' s1 s2"
  shows "changes_named (c + c') s0 s2"
proof -
  obtain ls ls' where "length ls \<le> c" "named_by ls s0 s1" "length ls' \<le> c'" "named_by ls' s1 s2"
    using assms unfolding changes_named_def by blast
  then have "length (ls @ ls') \<le> c + c' \<and> named_by (ls @ ls') s0 s2" by (simp add: named_by_append)
  then show ?thesis using assms(1) unfolding changes_named_def by blast
qed

section \<open>A transaction that logs\<close>

text \<open>
  The open transaction: its log writes are those of \<open>ls\<close>, and every data write is bookkeeping,
  pending in \<open>P\<close>, or named. There are at most \<open>c\<close> log writes, and none when the log is off.
\<close>

definition journal :: "u8 \<Rightarrow> bytes set \<Rightarrow> nat \<Rightarrow> ssdb \<Rightarrow> ssdb \<Rightarrow> bool" where
  "journal lt P c s0 s \<longleftrightarrow>
     db s = db s0 \<and> enabled s = enabled s0 \<and> last_seq s = last_seq s0 \<and>
     (\<exists>ls. length ls \<le> c \<and> (\<not> enabled s0 \<longrightarrow> ls = []) \<and> filter (\<lambda>w. \<not> data_op w) (batch s) = log_writes lt (last_seq s0) ls \<and>
        tran_seq s = last_seq s0 + of_nat (length ls) \<and>
        (enabled s0 \<longrightarrow> (\<forall>w \<in> set (batch s). data_op w \<longrightarrow> bookkeeping (wop_key w) \<or> wop_key w \<in> P \<or>
           (\<exists>e \<in> set ls. log_names (lt, e) (wop_key w)))))"

lemma log_writes_append:
  "log_writes lt q (ls @ ls') = log_writes lt q ls @ log_writes lt (q + of_nat (length ls)) ls'"
  by (induction ls arbitrary: q) (auto simp: algebra_simps split: prod.splits)

lemma journal_begin: "journal lt P c s (bl_begin s)"
  by (simp add: journal_def bl_begin_def exI [of _ "[]"])

lemma journal_mono: "journal lt P c s0 s \<Longrightarrow> P \<subseteq> P' \<Longrightarrow> c \<le> c' \<Longrightarrow> journal lt P' c' s0 s"
  unfolding journal_def by (blast intro: le_trans)

lemma journal_op:
  assumes "journal lt P c s0 s" "data_op w" "bookkeeping (wop_key w) \<or> wop_key w \<in> P"
  shows "journal lt P c s0 (s\<lparr>batch := batch s @ [w]\<rparr>)"
  using assms unfolding journal_def by auto

lemma journal_write:
  assumes "journal lt P c s0 s" "\<not> is_log_key k" "bookkeeping k \<or> k \<in> P"
  shows "journal lt P c s0 (bl_Put k v s)" "journal lt P c s0 (bl_Delete k s)"
  using journal_op [OF assms(1), of "WPut k v"] journal_op [OF assms(1), of "WDel k"] assms(2,3)
  by (simp_all add: bl_Put_def bl_Delete_def data_op_def)

lemma journal_log:
  assumes "journal lt P c s0 s" "\<And>k. k \<in> P \<Longrightarrow> log_names (lt, cmd, x) k"
  shows "journal lt {} (Suc c) s0 (add_log lt cmd x s)"
proof -
  note j = assms(1) [unfolded journal_def]
  then obtain ls where ls: "length ls \<le> c" "\<not> enabled s0 \<longrightarrow> ls = []"
    "filter (\<lambda>w. \<not> data_op w) (batch s) = log_writes lt (last_seq s0) ls"
    "tran_seq s = last_seq s0 + of_nat (length ls)"
    "enabled s0 \<longrightarrow> (\<forall>w \<in> set (batch s). data_op w \<longrightarrow> bookkeeping (wop_key w) \<or> wop_key w \<in> P \<or>
       (\<exists>e \<in> set ls. log_names (lt, e) (wop_key w)))" by blast
  have "\<not> data_op (WPut (encode_seq_key q) v)" for q v by (simp add: data_op_def)
  then show ?thesis
    using j ls assms(2) unfolding journal_def
    by (intro conjI exI [of _ "if enabled s0 then ls @ [(cmd, x)] else ls"])
      (auto simp: add_log_def Let_def log_writes_append algebra_simps)
qed

lemma journal_commit:
  assumes "journal lt {} c s0 s"
  shows "changes_named c s0 (snd (commit_ret r s))"
proof -
  note j = assms [unfolded journal_def]
  then obtain ls where n: "length ls \<le> c" "\<not> enabled s0 \<longrightarrow> ls = []" and ls: "filter (\<lambda>w. \<not> data_op w) (batch s) = log_writes lt (last_seq s0) ls"
    "tran_seq s = last_seq s0 + of_nat (length ls)"
    "enabled s0 \<longrightarrow> (\<forall>w \<in> set (batch s). data_op w \<longrightarrow> bookkeeping (wop_key w) \<or> (\<exists>e \<in> set ls. log_names (lt, e) (wop_key w)))"
    by auto
  let ?s' = "snd (commit_ret r s)"
  show ?thesis
  proof (cases "write_ok (db s)")
    case False
    then have "named_by [] s0 ?s'"
      using j by (auto simp: named_by_def commit_ret_def bl_commit_def split_beta Let_def ldb_write_eq word_less_nat_alt)
    then show ?thesis unfolding changes_named_def by (intro exI [of _ "[]"]) simp
  next
    case True
    then have e: "tbl (db ?s') = tbatch (batch s) (tbl (db s0))" "enabled ?s' = enabled s" "last_seq ?s' = tran_seq s"
      using j by (simp_all add: commit_ret_def bl_commit_def split_beta Let_def ldb_write_eq)
    have "bookkeeping k \<or> (\<exists>e \<in> set (map (Pair lt) ls). log_names e k)" if en: "enabled s0" and k: "data ?s' k \<noteq> data s0 k" for k
    proof -
      from k obtain w where "w \<in> set (batch s)" "wop_key w = k" "\<not> is_log_key k"
        using map_of_tbatch_untouched [of k "batch s"] by (fastforce simp: e data_map_def split: if_splits)
      then show ?thesis using ls(3) en by (auto simp: data_op_def)
    qed
    moreover have "log_map (tbl (db ?s')) p =
        (if last_seq s0 < p \<and> unat p \<le> unat (last_seq s0) + length (map (Pair lt) ls)
         then Some (log_entry p (map (Pair lt) ls ! (unat p - unat (last_seq s0) - 1)))
         else log_map (tbl (db s0)) p)" if "unat (last_seq s0) + length (map (Pair lt) ls) < 2 ^ 64" for p
    proof -
      have "log_map (tbl (db ?s')) p = fold mstep (log_writes lt (last_seq s0) ls) (map_of (tbl (db s0))) (encode_seq_key p)"
        using filter_split_map_of [of "\<lambda>k. \<not> is_log_key k" "encode_seq_key p" "batch s" "map_of (tbl (db s0))"] ls(1)
        by (simp add: log_map_def e map_of_tbatch data_op_def)
      then show ?thesis
        using that by (auto simp: log_writes_map log_entry_def log_map_def word_less_nat_alt split: prod.split)
    qed
    ultimately have "named_by (map (Pair lt) ls) s0 ?s'"
      using j n(2) ls(2) e unfolding named_by_def by simp
    then show ?thesis
      using n(1) unfolding changes_named_def by (intro exI [of _ "map (Pair lt) ls"]) simp
  qed
qed

abbreviation logs :: "u8 \<Rightarrow> nat \<Rightarrow> ssdb \<Rightarrow> bool \<Rightarrow> 'r \<times> ssdb \<Rightarrow> bool" where
  "logs lt c s0 \<equiv> ends (journal lt {} c s0) (changes_named c s0)"

interpretation logging: transaction_walk "journal lt {} c s0" "changes_named c s0" for lt c s0
proof
  fix s r
  show "journal lt {} c s0 s \<Longrightarrow> changes_named c s0 s"
    unfolding changes_named_def journal_def
    by (intro exI [of _ "[]"]) (auto intro: named_by_same)
  show "journal lt {} c s0 s \<Longrightarrow> changes_named c s0 (snd (commit_ret r s))" by (rule journal_commit)
  show "changes_named c s0 s \<Longrightarrow> changes_named c s0 (bl_rollback s)"
    unfolding changes_named_def named_by_def bl_rollback_frame by assumption
qed

lemma changes_named_refl: "changes_named c s s"
  unfolding changes_named_def by (intro exI [of _ "[]"]) (auto intro: named_by_same)

text \<open>
  A transaction starts with nothing logged; a command logs at most once on each path, which takes
  it from \<open>c = 0\<close> to \<open>c = 1\<close>.
\<close>

lemma logs_same: "logs lt c s False (a, s)"
  by (simp add: ends_def changes_named_refl)

lemma logs_transaction:
  "(\<And>s'. journal lt {} 0 s s' \<Longrightarrow> logs lt c s False (body s')) \<Longrightarrow>
     logs lt c s False (transaction body s)"
  using journal_begin [of lt "{}" 0 s] logging.rollback
  by (simp add: ends_def transaction_def split_beta Let_def)

lemma journal_less: "journal lt {} 0 s0 s \<Longrightarrow> journal lt {} c s0 s"
  by (erule journal_mono) simp_all

lemma journal_steps:
  "\<not> is_log_key k \<Longrightarrow> journal lt {} c s0 s \<Longrightarrow> journal lt {} (Suc c) s0 (add_log lt cmd k (bl_Put k v s))"
  "\<not> is_log_key k \<Longrightarrow> journal lt {} c s0 s \<Longrightarrow> journal lt {} (Suc c) s0 (add_log lt cmd k (bl_Delete k s))"
  "\<not> is_log_key k \<Longrightarrow> bookkeeping k \<Longrightarrow> journal lt {} c s0 s \<Longrightarrow> journal lt {} c s0 (bl_Put k v s)"
  "\<not> is_log_key k \<Longrightarrow> bookkeeping k \<Longrightarrow> journal lt {} c s0 s \<Longrightarrow> journal lt {} c s0 (bl_Delete k s)"
  "journal lt {} c s0 s \<Longrightarrow> journal lt {} c s0 s' \<Longrightarrow> journal lt {} c s0 (if b then s else s')"
proof -
  assume k: "\<not> is_log_key k" and j: "journal lt {} c s0 s"
  have p: "journal lt {k} c s0 s" by (rule journal_mono [OF j]) simp_all
  have n: "log_names (lt, cmd, k) k'" if "k' \<in> {k}" for k' using that by (simp add: log_names_def)
  show "journal lt {} (Suc c) s0 (add_log lt cmd k (bl_Put k v s))"
    "journal lt {} (Suc c) s0 (add_log lt cmd k (bl_Delete k s))"
    by (rule journal_log [OF journal_write(1) [OF p k] n] journal_log [OF journal_write(2) [OF p k] n]; simp)+
qed (auto intro: journal_write)

lemmas logs_rules = logs_same logs_transaction logging.ends_rules journal_steps key_not_log bookkeeping_keys

section \<open>The operations\<close>

lemma kv_logs:
  "logs lt (Suc 0) s False (kv_set k v lt s)"
  "logs lt (Suc 0) s False (kv_setnx k v lt s)"
  "logs lt (Suc 0) s False (kv_getset k v lt s)"
  "logs lt (Suc 0) s False (kv_del k lt s)"
  "logs lt (Suc 0) s False (kv_incr k i lt s)"
  "logs lt (Suc 0) s False (kv_setbit k j on lt s)"
  unfolding kv_set_def kv_setnx_def kv_getset_def kv_del_def kv_incr_def kv_setbit_def Let_def
  by (intro logs_rules; (assumption | rule journal_less, assumption))+

lemma hash_journal:
  "journal lt {} 0 s0 s \<Longrightarrow> logs lt (Suc 0) s0 True (hset_one n k v lt s)"
  "journal lt {} 0 s0 s \<Longrightarrow> logs lt (Suc 0) s0 True (hdel_one n k lt s)"
  "journal lt {} c s0 s \<Longrightarrow> logs lt c s0 True (incr_hsize n i s)"
  unfolding hset_one_def hdel_one_def incr_hsize_def Let_def
  by (intro logs_rules; (assumption | rule journal_less, assumption))+

lemma hash_logs:
  "logs lt (Suc 0) s False (hset n k v lt s)"
  "logs lt (Suc 0) s False (hdel n k lt s)"
  "logs lt (Suc 0) s False (hincr n k i lt s)"
  unfolding hset_def hdel_def hincr_def
  by (intro logs_rules hash_journal; (assumption | rule journal_less, assumption))+

lemma zset_journal:
  "journal lt {} 0 s0 s \<Longrightarrow> logs lt (Suc 0) s0 True (zset_one n k v lt s)"
  "journal lt {} 0 s0 s \<Longrightarrow> logs lt (Suc 0) s0 True (zdel_one n k lt s)"
  "journal lt {} c s0 s \<Longrightarrow> logs lt c s0 True (incr_zsize n i s)"
  unfolding zset_one_def zdel_one_def incr_zsize_def Let_def
  by (intro logs_rules; (assumption | rule journal_less, assumption))+

lemma zset_logs:
  "logs lt (Suc 0) s False (zset n k v lt s)"
  "logs lt (Suc 0) s False (zdel n k lt s)"
  "logs lt (Suc 0) s False (zincr n k i lt s)"
  unfolding zset_def zdel_def zincr_def
  by (intro logs_rules zset_journal; (assumption | rule journal_less, assumption))+

text \<open>
  In a queue the record of an item is pending until it is logged; a pop logs the name of the queue.
\<close>

lemma journal_pending:
  "journal lt {k} c s0 s \<Longrightarrow> journal lt {} (Suc c) s0 (add_log lt cmd k s)"
  "journal lt {encode_qitem_key n q} c s0 s \<Longrightarrow> journal lt {} (Suc c) s0 (add_log lt BC_QPOP_FRONT n s)"
  "journal lt {encode_qitem_key n q} c s0 s \<Longrightarrow> journal lt {} (Suc c) s0 (add_log lt BC_QPOP_BACK n s)"
  by (rule journal_log, assumption, auto simp: log_names_def)+

lemma logs_pending:
  assumes "journal lt {} 0 s0 s"
    and "\<And>r s'. journal lt {encode_qitem_key n q} 0 s0 s' \<Longrightarrow> logs lt c s0 False (f r s')"
  shows "logs lt c s0 False (case qset_one n q x s of (r, s') \<Rightarrow> if r = -1 then (a, s') else f r s')"
    and "logs lt c s0 False (case qdel_one n q s of (r, s') \<Rightarrow> if r = -1 then (a, s') else f r s')"
proof -
  have "journal lt {encode_qitem_key n q} 0 s0 s" by (rule journal_mono [OF assms(1)]) simp_all
  note j = journal_write [OF this, of "encode_qitem_key n q"]
  have "logs lt c s0 False (a, s)" by (rule logging.ends_return [OF journal_less [OF assms(1)]])
  then show "logs lt c s0 False (case qset_one n q x s of (r, s') \<Rightarrow> if r = -1 then (a, s') else f r s')"
    using assms(2) [OF j(1)] by (simp add: qset_one_def)
  show "logs lt c s0 False (case qdel_one n q s of (r, s') \<Rightarrow> if r = -1 then (a, s') else f r s')"
    using assms(2) [OF j(2)] by (simp add: qdel_one_def)
qed

text \<open>The choice of the number of a pushed item writes pointers only.\<close>

lemma logs_pointers:
  "journal lt {} 0 s0 (snd (snd x)) \<Longrightarrow>
     (\<And>a q s. journal lt {} 0 s0 s \<Longrightarrow> logs lt c s0 False (f a (q :: u64) s)) \<Longrightarrow>
     logs lt c s0 False (case x of (a, q, s) \<Rightarrow> f a q s)"
  by (simp add: split_beta)

lemma queue_pointers:
  "journal lt {} c s0 s \<Longrightarrow> logs lt c s0 True (qset_one n QFRONT_SEQ x s)"
  "journal lt {} c s0 s \<Longrightarrow> logs lt c s0 True (qset_one n QBACK_SEQ x s)"
  "journal lt {} c s0 s \<Longrightarrow> logs lt c s0 True (qdel_one n QFRONT_SEQ s)"
  "journal lt {} c s0 s \<Longrightarrow> logs lt c s0 True (qdel_one n QBACK_SEQ s)"
  unfolding qset_one_def qdel_one_def by (intro logs_rules; assumption)+

lemma queue_pointer:
  "q = QFRONT_SEQ \<or> q = QBACK_SEQ \<Longrightarrow> journal lt {} c s0 s \<Longrightarrow> logs lt c s0 True (qset_one n q x s)"
  using queue_pointers(1,2) by blast

lemma incr_qsize_journal: "journal lt {} c s0 s \<Longrightarrow> logs lt c s0 True (incr_qsize n i s)"
  unfolding incr_qsize_def Let_def by (intro queue_pointers logs_rules; assumption)

lemma queue_logs:
  "q = QFRONT_SEQ \<or> q = QBACK_SEQ \<Longrightarrow> logs lt (Suc 0) s False (qpush_end n x q lt s)"
  "q = QFRONT_SEQ \<or> q = QBACK_SEQ \<Longrightarrow> logs lt (Suc 0) s False (qpop_end n q lt s)"
  "logs lt (Suc 0) s False (qset n i x lt s)"
  "logs lt (Suc 0) s False (qset_by_seq n sq x lt s)"
  unfolding qpush_end_def qpop_end_def qset_def qset_by_seq_def Let_def
  by (intro logs_pointers logs_pending journal_pending queue_pointers queue_pointer incr_qsize_journal logs_rules;
      (assumption | rule journal_less, assumption))+

text \<open>The operations on many records. The repair of a queue changes bookkeeping only.\<close>

lemma multi_journal:
  "journal lt {} c s0 s \<Longrightarrow> journal lt {} (c + length ks) s0 (snd (multi_set_loop lt ks s))"
  "journal lt {} c s0 s \<Longrightarrow> journal lt {} (c + length ks) s0 (multi_del_loop lt ks s)"
proof -
  show "journal lt {} c s0 s \<Longrightarrow> journal lt {} (c + length ks) s0 (snd (multi_set_loop lt ks s))"
  proof (induction lt ks s arbitrary: c rule: multi_set_loop.induct)
    case (2 lt key rest s)
    have stay: "journal lt {} (c + length (key # rest)) s0 s"
      by (rule journal_mono [OF "2.prems"]) simp_all
    show ?case
    proof (cases rest)
      case (Cons v rest')
      let ?s = "add_log lt BC_KSET (encode_kv_key key) (bl_Put (encode_kv_key key) v s)"
      have j: "journal lt {} (Suc c) s0 ?s" by (rule journal_steps(1) [OF key_not_log(1) "2.prems"])
      show ?thesis
      proof (cases "key = [] \<or> length key > SSDB_KEY_LEN_MAX")
        case False
        then have "journal lt {} (Suc c + length rest') s0 (snd (multi_set_loop lt rest' ?s))"
          using "2.IH" [OF _ _ Cons HOL.refl j] by blast
        then have "journal lt {} (c + length (key # rest)) s0 (snd (multi_set_loop lt rest' ?s))"
          by (rule journal_mono) (simp_all add: Cons)
        with False show ?thesis unfolding Cons multi_set_loop.simps list.case Let_def by simp
      qed (use stay in auto)
    qed (use stay in simp)
  qed simp
  show "journal lt {} c s0 s \<Longrightarrow> journal lt {} (c + length ks) s0 (multi_del_loop lt ks s)"
  proof (induction lt ks s arbitrary: c rule: multi_del_loop.induct)
    case (2 lt key rest s)
    from "2.IH" [OF HOL.refl journal_steps(2) [OF key_not_log(1) "2.prems"]] show ?case
      by (simp add: Let_def)
  qed simp
qed

lemma bulk_logs:
  "logs lt (length ks) s False (kv_multi_set ks ofs lt s)"
  "logs lt (length ks) s False (kv_multi_del ks ofs lt s)"
  "logs lt 0 s False (qfix n s)"
proof -
  have less: "journal lt {} (length ks) s s''" if "journal lt {} (0 + length (drop ofs ks)) s s''" for s''
    by (rule journal_mono [OF that]) simp_all
  show "logs lt (length ks) s False (kv_multi_set ks ofs lt s)"
    unfolding kv_multi_set_def
  proof (intro logs_transaction ends_if)
    fix s' assume j: "journal lt {} 0 s s'"
    then show "logs lt (length ks) s False (None, s')" by (rule logging.ends_return [OF journal_less])
    obtain m s1 where m: "multi_set_loop lt (drop ofs ks) s' = (m, s1)" by fastforce
    then have "journal lt {} (length ks) s s1" using less multi_journal(1) [OF j, of "drop ofs ks"] by simp
    then show "logs lt (length ks) s False (case multi_set_loop lt (drop ofs ks) s' of
        (MDone, s) \<Rightarrow> let (r, s) = commit_ret (int ((length ks - ofs) div 2)) s in (Some r, s)
      | (MReturn r, s) \<Rightarrow> (Some r, s) | (MUndefined, s) \<Rightarrow> (None, s))"
      unfolding m by (cases m) (auto intro: logging.ends_return logging.ends_commit_then)
  qed
  show "logs lt (length ks) s False (kv_multi_del ks ofs lt s)"
    unfolding kv_multi_del_def Let_def
  proof (intro logs_transaction ends_if logging.ends_commit_then)
    fix s' assume j: "journal lt {} 0 s s'"
    then show "logs lt (length ks) s False (None, s')" by (rule logging.ends_return [OF journal_less])
    show "journal lt {} (length ks) s (multi_del_loop lt (drop ofs ks) s')"
      by (rule less [OF multi_journal(2) [OF j]])
  qed
  show "logs lt 0 s False (qfix n s)"
    unfolding qfix_def
    by (rule logs_transaction, simp only: Let_def split: option.split prod.split)
      (intro conjI allI impI queue_pointers logs_rules; assumption)
qed

section \<open>Every change is named\<close>

text \<open>
  The number of records an operation may add. \<open>zfix\<close> logs nothing, though it writes records of
  members; \<open>hclear\<close> is a chain of \<open>hdel\<close> of unknown length.
\<close>

fun max_logs :: "operation \<Rightarrow> nat option" where
  "max_logs (MultiSet ks ofs) = Some (length ks)" | "max_logs (MultiDel ks ofs) = Some (length ks)"
| "max_logs (QFix n) = Some 0" | "max_logs (ZFix n) = None" | "max_logs (HClear n) = None"
| "max_logs p = Some 1"

lemma exec_named: "changes_named (Suc 0) s (snd (exec lt c s))"
proof (cases c)
  case (Kv k)
  then show ?thesis
    using kv_logs changes_named_refl
    by (cases k) (simp_all add: ends_def split_beta Let_def)
next
  case (Hash h)
  then show ?thesis
    using hash_logs changes_named_refl
    by (cases h) (simp_all add: ends_def split_beta Let_def)
next
  case (Zset z)
  then show ?thesis
    using zset_logs changes_named_refl
    by (cases z) (simp_all add: ends_def split_beta Let_def)
next
  case (Queue q)
  then show ?thesis
    using queue_logs changes_named_refl
    by (cases q) (simp_all add: ends_def split_beta Let_def
        qpush_front_def qpush_back_def qpop_front_def qpop_back_def)
qed

lemma operate_named:
  assumes "operate lt p s = Some s'" "max_logs p = Some c"
  shows "changes_named c s s'"
  using assms
  by (cases p)
    (use exec_named in \<open>auto intro: bulk_logs [unfolded ends_def if_False]
       kv_logs(6) [unfolded ends_def if_False]
       queue_logs(4) [unfolded ends_def if_False]\<close>)

text \<open>A session, which ends at an operation that does not return.\<close>

fun operate_all :: "u8 \<Rightarrow> operation list \<Rightarrow> ssdb \<Rightarrow> ssdb option" where
  "operate_all lt [] s = Some s"
| "operate_all lt (p # ps) s = (case operate lt p s of None \<Rightarrow> None | Some s' \<Rightarrow> operate_all lt ps s')"

lemma operate_all_named:
  "operate_all lt ps s = Some s' \<Longrightarrow> map max_logs ps = map Some cs \<Longrightarrow>
     changes_named (sum_list cs) s s'"
proof (induction ps arbitrary: s cs)
  case (Cons p ps)
  then obtain s1 where s1: "operate lt p s = Some s1" "operate_all lt ps s1 = Some s'"
    by (auto split: option.splits)
  obtain c cs' where cs: "cs = c # cs'" "max_logs p = Some c" "map max_logs ps = map Some cs'"
    using Cons.prems(2) by (cases cs) auto
  have one: "changes_named c s s1" by (rule operate_named [OF s1(1) cs(2)])
  from changes_named_trans [OF one Cons.IH [OF s1(2) cs(3)]] show ?case by (simp add: cs(1))
qed (simp add: changes_named_refl)


lemma kv_not_bookkeeping: "\<not> bookkeeping (encode_kv_key k)"
  by (auto simp: bookkeeping_def typed_def key_heads dest: arg_cong [of _ _ hd])


end
