(* ===== verification/Typed_Records.thy ===== *)
theory Typed_Records
  imports Change_Log
begin

text \<open>
  The database is one space of byte strings, but not an untyped one: what \<open>const.h\<close> and the four
  headers \<open>t_kv.h\<close> to \<open>t_queue.h\<close> lay down is a type of records, told apart by the first byte of
  the key. Every operation keeps the table typed, on every path and whatever fails, and a typed
  record is one that the decoders of its type read back.
\<close>

section \<open>The type of records\<close>

inductive record_typed :: "bytes \<Rightarrow> bytes \<Rightarrow> bool" where
  Value: "length k \<le> 255 \<Longrightarrow> record_typed (encode_kv_key k) v"
| Member: "member_ok n k \<Longrightarrow> record_typed (encode_hash_key n k) v"
| Members: "length n \<le> 255 \<Longrightarrow> length v = 8 \<Longrightarrow> record_typed (encode_hsize_key n) v"
| Score: "member_ok n k \<Longrightarrow> record_typed (encode_zset_key n k) (str_i64 x)"
| Place: "member_ok n k \<Longrightarrow> record_typed (encode_zscore_key n k (str_i64 x)) []"
| Scores: "length n \<le> 255 \<Longrightarrow> length v = 8 \<Longrightarrow> record_typed (encode_zsize_key n) v"
| Item: "length n \<le> 255 \<Longrightarrow> record_typed (encode_qitem_key n q) v"
| Items: "length n \<le> 255 \<Longrightarrow> length v = 8 \<Longrightarrow> record_typed (encode_qsize_key n) v"
| Entry: "record_typed (encode_seq_key q) (binlog_new q t c x)"

inductive_cases record_typedE: "record_typed k v"

definition table_typed :: "table \<Rightarrow> bool" where
  "table_typed t \<longleftrightarrow> sorted_keys t \<and> (\<forall>(k, v) \<in> set t. record_typed k v)"

lemma table_typed_empty [simp]: "table_typed []"
  by (simp add: table_typed_def)

lemma table_typedD:
  assumes "table_typed t"
  shows "(k, v) \<in> set t \<Longrightarrow> record_typed k v" "map_of t k = Some v \<Longrightarrow> record_typed k v"
  using assms by (auto simp: table_typed_def dest: map_of_SomeD)

text \<open>A batch whose puts are typed keeps the table typed.\<close>

lemma table_typed_step:
  "table_typed t \<Longrightarrow> (\<And>k v. w = WPut k v \<Longrightarrow> record_typed k v) \<Longrightarrow> table_typed (tstep w t)"
  unfolding table_typed_def
  by (rule conjI, simp add: sorted_tstep, cases w) (auto simp: tput_def tdel_def)

lemma table_typed_batch:
  "table_typed t \<Longrightarrow> (\<And>k v. WPut k v \<in> set ws \<Longrightarrow> record_typed k v) \<Longrightarrow> table_typed (tbatch ws t)"
  unfolding tbatch_def
proof (induction ws arbitrary: t)
  case (Cons w ws)
  have "table_typed (tstep w t)" by (rule table_typed_step) (use Cons.prems in auto)
  with Cons show ?case by simp
qed simp

lemma table_typed_write:
  assumes "table_typed (tbl d)" "\<And>k v. WPut k v \<in> set ws \<Longrightarrow> record_typed k v"
  shows "table_typed (tbl (snd (ldb_write ws d)))"
  using table_typed_batch [of "tbl d" ws] assms by (simp add: ldb_write_eq)

section \<open>Typed transactions\<close>

definition typing :: "ldb \<Rightarrow> ssdb \<Rightarrow> bool" where
  "typing d s \<longleftrightarrow> db s = d \<and> table_typed (tbl d) \<and> (\<forall>k v. WPut k v \<in> set (batch s) \<longrightarrow> record_typed k v)"

abbreviation keeps_types :: "ldb \<Rightarrow> bool \<Rightarrow> 'r \<times> ssdb \<Rightarrow> bool" where
  "keeps_types d \<equiv> ends (typing d) (\<lambda>s. table_typed (tbl (db s)))"

interpretation types: transaction_walk "typing d" "\<lambda>s. table_typed (tbl (db s))" for d
proof
  fix s r
  show "typing d s \<Longrightarrow> table_typed (tbl (db s))" by (simp add: typing_def)
  show "typing d s \<Longrightarrow> table_typed (tbl (db (snd (commit_ret r s))))"
    using table_typed_write [of d "batch s"]
    by (auto simp: typing_def commit_ret_def bl_commit_def split_beta Let_def)
  show "table_typed (tbl (db s)) \<Longrightarrow> table_typed (tbl (db (bl_rollback s)))" by simp
qed

lemma keeps_same: "table_typed (tbl (db s)) \<Longrightarrow> keeps_types d False (a, s)"
  by (simp add: ends_def)

lemma keeps_transaction:
  "table_typed (tbl (db s)) \<Longrightarrow> (\<And>s'. typing (db s) s' \<Longrightarrow> keeps_types (db s) False (body s')) \<Longrightarrow>
     keeps_types (db s) False (transaction body s)"
  by (rule types.ends_transaction) (auto simp: typing_def bl_begin_def)

lemma typing_steps:
  "typing d s \<Longrightarrow> record_typed k v \<Longrightarrow> typing d (bl_Put k v s)"
  "typing d s \<Longrightarrow> typing d (bl_Delete k s)"
  "typing d s \<Longrightarrow> typing d (add_log lt c k s)"
  "typing d s \<Longrightarrow> typing d s' \<Longrightarrow> typing d (if b then s else s')"
  by (auto simp: typing_def bl_Put_def bl_Delete_def add_log_def Let_def record_typed.Entry)

text \<open>The counters and the scores are encoded numbers.\<close>

lemma typed_numbers:
  "length n \<le> 255 \<Longrightarrow> record_typed (encode_hsize_key n) (mem64 c)"
  "length n \<le> 255 \<Longrightarrow> record_typed (encode_zsize_key n) (mem64 c)"
  "length n \<le> 255 \<Longrightarrow> record_typed (encode_qsize_key n) (mem64 c)"
  "member_ok n k \<Longrightarrow> record_typed (encode_zset_key n k) (filter_score y)"
  "member_ok n k \<Longrightarrow> record_typed (encode_zscore_key n k (filter_score y)) []"
  by (simp_all add: record_typed.intros filter_score_def)

lemmas typing_rules =
  keeps_same keeps_transaction types.ends_rules typing_steps typed_numbers
  record_typed.Value record_typed.Member record_typed.Item

section \<open>The commands\<close>

text \<open>
  A name that is too long is refused before anything is written; the counters are then reached only
  with a name that is not.
\<close>

lemma kv_types:
  "length k \<le> 255 \<Longrightarrow> table_typed (tbl (db s)) \<Longrightarrow> keeps_types (db s) False (kv_set k v lt s)"
  "length k \<le> 255 \<Longrightarrow> table_typed (tbl (db s)) \<Longrightarrow> keeps_types (db s) False (kv_setnx k v lt s)"
  "length k \<le> 255 \<Longrightarrow> table_typed (tbl (db s)) \<Longrightarrow> keeps_types (db s) False (kv_getset k v lt s)"
  "length k \<le> 255 \<Longrightarrow> table_typed (tbl (db s)) \<Longrightarrow> keeps_types (db s) False (kv_del k lt s)"
  "length k \<le> 255 \<Longrightarrow> table_typed (tbl (db s)) \<Longrightarrow> keeps_types (db s) False (kv_incr k i lt s)"
  "length k \<le> 255 \<Longrightarrow> table_typed (tbl (db s)) \<Longrightarrow> keeps_types (db s) False (kv_setbit k j on lt s)"
  unfolding kv_set_def kv_setnx_def kv_getset_def kv_del_def kv_incr_def kv_setbit_def
  by (intro typing_rules; assumption)+

lemma kv_refused:
  assumes "\<not> length k \<le> 255"
  shows "snd (kv_set k v lt s) = s" "snd (kv_setnx k v lt s) = s" "snd (kv_getset k v lt s) = s"
    "snd (kv_del k lt s) = s" "snd (kv_incr k i lt s) = s" "snd (kv_setbit k j on lt s) = s"
  using assms
  by (auto simp: kv_set_def kv_setnx_def kv_getset_def kv_del_def kv_incr_def kv_setbit_def)

lemma hash_typing:
  "member_ok n k \<Longrightarrow> typing d s \<Longrightarrow> keeps_types d True (hset_one n k v lt s)"
  "typing d s \<Longrightarrow> keeps_types d True (hdel_one n k lt s)"
  "length n \<le> 255 \<Longrightarrow> typing d s \<Longrightarrow> keeps_types d True (incr_hsize n i s)"
  unfolding hset_one_def hdel_one_def incr_hsize_def
  by (intro typing_rules; assumption)+

lemma hash_refused:
  "\<not> member_ok n k \<Longrightarrow> hset_one n k v lt s = (-1, s)"
  "\<not> length n \<le> 255 \<Longrightarrow> hdel_one n k lt s = (-1, s)"
  by (auto simp: hset_one_def hdel_one_def member_ok_def)

lemma member_name: "member_ok n k \<Longrightarrow> length n \<le> 255"
  by (simp add: member_ok_def)

lemma hash_types:
  "member_ok n k \<Longrightarrow> table_typed (tbl (db s)) \<Longrightarrow> keeps_types (db s) False (hset n k v lt s)"
  "length n \<le> 255 \<Longrightarrow> table_typed (tbl (db s)) \<Longrightarrow> keeps_types (db s) False (hdel n k lt s)"
  "member_ok n k \<Longrightarrow> table_typed (tbl (db s)) \<Longrightarrow> keeps_types (db s) False (hincr n k i lt s)"
  unfolding hset_def hdel_def hincr_def
  by (intro typing_rules hash_typing; (assumption | rule member_name, assumption))+

lemma hash_kept:
  assumes "table_typed (tbl (db s))"
  shows "table_typed (tbl (db (snd (hset n k v lt s))))" "table_typed (tbl (db (snd (hdel n k lt s))))"
    "table_typed (tbl (db (snd (hincr n k i lt s))))"
proof -
  note d = hset_def hdel_def hincr_def transaction_def
  show "table_typed (tbl (db (snd (hset n k v lt s))))" "table_typed (tbl (db (snd (hincr n k i lt s))))"
    using hash_types(1,3) [OF _ assms, of n k] assms
    by (cases "member_ok n k"; simp add: ends_def d hash_refused split_beta Let_def)+
  show "table_typed (tbl (db (snd (hdel n k lt s))))"
    using hash_types(2) [OF _ assms, of n k] assms
    by (cases "length n \<le> 255"; simp add: ends_def d hash_refused split_beta Let_def)
qed

lemma zset_typing:
  "member_ok n k \<Longrightarrow> typing d s \<Longrightarrow> keeps_types d True (zset_one n k v lt s)"
  "typing d s \<Longrightarrow> keeps_types d True (zdel_one n k lt s)"
  "length n \<le> 255 \<Longrightarrow> typing d s \<Longrightarrow> keeps_types d True (incr_zsize n i s)"
  unfolding zset_one_def zdel_one_def incr_zsize_def
  by (intro typing_rules; assumption)+

lemma zset_refused:
  "\<not> member_ok n k \<Longrightarrow> zset_one n k v lt s = (if n = [] \<or> k = [] then 0 else -1, s)"
  "\<not> length n \<le> 255 \<Longrightarrow> zdel_one n k lt s = (-1, s)"
  by (auto simp: zset_one_def zdel_one_def member_ok_def)

lemma zset_types:
  "member_ok n k \<Longrightarrow> table_typed (tbl (db s)) \<Longrightarrow> keeps_types (db s) False (zset n k v lt s)"
  "length n \<le> 255 \<Longrightarrow> table_typed (tbl (db s)) \<Longrightarrow> keeps_types (db s) False (zdel n k lt s)"
  "member_ok n k \<Longrightarrow> table_typed (tbl (db s)) \<Longrightarrow> keeps_types (db s) False (zincr n k i lt s)"
  unfolding zset_def zdel_def zincr_def
  by (intro typing_rules zset_typing; (assumption | rule member_name, assumption))+

lemma commit_nothing:
  "table_typed (tbl (db s)) \<Longrightarrow> table_typed (tbl (db (snd (commit_ret r (bl_begin s)))))"
  by (rule types.commit) (simp add: typing_def bl_begin_def)

lemma zset_kept:
  assumes "table_typed (tbl (db s))"
  shows "table_typed (tbl (db (snd (zset n k v lt s))))" "table_typed (tbl (db (snd (zdel n k lt s))))"
    "table_typed (tbl (db (snd (zincr n k i lt s))))"
proof -
  note d = zset_def zdel_def zincr_def transaction_def
  show "table_typed (tbl (db (snd (zset n k v lt s))))" "table_typed (tbl (db (snd (zincr n k i lt s))))"
    using zset_types(1,3) [OF _ assms, of n k] assms commit_nothing [OF assms]
    by (cases "member_ok n k"; simp add: ends_def d zset_refused split_beta Let_def)+
  show "table_typed (tbl (db (snd (zdel n k lt s))))"
    using zset_types(2) [OF _ assms, of n k] assms
    by (cases "length n \<le> 255"; simp add: ends_def d zset_refused split_beta Let_def)
qed

section \<open>The queues\<close>

lemma queue_typing:
  "typing d s \<Longrightarrow> keeps_types d True (qset_one n q x s)"
  "typing d s \<Longrightarrow> keeps_types d True (qdel_one n q s)"
proof -
  assume s: "typing d s"
  show "keeps_types d True (qdel_one n q s)"
    unfolding qdel_one_def by (intro typing_rules s)
  show "keeps_types d True (qset_one n q x s)"
  proof (cases "length n \<le> 255")
    case True
    then show ?thesis unfolding qset_one_def by (intro typing_rules s)
  qed (simp add: qset_one_def types.ends_return s)
qed

lemma incr_qsize_typing:
  "length n \<le> 255 \<Longrightarrow> typing d s \<Longrightarrow> keeps_types d True (incr_qsize n i s)"
  unfolding incr_qsize_def by (intro typing_rules queue_typing; assumption)

lemma queue_types:
  "length n \<le> 255 \<Longrightarrow> table_typed (tbl (db s)) \<Longrightarrow> keeps_types (db s) False (qpush_end n x q lt s)"
  "length n \<le> 255 \<Longrightarrow> table_typed (tbl (db s)) \<Longrightarrow> keeps_types (db s) False (qpop_end n q lt s)"
  "table_typed (tbl (db s)) \<Longrightarrow> keeps_types (db s) False (qset n j x lt s)"
  "table_typed (tbl (db s)) \<Longrightarrow> keeps_types (db s) False (qset_by_seq n p x lt s)"
  unfolding qpush_end_def qpop_end_def qset_def qset_by_seq_def
  by (intro typing_rules queue_typing incr_qsize_typing; assumption)+

text \<open>
  A name that is too long has a length byte that is not its length; no record of a typed table
  belongs to it.
\<close>

lemma no_long_item:
  assumes "table_typed t" "(k, v) \<in> set t" "prefix (name_prefix DT_QUEUE n) k"
  shows "length n \<le> 255"
  using table_typedD(1) [OF assms(1,2)]
proof cases
  case (Item n' q)
  have l: "(of_nat (length n) :: u8) = of_nat (length n')" and le: "length n \<le> length n' + 8"
    using assms(3) prefix_length_le [OF assms(3)]
    by (auto simp: Item encode_qitem_key_def name_prefix_def)
  have m: "length n mod 256 = length n'"
    using arg_cong [OF l, of unat] Item(2) by (simp add: unat_of_nat)
  have "length n div 256 * 256 \<le> 8" using le div_mult_mod_eq [of "length n" 256] unfolding m by linarith
  then have "length n div 256 = 0" by (cases "length n div 256") simp_all
  then show ?thesis using m Item(2) by (simp add: div_eq_0_iff)
qed (use assms(3) in \<open>auto simp: name_prefix_def key_simps\<close>)

lemma long_queue_unknown:
  assumes "table_typed (tbl d)" "\<not> length n \<le> 255"
  shows "qget_uint64 d n q \<in> {(0, 0), (-1, 0)}"
proof -
  have "map_of (tbl d) (encode_qitem_key n q) = None"
    using no_long_item [OF assms(1)] assms(2)
    by (metis encode_qitem_prefix map_of_SomeD not_None_eq prefixI)
  then show ?thesis by (simp add: qget_uint64_def qget_by_seq_def ldb_get_def)
qed

lemma queue_kept:
  assumes t: "table_typed (tbl (db s))"
  shows "table_typed (tbl (db (snd (qpush_end n x q lt s))))" "table_typed (tbl (db (snd (qpop_end n q lt s))))"
proof -
  show "table_typed (tbl (db (snd (qpush_end n x q lt s))))"
  proof (cases "length n \<le> 255")
    case False
    then have "qset_one n p y s' = (-1, s')" for p y s' by (simp add: qset_one_def)
    then show ?thesis using t by (simp add: qpush_end_def transaction_def split_beta Let_def)
  qed (use queue_types(1) [OF _ t] in \<open>simp add: ends_def\<close>)
  show "table_typed (tbl (db (snd (qpop_end n q lt s))))"
  proof (cases "length n \<le> 255")
    case False
    with long_queue_unknown [OF t False, of q] t show ?thesis
      by (auto simp: qpop_end_def transaction_def)
  qed (use queue_types(2) [OF _ t] in \<open>simp add: ends_def\<close>)
qed

text \<open>The repair finds nothing under such a name, and then only deletes.\<close>

lemma qfix_long_scan:
  assumes "table_typed (tbl (db s))" "\<not> length n \<le> 255"
  shows "qfix_scan (ssdb_iterator s (encode_qitem_key n p) (encode_qitem_key n q) m) lo hi c = Some (lo, hi, c)"
proof -
  have srt: "sorted_keys (tbl (db s))" using assms(1) by (simp add: table_typed_def)
  have "prefix (name_prefix DT_QUEUE n) k"
    if "encode_qitem_key n p < k" "k \<le> encode_qitem_key n q" for k
    using that unfolding encode_qitem_prefix by (meson less_imp_le prefix_interval prefixI)
  then have "range_asc (tbl (db s)) (encode_qitem_key n p) (encode_qitem_key n q) = []"
    using no_long_item [OF assms(1)] assms(2)
    by (auto simp: range_asc_def in_bound_def filter_empty_conv)
  then have "upcoming (ssdb_iterator s (encode_qitem_key n p) (encode_qitem_key n q) m) = []"
    by (simp add: upcoming_iterator(2) [OF srt])
  then obtain i' where "iter_next (ssdb_iterator s (encode_qitem_key n p) (encode_qitem_key n q) m) = (False, i')"
    using iter_next_Nil [OF upcoming_iterator(1) [OF srt]] by metis
  then show ?thesis by (subst qfix_scan.simps) simp
qed

lemma qfix_kept:
  assumes t: "table_typed (tbl (db s))"
  shows "table_typed (tbl (db (snd (qfix n s))))"
proof -
  have "keeps_types (db s) False (qfix n s)"
  proof (cases "length n \<le> 255")
    case True
    show ?thesis unfolding qfix_def
      by (rule keeps_transaction [OF t], simp only: Let_def split: option.split prod.split)
        (intro conjI allI impI typing_rules queue_typing True; assumption)
  next
    case False
    show ?thesis unfolding qfix_def
    proof (rule keeps_transaction [OF t])
      fix s' assume s': "typing (db s) s'"
      then have "table_typed (tbl (db s'))" by (simp add: typing_def)
      note scan = qfix_long_scan [OF this False]
      show "keeps_types (db s) False
        (let key_s = encode_qitem_key n (QITEM_MIN_SEQ - 1); key_e = encode_qitem_key n QITEM_MAX_SEQ
         in case qfix_scan (ssdb_iterator s' key_s key_e QITEM_MAX_SEQ) 0 0 0 of
            None \<Rightarrow> (-1, s')
          | Some (seq_min, seq_max, count) \<Rightarrow>
              let s = (if count = 0
                       then let s = bl_Delete (encode_qsize_key n) s';
                                s = snd (qdel_one n QFRONT_SEQ s)
                            in snd (qdel_one n QBACK_SEQ s)
                       else let s = bl_Put (encode_qsize_key n) (mem64 count) s';
                                s = snd (qset_one n QFRONT_SEQ (mem64 seq_min) s)
                            in snd (qset_one n QBACK_SEQ (mem64 seq_max) s))
              in commit_ret 0 s)"
        unfolding Let_def scan option.case prod.case if_True simp_thms
        by (intro typing_rules queue_typing s')
    qed
  qed
  then show ?thesis by (simp add: ends_def)
qed

section \<open>The repair of a sorted set\<close>

text \<open>The passes of \<open>zfix\<close> read typed records, so what they derive from them is typed.\<close>

lemma typed_place:
  assumes "record_typed k v" "key_type k = DT_ZSCORE"
  obtains n m x where "member_ok n m" "k = encode_zscore_key n m (str_i64 x)"
    "decode_zscore_key k = Some (n, m, str_i64 x)"
  using assms(1)
proof cases
  case (Place n m x)
  then show thesis
    using that zscore_key.dec_enc [of "(n, m, str_i64 x)"] by (auto simp: member_ok_def)
qed (use assms(2) in \<open>simp_all add: key_type_def key_simps\<close>)

lemma typed_score:
  assumes "record_typed k v" "key_type k = DT_ZSET"
  obtains n m x where "member_ok n m" "k = encode_zset_key n m" "v = str_i64 x"
    "decode_zset_key k = Some (n, m)"
  using assms(1)
proof cases
  case (Score n m x)
  then show thesis
    using that zset_key.dec_enc [of "(n, m)"] by (auto simp: member_ok_def)
qed (use assms(2) in \<open>simp_all add: key_type_def key_simps\<close>)

lemma table_typed_put:
  "table_typed (tbl d) \<Longrightarrow> record_typed k v \<Longrightarrow> ldb_put k v d = (ok, d') \<Longrightarrow> table_typed (tbl d')"
  using table_typed_write [of d "[WPut k v]"] by (simp add: ldb_put_def)

lemma table_typed_delete: "table_typed (tbl d) \<Longrightarrow> table_typed (tbl (snd (ldb_delete k d)))"
  using table_typed_write [of d "[WDel k]"] by (simp add: ldb_delete_def)

text \<open>A pass over the name \<open>n\<close>: the table stays typed, and nothing is counted for a name that is too long.\<close>

definition typed_pass :: "bytes \<Rightarrow> int \<Rightarrow> int \<times> ssdb \<Rightarrow> bool" where
  "typed_pass n sz r \<longleftrightarrow>
     table_typed (tbl (db (snd r))) \<and> (\<not> length n \<le> 255 \<longrightarrow> fst r \<in> {sz, -1})"

lemma typed_pass_stop:
  "table_typed (tbl (db s)) \<Longrightarrow> typed_pass n sz (sz, s)" "table_typed (tbl (db s)) \<Longrightarrow> typed_pass n sz (-1, s)"
  by (simp_all add: typed_pass_def)

lemma typed_pass_count: "typed_pass n (sz + 1) r \<Longrightarrow> length n \<le> 255 \<Longrightarrow> typed_pass n sz r"
  by (simp add: typed_pass_def)

lemma zfix_scores_pass:
  assumes "table_typed (tbl (db s))" "iter_ok i" "\<forall>(k, v) \<in> set (upcoming i). record_typed k v"
  shows "typed_pass n sz (zfix_scores n i sz s)"
  using assms
proof (induction "upcoming i" arbitrary: i sz s)
  case Nil
  then obtain i' where "iter_next i = (False, i')" by (metis iter_next_Nil)
  then show ?case using Nil.prems(1) by (subst zfix_scores.simps) (simp add: typed_pass_stop)
next
  case (Cons e es)
  obtain i' where i': "iter_next i = (True, i')" "entry i' = e" "upcoming i' = es" "iter_ok i'"
    using Cons.prems(2) Cons.hyps(2) by (metis iter_next_Cons)
  have e: "record_typed (iter_key i') (iter_val i')" and es: "\<forall>(k, v) \<in> set (upcoming i'). record_typed k v"
    using Cons.prems(3) unfolding Cons.hyps(2) [symmetric] i'(2,3) [symmetric] by (auto simp: entry_def i'(3))
  show ?case
  proof (cases "key_type (iter_key i') = DT_ZSCORE")
    case False
    then show ?thesis using i'(1) Cons.prems(1)
      by (subst zfix_scores.simps) (simp add: typed_pass_stop del: DT_ZSCORE_def)
  next
    case True
    obtain n' m x where k: "member_ok n' m" "decode_zscore_key (iter_key i') = Some (n', m, str_i64 x)"
      using typed_place [OF e True] by metis
    show ?thesis
    proof (cases "n = n'")
      case False
      then show ?thesis using i'(1) k(2) True Cons.prems(1)
        by (subst zfix_scores.simps) (simp add: typed_pass_stop del: DT_ZSCORE_def)
    next
      case n: True
      have dec: "decode_zscore_key (iter_key i') = Some (n, m, str_i64 x)" and len: "length n \<le> 255"
        and rec: "record_typed (encode_zset_key n m) (str_i64 x)"
        using k n by (simp_all add: member_ok_def record_typed.Score)
      have go: "typed_pass n sz (zfix_scores n i' (sz + 1) s')" if "table_typed (tbl (db s'))" for s'
        using Cons.hyps(1) [OF i'(3) [symmetric] that i'(4) es] len by (rule typed_pass_count)
      have put: "typed_pass n sz (-1, s\<lparr>db := d\<rparr>)" "typed_pass n sz (zfix_scores n i' (sz + 1) (s\<lparr>db := d\<rparr>))"
        if "ldb_put (encode_zset_key n m) (str_i64 x) (db s) = (ok, d)" for ok d
        using go [of "s\<lparr>db := d\<rparr>"] table_typed_put [OF Cons.prems(1) rec that] by (simp_all add: typed_pass_stop)
      show ?thesis using i'(1) dec True Cons.prems(1)
        by (subst zfix_scores.simps)
          (auto simp: Let_def simp del: DT_ZSCORE_def split: get_result.split prod.split intro: go put typed_pass_stop)
    qed
  qed
qed

lemma zfix_items_pass:
  assumes "table_typed (tbl (db s))" "iter_ok i" "\<forall>(k, v) \<in> set (upcoming i). record_typed k v"
  shows "typed_pass n sz (zfix_items n i sz s)"
  using assms
proof (induction "upcoming i" arbitrary: i sz s)
  case Nil
  then obtain i' where "iter_next i = (False, i')" by (metis iter_next_Nil)
  then show ?case using Nil.prems(1) by (subst zfix_items.simps) (simp add: typed_pass_stop)
next
  case (Cons e es)
  obtain i' where i': "iter_next i = (True, i')" "entry i' = e" "upcoming i' = es" "iter_ok i'"
    using Cons.prems(2) Cons.hyps(2) by (metis iter_next_Cons)
  have e: "record_typed (iter_key i') (iter_val i')" and es: "\<forall>(k, v) \<in> set (upcoming i'). record_typed k v"
    using Cons.prems(3) unfolding Cons.hyps(2) [symmetric] i'(2,3) [symmetric] by (auto simp: entry_def i'(3))
  show ?case
  proof (cases "key_type (iter_key i') = DT_ZSET")
    case False
    then show ?thesis using i'(1) Cons.prems(1)
      by (subst zfix_items.simps) (simp add: typed_pass_stop del: DT_ZSET_def)
  next
    case True
    obtain n' m x where k: "member_ok n' m" "iter_val i' = str_i64 x" "decode_zset_key (iter_key i') = Some (n', m)"
      using typed_score [OF e True] by metis
    show ?thesis
    proof (cases "n = n'")
      case False
      then show ?thesis using i'(1) k(3) True Cons.prems(1)
        by (subst zfix_items.simps) (simp add: typed_pass_stop del: DT_ZSET_def)
    next
      case n: True
      have dec: "decode_zset_key (iter_key i') = Some (n, m)" and len: "length n \<le> 255"
        and rec: "record_typed (encode_zscore_key n m (str_i64 x)) []"
        using k n by (simp_all add: member_ok_def record_typed.Place)
      have go: "typed_pass n sz (zfix_items n i' (sz + 1) s')" if "table_typed (tbl (db s'))" for s'
        using Cons.hyps(1) [OF i'(3) [symmetric] that i'(4) es] len by (rule typed_pass_count)
      have put: "typed_pass n sz (-1, s\<lparr>db := d\<rparr>)" "typed_pass n sz (zfix_items n i' (sz + 1) (s\<lparr>db := d\<rparr>))"
        if "ldb_put (encode_zscore_key n m (str_i64 x)) [] (db s) = (ok, d)" for ok d
        using go [of "s\<lparr>db := d\<rparr>"] table_typed_put [OF Cons.prems(1) rec that] by (simp_all add: typed_pass_stop)
      show ?thesis using i'(1) dec k(2) True Cons.prems(1)
        by (subst zfix_items.simps)
          (auto simp: Let_def simp del: DT_ZSET_def split: get_result.split prod.split intro: go put typed_pass_stop)
    qed
  qed
qed

lemma zfix_size_kept:
  assumes "table_typed (tbl (db s))" "length n \<le> 255 \<or> sz = 0"
  shows "table_typed (tbl (db (snd (zfix_size n sz s))))"
proof -
  have "table_typed (tbl (snd (ldb_put (encode_zsize_key n) (mem64 c) (db s))))" if "sz \<noteq> 0" for c
    by (rule table_typed_put [OF assms(1) typed_numbers(2) prod.collapse [symmetric]]) (use assms(2) that in simp)
  then show ?thesis
    using assms(1) table_typed_delete [OF assms(1)] by (auto simp: zfix_size_def Let_def split_beta)
qed

lemma iterator_typed:
  assumes "table_typed (tbl (db s))"
  shows "iter_ok (ssdb_iterator s a b m)" "\<forall>(k, v) \<in> set (upcoming (ssdb_iterator s a b m)). record_typed k v"
proof -
  have srt: "sorted_keys (tbl (db s))" using assms by (simp add: table_typed_def)
  show "iter_ok (ssdb_iterator s a b m)" by (rule upcoming_iterator(1) [OF srt])
  show "\<forall>(k, v) \<in> set (upcoming (ssdb_iterator s a b m)). record_typed k v"
    unfolding upcoming_iterator(2) [OF srt]
    using table_typedD(1) [OF assms] by (auto dest!: in_set_takeD simp: range_asc_def)
qed

text \<open>The two halves of \<open>zfix\<close> have the same shape: a pass and the counter.\<close>

lemma zfix_half:
  assumes "typed_pass n 0 r"
    and "\<And>sz s. table_typed (tbl (db s)) \<Longrightarrow> table_typed (tbl (db (snd (k sz s))))"
  shows "table_typed (tbl (db (snd (case r of (sz, s) \<Rightarrow>
    if sz = -1 then (-1, s)
    else (case zfix_size n sz s of (ok, s) \<Rightarrow> if \<not> ok then (-1, s) else k sz s)))))"
proof -
  obtain sz s1 where p: "r = (sz, s1)" by fastforce
  have t1: "table_typed (tbl (db s1))" and l: "sz \<noteq> -1 \<Longrightarrow> length n \<le> 255 \<or> sz = 0"
    using assms(1) unfolding p typed_pass_def by auto
  show ?thesis
    using t1 zfix_size_kept [OF t1 l] assms(2) by (auto simp: p split_beta)
qed

lemma zfix_kept:
  assumes "table_typed (tbl (db s))"
  shows "table_typed (tbl (db (snd (zfix n s))))"
proof -
  have t: "table_typed (tbl (db (bl_begin s)))" using assms by simp
  have e: "db (snd (transaction body s)) = db (snd (body (bl_begin s)))" for body :: "ssdb \<Rightarrow> int \<times> ssdb"
    by (simp add: transaction_def split_beta Let_def)
  show ?thesis
    unfolding zfix_def e Let_def
    by (rule zfix_half [OF zfix_scores_pass [OF t iterator_typed [OF t]]])
      (rule zfix_half [OF zfix_items_pass], assumption, (erule iterator_typed)+, simp)
qed

section \<open>The vectors\<close>

lemma multi_set_loop_typing: "typing d s \<Longrightarrow> typing d (snd (multi_set_loop lt ks s))"
proof (induction lt ks s rule: multi_set_loop.induct)
  case (2 lt key rest s)
  then show ?case by (cases rest) (simp_all add: Let_def typing_steps record_typed.Value)
qed simp

lemma multi_del_loop_typing: "typing d s \<Longrightarrow> typing d (multi_del_loop lt ks s)"
  by (induction lt ks s rule: multi_del_loop.induct) (auto simp: Let_def intro: typing_steps)

lemma multi_kept:
  assumes t: "table_typed (tbl (db s))"
  shows "table_typed (tbl (db (snd (kv_multi_set ks ofs lt s))))"
    "table_typed (tbl (db (snd (kv_multi_del ks ofs lt s))))"
proof -
  have "keeps_types (db s) False (kv_multi_del ks ofs lt s)"
    unfolding kv_multi_del_def by (intro typing_rules multi_del_loop_typing t; assumption)
  then show "table_typed (tbl (db (snd (kv_multi_del ks ofs lt s))))" by (simp add: ends_def)
  have "keeps_types (db s) False (kv_multi_set ks ofs lt s)"
    unfolding kv_multi_set_def
  proof (intro keeps_transaction [OF t] ends_if)
    fix s' assume w: "typing (db s) s'"
    then show "keeps_types (db s) False (None, s')" by (rule types.ends_return)
    obtain m s1 where m: "multi_set_loop lt (drop ofs ks) s' = (m, s1)" by fastforce
    then have "typing (db s) s1" using multi_set_loop_typing [OF w, of lt "drop ofs ks"] by simp
    then show "keeps_types (db s) False (case multi_set_loop lt (drop ofs ks) s' of
        (MDone, s) \<Rightarrow> let (r, s) = commit_ret (int ((length ks - ofs) div 2)) s in (Some r, s)
      | (MReturn r, s) \<Rightarrow> (Some r, s) | (MUndefined, s) \<Rightarrow> (None, s))"
      unfolding m by (cases m) (auto intro: types.ends_return types.ends_commit_then)
  qed
  then show "table_typed (tbl (db (snd (kv_multi_set ks ofs lt s))))" by (simp add: ends_def)
qed

section \<open>Sessions\<close>

lemma exec_kept:
  assumes t: "table_typed (tbl (db s))"
  shows "table_typed (tbl (db (snd (exec lt c s))))"
proof (cases c)
  case (Kv k)
  note r = kv_types [OF _ t, unfolded ends_def] kv_refused
  show ?thesis using t r [of "kv_cmd_key k"] unfolding Kv
    by (cases k; cases "length (kv_cmd_key k) \<le> 255"; simp add: split_beta Let_def)
next
  case (Hash h)
  then show ?thesis by (cases h) (simp_all add: hash_kept [OF t] t split_beta Let_def)
next
  case (Zset z)
  then show ?thesis by (cases z) (simp_all add: zset_kept [OF t] t split_beta Let_def)
next
  case (Queue q)
  then show ?thesis
    by (cases q) (simp_all add: queue_kept [OF t] t queue_types(3) [OF t, unfolded ends_def] split_beta Let_def
        qpush_front_def qpush_back_def qpop_front_def qpop_back_def)
qed

lemma hclear_kept:
  assumes "hclear n s = Some (r, s')" "table_typed (tbl (db s))"
  shows "table_typed (tbl (db s'))"
  using hclear_chain [OF _ _ _ assms(1), of "\<lambda>s s'. table_typed (tbl (db s)) \<longrightarrow> table_typed (tbl (db s'))"]
    hash_kept(2) assms(2) by blast

lemma operate_kept:
  assumes "operate lt p s = Some s'" and t: "table_typed (tbl (db s))"
  shows "table_typed (tbl (db s'))"
proof (cases p)
  case (SetBit k i on)
  then show ?thesis
    using assms kv_types(6) [OF _ t, of k] kv_refused(6) [of k]
    by (cases "length k \<le> 255") (auto simp: ends_def)
next
  case (HClear n)
  with assms show ?thesis by (auto intro: hclear_kept)
qed (use assms exec_kept multi_kept zfix_kept qfix_kept queue_types(4) [OF t] in \<open>auto simp: ends_def\<close>)

lemma operate_all_kept:
  "operate_all lt ps s = Some s' \<Longrightarrow> table_typed (tbl (db s)) \<Longrightarrow> table_typed (tbl (db s'))"
  by (induction ps arbitrary: s) (auto split: option.splits dest: operate_kept)

text \<open>
  What the readers of the code need of a record: the decoder for its first byte gives back the
  fields its key was made of, a counter has the width of an \<open>int64_t\<close>, a score parses, and a log
  record carries the number of its key.
\<close>

definition reads_back :: "bytes \<Rightarrow> bytes \<Rightarrow> bool" where
  "reads_back k v =
     (let t = key_type k
      in if t = DT_KV then map_option encode_kv_key (decode_kv_key k) = Some k
         else if t = DT_HASH then map_option (\<lambda>(n, x). encode_hash_key n x) (decode_hash_key k) = Some k
         else if t = DT_HSIZE then map_option encode_hsize_key (decode_hsize_key k) = Some k \<and> length v = 8
         else if t = DT_ZSET
         then map_option (\<lambda>(n, x). encode_zset_key n x) (decode_zset_key k) = Some k \<and>
              \<not> snd (str_to_int64 v)
         else if t = DT_ZSCORE
         then map_option (\<lambda>(n, x, sc). encode_zscore_key n x sc) (decode_zscore_key k) = Some k \<and> v = []
         else if t = DT_ZSIZE then map_option encode_zsize_key (decode_zsize_key k) = Some k \<and> length v = 8
         else if t = DT_QUEUE then map_option (\<lambda>(n, q). encode_qitem_key n q) (decode_qitem_key k) = Some k
         else if t = DT_QSIZE then map_option encode_qsize_key (decode_qsize_key k) = Some k \<and> length v = 8
         else t = DT_SYNCLOG \<and> binlog_load v = Some v \<and> binlog_seq v = decode_seq_key k)"

lemma key_types:
  "key_type (encode_kv_key k) = DT_KV" "key_type (encode_hash_key n k) = DT_HASH"
  "key_type (encode_hsize_key n) = DT_HSIZE" "key_type (encode_zset_key n k) = DT_ZSET"
  "key_type (encode_zscore_key n k sc) = DT_ZSCORE" "key_type (encode_zsize_key n) = DT_ZSIZE"
  "key_type (encode_qitem_key n q) = DT_QUEUE" "key_type (encode_qsize_key n) = DT_QSIZE"
  "key_type (encode_seq_key q) = DT_SYNCLOG"
  by (simp_all add: key_type_def key_simps)

lemma decoded:
  "decode_kv_key (encode_kv_key k) = Some k" "decode_hsize_key (encode_hsize_key n) = Some n"
  "decode_zsize_key (encode_zsize_key n) = Some n" "decode_qsize_key (encode_qsize_key n) = Some n"
  "length n \<le> 255 \<Longrightarrow> decode_hash_key (encode_hash_key n k) = Some (n, k)"
  "member_ok n k \<Longrightarrow> decode_zset_key (encode_zset_key n k) = Some (n, k)"
  "member_ok n k \<Longrightarrow> decode_zscore_key (encode_zscore_key n k (str_i64 x)) = Some (n, k, str_i64 x)"
  "length n \<le> 255 \<Longrightarrow> decode_qitem_key (encode_qitem_key n q) = Some (n, q)"
  using hash_key.dec_enc [of "(n, k)"] zset_key.dec_enc [of "(n, k)"]
    zscore_key.dec_enc [of "(n, k, str_i64 x)"] qitem_key.dec_enc [of "(n, q)"]
  by (auto simp: kv_key.dec_enc hsize_key.dec_enc zsize_key.dec_enc qsize_key.dec_enc member_ok_def)

lemma typed_reads_back: "record_typed k v \<Longrightarrow> reads_back k v"
  by (erule record_typed.cases)
    (simp_all add: reads_back_def Let_def key_types decoded member_name str_to_int64_str_i64)



end
