(* ===== verification/Server_Queries.thy ===== *)
theory Server_Queries
  imports Typed_Records
begin

text \<open>
  The queries that read many records: scans of the values, of a hash and of a sorted set, ranges by
  position, slices of a queue and lists of names, in both directions. Each is answered as a function
  of the abstract view of the server alone, so that sessions that mix commands and queries refine
  the same specification.
\<close>

section \<open>Listings of the view\<close>

text \<open>A map in the order of its keys, a map of scores in the order of scores and then of keys.\<close>

definition listing :: "(bytes \<rightharpoonup> 'v) \<Rightarrow> (bytes \<times> 'v) list" where
  "listing m = map (\<lambda>k. (k, the (m k))) (sorted_list_of_set (dom m))"

definition score_listing :: "(bytes \<rightharpoonup> i64) \<Rightarrow> (i64 \<times> bytes) list" where
  "score_listing m =
     map (\<lambda>k. (the (m k), k)) (sort_key (\<lambda>k. sint (the (m k))) (sorted_list_of_set (dom m)))"

lemma strict_sorted_list: "sorted_wrt (<) xs \<Longrightarrow> sorted_list_of_set (set xs) = (xs :: 'a::linorder list)"
  by (simp add: strict_sorted_iff sorted_list_of_set.idem_if_sorted_distinct)

lemma listing_sorted_keys: "sorted_keys xs \<Longrightarrow> listing (map_of xs) = xs"
proof -
  assume s: "sorted_keys xs"
  have "sorted_list_of_set (dom (map_of xs)) = map fst xs"
    using strict_sorted_list [of "map fst xs"] s by (simp add: sorted_keys_def dom_map_of_conv_image_fst)
  moreover have "(fst e, the (map_of xs (fst e))) = e" if "e \<in> set xs" for e
    using sorted_keys_map_of [OF s, of "fst e" "snd e"] that by (simp add: prod_eq_iff)
  ultimately show ?thesis by (simp add: listing_def map_idI comp_def)
qed

text \<open>Sorting by score is stable, so members of equal score stay in the order of their keys.\<close>

lemma insort_score:
  fixes f :: "bytes \<Rightarrow> i64" and R :: "bytes \<Rightarrow> bytes \<Rightarrow> bool"
  assumes R: "\<And>x y. R x y \<longleftrightarrow> sint (f x) < sint (f y) \<or> f x = f y \<and> x < y"
    and "sorted_wrt R ys" "\<forall>y \<in> set ys. x < y"
  shows "sorted_wrt R (insort_key (\<lambda>k. sint (f k)) x ys)"
  using assms(2,3)
proof (induction ys)
  case (Cons y ys)
  show ?case
  proof (cases "sint (f x) \<le> sint (f y)")
    case True
    have yz: "R y z" if "z \<in> set ys" for z using that Cons.prems(1) by simp
    have eq: "f x = f y" if "sint (f x) = sint (f y)" using that by (rule signed_word_eqI)
    have "R x z" if "z \<in> set (y # ys)" for z
      using that True yz [of z] eq Cons.prems(2) unfolding R by fastforce
    with True Cons.prems show ?thesis by simp
  next
    case False
    then have "R y x" using R by simp
    with False Cons show ?thesis by (auto simp: set_insort_key)
  qed
qed simp

lemma sort_score:
  fixes f :: "bytes \<Rightarrow> i64"
  assumes R: "\<And>x y. R x y \<longleftrightarrow> sint (f x) < sint (f y) \<or> f x = f y \<and> x < y" and "sorted_wrt (<) xs"
  shows "sorted_wrt R (sort_key (\<lambda>k. sint (f k)) xs)"
  using assms(2) by (induction xs) (auto intro: insort_score [OF R])

lemma score_listing: "finite (dom m) \<Longrightarrow> zset_listing m (score_listing m)"
proof -
  assume fin: "finite (dom m)"
  let ?f = "\<lambda>k. the (m k)"
  have "sorted_wrt (\<lambda>x y. zless (?f x, x) (?f y, y)) (sort_key (\<lambda>k. sint (?f k)) (sorted_list_of_set (dom m)))"
    by (rule sort_score) (simp_all add: zless_def strict_sorted_list_of_set)
  then show ?thesis using fin by (auto simp: zset_listing_def score_listing_def sorted_wrt_map image_iff)
qed

section \<open>The queries\<close>

datatype container = Hashes | Zsets | Queues

text \<open>The arguments are those of the C++ methods; \<open>c\<close> is always the limit.\<close>

datatype query =
    QScan bytes bytes u64 | QRscan bytes bytes u64
  | QHscan bytes bytes bytes u64 | QHrscan bytes bytes bytes u64
  | QZscan bytes bytes bytes bytes u64 | QZrscan bytes bytes bytes bytes u64
  | QZrange bytes u64 u64 | QZrrange bytes u64 u64
  | QSlice bytes i64 i64
  | QNames container bytes bytes u64 | QRnames container bytes bytes u64

datatype answer = Pairs "(bytes \<times> bytes) list" | Names "bytes list" | Slice int "bytes list"

text \<open>What the server says, with the iterators drained; \<open>None\<close> if it does not return.\<close>

fun ask :: "ssdb \<Rightarrow> query \<Rightarrow> answer option" where
  "ask s (QScan a b c) = Some (Pairs (kiter_items (kv_scan s a b c)))"
| "ask s (QRscan a b c) = Some (Pairs (kiter_items (kv_rscan s a b c)))"
| "ask s (QHscan n a b c) = Some (Pairs (hiter_items (hscan s n a b c)))"
| "ask s (QHrscan n a b c) = Some (Pairs (hiter_items (hrscan s n a b c)))"
| "ask s (QZscan n k a b c) = Some (Pairs (ziter_items (zscan s n k a b c)))"
| "ask s (QZrscan n k a b c) = Some (Pairs (ziter_items (zrscan s n k a b c)))"
| "ask s (QZrange n ofs c) = Some (Pairs (ziter_items (zrange s n ofs c)))"
| "ask s (QZrrange n ofs c) = Some (Pairs (ziter_items (zrrange s n ofs c)))"
| "ask s (QSlice n b e) = map_option (\<lambda>(r, xs). Slice r xs) (qslice s n b e)"
| "ask s (QNames Hashes a b c) = Some (Names (hlist s a b c))"
| "ask s (QNames Zsets a b c) = Some (Names (zlist s a b c))"
| "ask s (QNames Queues a b c) = Some (Names (qlist s a b c))"
| "ask s (QRnames Hashes a b c) = Some (Names (hrlist s a b c))"
| "ask s (QRnames Zsets a b c) = Some (Names (zrlist s a b c))"
| "ask s (QRnames Queues a b c) = Some (Names (qrlist s a b c))"

section \<open>Their answers from the view\<close>

text \<open>
  The bounds of the scans: after the start up to and including the end, an empty end being none; and
  backwards, below the start, where the code takes the byte 255 for an empty one.
\<close>

definition after_upto :: "bytes \<Rightarrow> bytes \<Rightarrow> bytes \<Rightarrow> bool" where
  "after_upto a b x \<longleftrightarrow> a < x \<and> (b = [] \<or> x \<le> b)"

definition below_downto :: "bytes \<Rightarrow> bytes \<Rightarrow> bytes \<Rightarrow> bool" where
  "below_downto a b x \<longleftrightarrow> x < (if a = [] then [255] else a) \<and> b \<le> x"

text \<open>The containers that have a member, under a name of at most 255 bytes.\<close>

fun container_names :: "view \<Rightarrow> container \<Rightarrow> bytes list" where
  "container_names v Hashes = sorted_list_of_set {n. length n \<le> 255 \<and> hashes_of v n \<noteq> Map.empty}"
| "container_names v Zsets = sorted_list_of_set {n. length n \<le> 255 \<and> zsets_of v n \<noteq> Map.empty}"
| "container_names v Queues = sorted_list_of_set {n. length n \<le> 255 \<and> snd (queues_of v n) \<noteq> []}"

text \<open>Where a scan of a sorted set starts: at a member given without a score, at its score.\<close>

definition scan_score :: "(bytes \<rightharpoonup> i64) \<Rightarrow> bytes \<Rightarrow> bytes \<Rightarrow> bytes" where
  "scan_score m k sc =
     (if k \<noteq> [] \<and> sc = [] then (case m k of None \<Rightarrow> [] | Some x \<Rightarrow> str_i64 x) else sc)"

fun tell :: "view \<Rightarrow> query \<Rightarrow> answer" where
  "tell v (QScan a b c) =
     Pairs (take (unat c) (filter (\<lambda>e. after_upto a b (fst e)) (listing (kv_of v))))"
| "tell v (QRscan a b c) =
     Pairs (take (unat c) (rev (filter (\<lambda>e. below_downto a b (fst e)) (listing (kv_of v)))))"
| "tell v (QHscan n a b c) =
     Pairs (take (unat c) (filter (\<lambda>e. after_upto a b (fst e)) (listing (hashes_of v n))))"
| "tell v (QHrscan n a b c) =
     Pairs (take (unat c) (rev (filter (\<lambda>e. below_downto a b (fst e)) (listing (hashes_of v n)))))"
| "tell v (QZscan n k sc e c) =
     Pairs (map zshow (take (unat c) (zpass FORWARD (zstart FORWARD k (scan_score (zsets_of v n) k sc))
       (zend FORWARD e) (score_listing (zsets_of v n)))))"
| "tell v (QZrscan n k sc e c) =
     Pairs (map zshow (take (unat c) (zpass BACKWARD (zstart BACKWARD k (scan_score (zsets_of v n) k sc))
       (zend BACKWARD e) (score_listing (zsets_of v n)))))"
| "tell v (QZrange n ofs c) =
     Pairs (map zshow (take (unat c) (drop (unat ofs) (zreach FORWARD (score_listing (zsets_of v n))))))"
| "tell v (QZrrange n ofs c) =
     Pairs (map zshow (take (unat c) (drop (unat ofs) (zreach BACKWARD (score_listing (zsets_of v n))))))"
| "tell v (QSlice n b e) =
     (let xs = snd (queues_of v n); pb = qpos (length xs) b; pe = qpos (length xs) e
      in Slice 0 (if pb < 0 then [] else take (nat (pe + 1) - nat pb) (drop (nat pb) xs)))"
| "tell v (QNames k a b c) = Names (take (unat c) (filter (after_upto a b) (container_names v k)))"
| "tell v (QRnames k a b c) = Names (take (unat c) (rev (filter (below_downto a b) (container_names v k))))"

text \<open>
  The limits of the arguments: names that the server accepts, positions whose sum fits a
  \<open>uint64_t\<close>, and indexes of a queue that stay above its two pointer records.
\<close>

fun query_ok :: "query \<Rightarrow> bool" where
  "query_ok (QHscan n a b c) \<longleftrightarrow> length n \<le> 255" | "query_ok (QHrscan n a b c) \<longleftrightarrow> length n \<le> 255"
| "query_ok (QZscan n k sc e c) \<longleftrightarrow> length n \<le> 255" | "query_ok (QZrscan n k sc e c) \<longleftrightarrow> length n \<le> 255"
| "query_ok (QZrange n ofs c) \<longleftrightarrow> length n \<le> 255 \<and> unat ofs + unat c < 2 ^ 64"
| "query_ok (QZrrange n ofs c) \<longleftrightarrow> length n \<le> 255 \<and> unat ofs + unat c < 2 ^ 64"
| "query_ok (QSlice n b e) \<longleftrightarrow> length n \<le> 255 \<and> - 9997 \<le> sint b \<and> - 9997 \<le> sint e"
| "query_ok _ \<longleftrightarrow> True"

fun query_readable :: "ssdb \<Rightarrow> query \<Rightarrow> bool" where
  "query_readable s (QZscan n k sc e c) = zset_readable s n k"
| "query_readable s (QZrscan n k sc e c) = zset_readable s n k"
| "query_readable s (QSlice n b e) = queue_readable s n"
| "query_readable s _ = True"

section \<open>Scans\<close>

lemma kv_listing:
  assumes "sorted_keys (tbl (db s))"
  shows "listing (kv_map s) = kv_entries (tbl (db s))"
proof -
  have "map_of (kv_entries (tbl (db s))) = kv_map s"
    by (rule ext) (simp add: kv_entries_def map_of_block_entries kv_map_def data_map_def encode_kv_key_def)
  then show ?thesis
    using listing_sorted_keys [of "kv_entries (tbl (db s))"] assms
    by (simp add: kv_entries_def sorted_block_entries)
qed

lemma hash_listing:
  "hash_inv s \<Longrightarrow> length n \<le> 255 \<Longrightarrow> listing (hash_map s n) = hash_entries (tbl (db s)) n"
  using listing_sorted_keys [of "hash_entries (tbl (db s)) n"]
  by (simp add: hash_entries_map hash_inv_def) (simp add: hash_entries_def sorted_block_entries)

lemma score_listing_entries:
  assumes "zset_inv s" "length n \<le> 255"
  shows "score_listing (zset_map s n) = zset_entries (tbl (db s)) n"
proof -
  have "finite (dom (zset_map s n))"
    using assms zset_map_finite [of s n] by (simp add: zset_inv_def)
  from zset_listing_unique [OF score_listing [OF this] zset_listing_entries [OF assms]] show ?thesis .
qed

section \<open>Lists of names\<close>

text \<open>In a typed table the size records have names of at most 255 bytes.\<close>

lemma size_name_short:
  assumes "table_typed t" "tag \<in> {DT_HSIZE, DT_ZSIZE, DT_QSIZE}" "x \<in> set (names_of tag t)"
  shows "length x \<le> 255"
proof -
  have "map_of t (tag # x) \<noteq> None"
    using assms(3) by (simp add: names_of_def domIff dom_map_of_conv_image_fst [symmetric] map_of_block_entries)
  then obtain v where "record_typed (tag # x) v" using table_typedD(2) [OF assms(1)] by blast
  then show ?thesis by cases (use assms(2) in \<open>auto simp: key_simps\<close>)
qed

lemma names_listed:
  assumes "table_typed t" "tag \<in> {DT_HSIZE, DT_ZSIZE, DT_QSIZE}"
    and "\<forall>x. length x \<le> 255 \<longrightarrow> x \<in> set (names_of tag t) \<longleftrightarrow> P x"
  shows "names_of tag t = sorted_list_of_set {n. length n \<le> 255 \<and> P n}"
proof -
  have "sorted_keys (block_entries [tag] t)"
    using assms(1) by (simp add: table_typed_def sorted_block_entries)
  then have "sorted_wrt (<) (names_of tag t)" by (simp add: sorted_keys_def names_of_def)
  moreover have "set (names_of tag t) = {n. length n \<le> 255 \<and> P n}"
    using size_name_short [OF assms(1,2)] assms(3) by auto
  ultimately show ?thesis using strict_sorted_list by metis
qed

lemma container_names_table:
  assumes v: "shows_view s v" and t: "table_typed (tbl (db s))"
  shows "container_names v Hashes = names_of DT_HSIZE (tbl (db s))"
    "container_names v Zsets = names_of DT_ZSIZE (tbl (db s))"
    "container_names v Queues = names_of DT_QSIZE (tbl (db s))"
proof -
  have inv: "hash_inv s" "zset_inv s" "queue_rel s (queues_of v)" "hash_map s = hashes_of v" "zset_map s = zsets_of v"
    using v by (simp_all add: shows_view_def)
  show "container_names v Hashes = names_of DT_HSIZE (tbl (db s))"
    unfolding container_names.simps
    by (rule names_listed [OF t _ hlist_names [OF inv(1), THEN conjunct2], unfolded inv(4), symmetric]) simp
  show "container_names v Zsets = names_of DT_ZSIZE (tbl (db s))"
    unfolding container_names.simps
    by (rule names_listed [OF t _ zlist_names [OF inv(2), THEN conjunct2], unfolded inv(5), symmetric]) simp
  show "container_names v Queues = names_of DT_QSIZE (tbl (db s))"
    unfolding container_names.simps
    by (rule names_listed [OF t _ qlist_names [OF inv(3), THEN conjunct2], symmetric]) simp
qed

lemma list_ranges:
  assumes "sorted_keys (tbl (db s))"
  shows "hlist s a b c = take (unat c) (filter (after_upto a b) (names_of DT_HSIZE (tbl (db s))))"
    "zlist s a b c = take (unat c) (filter (after_upto a b) (names_of DT_ZSIZE (tbl (db s))))"
    "qlist s a b c = take (unat c) (filter (after_upto a b) (names_of DT_QSIZE (tbl (db s))))"
    "hrlist s a b c = take (unat c) (rev (filter (below_downto a b) (names_of DT_HSIZE (tbl (db s)))))"
    "zrlist s a b c = take (unat c) (rev (filter (below_downto a b) (names_of DT_ZSIZE (tbl (db s)))))"
    "qrlist s a b c = take (unat c) (rev (filter (below_downto a b) (names_of DT_QSIZE (tbl (db s)))))"
proof -
  have app: "encode_hsize_key x = [DT_HSIZE] @ x" "encode_zsize_key x = [DT_ZSIZE] @ x"
    "encode_qsize_key x = [DT_QSIZE] @ x" for x
    by (simp_all add: encode_hsize_key_def encode_zsize_key_def encode_qsize_key_def)
  have up: "after_upto a b = (\<lambda>x. a < x \<and> (b = [] \<or> x \<le> b))" by (rule ext) (simp add: after_upto_def)
  have down: "below_downto a b = (\<lambda>x. x < (if a = [] then [255] else a) \<and> b \<le> x)"
    by (rule ext) (simp add: below_downto_def)
  have st: "(if a = [] then ([t] @ a) @ [255] else [t] @ a) = [t] @ (if a = [] then [255] else a)" for t
    by simp
  show "hlist s a b c = take (unat c) (filter (after_upto a b) (names_of DT_HSIZE (tbl (db s))))"
    unfolding hlist_def Let_def app up by (rule hnames.names_asc [OF assms])
  show "zlist s a b c = take (unat c) (filter (after_upto a b) (names_of DT_ZSIZE (tbl (db s))))"
    unfolding zlist_def Let_def app up by (rule znames.names_asc [OF assms])
  show "qlist s a b c = take (unat c) (filter (after_upto a b) (names_of DT_QSIZE (tbl (db s))))"
    unfolding qlist_def Let_def app up by (rule qnames.names_asc [OF assms])
  show "hrlist s a b c = take (unat c) (rev (filter (below_downto a b) (names_of DT_HSIZE (tbl (db s)))))"
    unfolding hrlist_def Let_def app st down by (rule hnames.names_desc [OF assms])
  show "zrlist s a b c = take (unat c) (rev (filter (below_downto a b) (names_of DT_ZSIZE (tbl (db s)))))"
    unfolding zrlist_def Let_def app st down by (rule znames.names_desc [OF assms])
  show "qrlist s a b c = take (unat c) (rev (filter (below_downto a b) (names_of DT_QSIZE (tbl (db s)))))"
    unfolding qrlist_def Let_def app st down by (rule qnames.names_desc [OF assms])
qed

section \<open>The answers\<close>

lemma slice_indexes:
  assumes "queue_rel s Q" "length n \<le> 255" "Q n = (f, xs)" "xs \<noteq> []"
    and "- 9997 \<le> sint b" "- 9997 \<le> sint e"
  shows "3 < int f + qpos (length xs) b \<and> 0 \<le> int f + qpos (length xs) e"
  using queue_relD [OF assms(1,2)] assms(3-) by (auto simp: qpos_def)

lemma ask_tells:
  assumes v: "shows_view s v" and t: "table_typed (tbl (db s))"
    and q: "query_ok q" and r: "query_readable s q"
  shows "ask s q = Some (tell v q)"
proof -
  have inv: "hash_inv s" "zset_inv s" "queue_rel s (queues_of v)"
    and eq: "kv_of v = kv_map s" "hashes_of v = hash_map s" "zsets_of v = zset_map s"
    using v by (simp_all add: shows_view_def)
  have srt: "sorted_keys (tbl (db s))" using t by (simp add: table_typed_def)
  note names = container_names_table [OF v t] list_ranges [OF srt]
  note scans = kv_scan_items [OF srt] kv_rscan_items [OF srt] hscan_items [OF inv(1)] hrscan_items [OF inv(1)]
  show ?thesis
  proof (cases q)
    case (QZscan n k a b c)
    then have n: "length n \<le> 255" and rd: "zset_readable s n k" using q r by simp_all
    from zscan_items [OF inv(2) n rd HOL.refl, of a b c] show ?thesis
      using zset_listing_unique [OF zset_listing_entries [OF inv(2) n]]
      by (auto simp: QZscan eq scan_score_def score_listing_entries [OF inv(2) n])
  next
    case (QZrscan n k a b c)
    then have n: "length n \<le> 255" and rd: "zset_readable s n k" using q r by simp_all
    from zscan_items [OF inv(2) n rd HOL.refl, of a b c] show ?thesis
      using zset_listing_unique [OF zset_listing_entries [OF inv(2) n]]
      by (auto simp: QZrscan eq scan_score_def score_listing_entries [OF inv(2) n])
  next
    case (QZrange n ofs c)
    then have n: "length n \<le> 255" and l: "unat ofs + unat c < 2 ^ 64" using q by simp_all
    from zrange_items [OF inv(2) n l] show ?thesis
      using zset_listing_unique [OF zset_listing_entries [OF inv(2) n]]
      by (auto simp: QZrange eq score_listing_entries [OF inv(2) n])
  next
    case (QZrrange n ofs c)
    then have n: "length n \<le> 255" and l: "unat ofs + unat c < 2 ^ 64" using q by simp_all
    from zrange_items [OF inv(2) n l] show ?thesis
      using zset_listing_unique [OF zset_listing_entries [OF inv(2) n]]
      by (auto simp: QZrrange eq score_listing_entries [OF inv(2) n])
  next
    case (QSlice n b e)
    then have n: "length n \<le> 255" "queue_readable s n" and i: "- 9997 \<le> sint b" "- 9997 \<le> sint e"
      using q r by simp_all
    obtain f xs where f: "queues_of v n = (f, xs)" by fastforce
    from qslice_answers [OF inv(3) n f HOL.refl HOL.refl slice_indexes [OF inv(3) n(1) f _ i]] show ?thesis
      by (simp add: QSlice f Let_def)
  next
    case (QNames k a b c)
    then show ?thesis by (cases k) (simp_all add: names del: container_names.simps)
  next
    case (QRnames k a b c)
    then show ?thesis by (cases k) (simp_all add: names del: container_names.simps)
  qed (use q in \<open>simp_all add: eq scans kv_listing [OF srt] hash_listing [OF inv(1)] after_upto_def below_downto_def\<close>)
qed

section \<open>Sessions of commands and queries\<close>

datatype request = Do command | Ask query

datatype reply = Done "int \<times> bytes option" | Told "answer option"

fun serve :: "u8 \<Rightarrow> request \<Rightarrow> ssdb \<Rightarrow> reply \<times> ssdb" where
  "serve lt (Do c) s = (let (a, s') = exec lt c s in (Done a, s'))"
| "serve lt (Ask q) s = (Told (ask s q), s)"

fun serve_spec :: "request \<Rightarrow> view \<Rightarrow> reply \<times> view" where
  "serve_spec (Do c) v = (let (a, v') = spec True c v in (Done a, v'))"
| "serve_spec (Ask q) v = (Told (Some (tell v q)), v)"

fun request_ok :: "request \<Rightarrow> bool" where
  "request_ok (Do c) \<longleftrightarrow> length (name_of c) \<le> 255"
| "request_ok (Ask q) \<longleftrightarrow> query_ok q"

text \<open>The view is shown, the table typed, the storage reliable, and the counters have room.\<close>

definition serves :: "nat \<Rightarrow> ssdb \<Rightarrow> view \<Rightarrow> bool" where
  "serves b s v \<longleftrightarrow>
     shows_view s v \<and> table_typed (tbl (db s)) \<and> reliable (db s) \<and> has_room s b"

lemma query_readable_reliable: "reliable (db s) \<Longrightarrow> query_readable s q"
  by (cases q) (simp_all add: zset_readable_reliable queue_readable_reliable)

lemma serve_refines:
  assumes "serves (Suc b) s v" "request_ok r"
  shows "fst (serve lt r s) = fst (serve_spec r v) \<and> serves b (snd (serve lt r s)) (snd (serve_spec r v))"
proof -
  have v: "shows_view s v" and t: "table_typed (tbl (db s))" and rel: "reliable (db s)"
    and room: "has_room s (Suc b)" using assms(1) by (simp_all add: serves_def)
  show ?thesis
  proof (cases r)
    case (Do c)
    then have n: "length (name_of c) \<le> 255" using assms(2) by simp
    have "fst (exec lt c s) = fst (spec True c v) \<and> shows_view (snd (exec lt c s)) (snd (spec True c v)) \<and>
        reliable (db (snd (exec lt c s))) \<and> has_room (snd (exec lt c s)) b"
      using server.step [of s v b c lt] v rel room n by simp
    then show ?thesis using exec_kept [OF t, of lt c] by (simp add: Do serves_def split_beta Let_def del: exec.simps)
  next
    case (Ask q)
    have "ask s q = Some (tell v q)"
      by (rule ask_tells [OF v t _ query_readable_reliable [OF rel]]) (use Ask assms(2) in simp)
    then show ?thesis using v t rel has_room_less [OF room, of b] by (simp add: Ask serves_def)
  qed
qed

interpretation requests: budget_refinement "serve lt" serve_spec request_ok serves for lt
  by unfold_locales (rule serve_refines)

text \<open>
  C2: a session that mixes commands of all types with scans, ranges, slices and lists of names, in
  both directions, is answered as the abstract server answers it: the four families of values and
  nothing else determine what every query lists, in which order and up to which end, after the
  commands before it. Every query of the session returns, and leaves the server as it was. At the
  start the database is in order with records of the right types, the storage fails no read and no
  write, and the counters have room for the session. Names have at most 255 bytes, the indexes of a
  slice are -9997 or more, and the offset and limit of \<open>zrange\<close> and \<open>zrrange\<close> have a sum below 2^64;
  of queries outside these limits nothing is said.
\<close>

theorem server_queries_refine:
  assumes "serves (length rs) s v" "\<forall>r \<in> set rs. request_ok r"
  shows "fst (run_session (serve lt) rs s) = fst (run_session serve_spec rs v) \<and>
    serves 0 (snd (run_session (serve lt) rs s)) (snd (run_session serve_spec rs v))"
  using requests.run_within [where b = 0] assms by simp

lemma serves_empty: "b < 2 ^ 63 \<Longrightarrow> serves b empty_ssdb \<lparr>kv_of = Map.empty, hashes_of = \<lambda>_. Map.empty,
    zsets_of = \<lambda>_. Map.empty, queues_of = \<lambda>_. (0, [])\<rparr>"
  by (simp add: serves_def shows_empty room_empty)

lemma server_queries_refine_witness:
  "fst (run_session (serve BT_SYNC)
     [Do (Hash (HSet [1] [3] [7])), Do (Hash (HSet [1] [2] [9])), Ask (QHscan [1] [] [] 10),
      Ask (QHrscan [1] [] [] 1), Do (Queue (QPushBack [4] [5])), Ask (QSlice [4] 0 0),
      Ask (QHscan [4] [] [] 10)] empty_ssdb) =
   [Done (1, None), Done (1, None), Told (Some (Pairs [([2], [9]), ([3], [7])])),
    Told (Some (Pairs [([3], [7])])), Done (1, None), Told (Some (Slice 0 [[5]])), Told (Some (Pairs []))]"
proof -
  let ?rs = "[Do (Hash (HSet [1] [3] [7])), Do (Hash (HSet [1] [2] [9])), Ask (QHscan [1] [] [] 10),
      Ask (QHrscan [1] [] [] 1), Do (Queue (QPushBack [4] [5])), Ask (QSlice [4] 0 0),
      Ask (QHscan [4] [] [] 10)]"
  have "serves (length ?rs) empty_ssdb \<lparr>kv_of = Map.empty, hashes_of = \<lambda>_. Map.empty,
    zsets_of = \<lambda>_. Map.empty, queues_of = \<lambda>_. (0, [])\<rparr>" by (rule serves_empty) simp
  moreover have "\<forall>r \<in> set ?rs. request_ok r" by simp
  ultimately have "fst (run_session (serve BT_SYNC) ?rs empty_ssdb) = fst (run_session serve_spec ?rs
      \<lparr>kv_of = Map.empty, hashes_of = \<lambda>_. Map.empty, zsets_of = \<lambda>_. Map.empty, queues_of = \<lambda>_. (0, [])\<rparr>)"
    by (intro server_queries_refine [THEN conjunct1])
  then show ?thesis
    by (simp add: spec_write_def qinit_def listing_def after_upto_def below_downto_def qpos_def del: serve.simps)
qed

end
