(* ===== verification/Config.thy ===== *)
theory Config
  imports Util_Bytes
begin

text \<open>
  \<open>ssdb/util/config.h\<close> and \<open>config.cpp\<close>: the tree of configuration items, access to it by paths
  of keys, and its text format, with the server options that \<open>ssdb/ssdb/options.cpp\<close> reads from
  it.

  A \<open>Config\<close> object is a node with its key, value and children; \<open>parent\<close> and \<open>depth\<close> are given
  by the place of a node in the tree, and a pointer into the tree is the list of child indices
  that leads to it. A file is its contents and the final \<open>ferror\<close>; \<open>None\<close> is a file that could
  not be opened.
\<close>

section \<open>The tree\<close>

datatype config = Config (ckey: bytes) (cval: bytes) (children: "config list")

definition CONFIG_MAX_LINE :: nat where [simp]: "CONFIG_MAX_LINE = 4096"

definition config_new :: "bytes option \<Rightarrow> bytes option \<Rightarrow> config" where
  "config_new key val =
     Config (case key of Some k \<Rightarrow> k | None \<Rightarrow> []) (case val of Some v \<Rightarrow> v | None \<Rightarrow> []) []"

definition add_child :: "bytes \<Rightarrow> bytes \<Rightarrow> config \<Rightarrow> config" where
  "add_child k v c = Config (ckey c) (cval c) (children c @ [Config (c_str k) (c_str v) []])"

text \<open>\<open>find_child\<close> looks from the last child to the first.\<close>

fun last_index :: "bytes \<Rightarrow> config list \<Rightarrow> nat option" where
  "last_index k [] = None"
| "last_index k (c # cs) =
     (case last_index k cs of
        Some i \<Rightarrow> Some (Suc i)
      | None \<Rightarrow> if ckey c = k then Some 0 else None)"

definition find_child :: "bytes \<Rightarrow> config \<Rightarrow> config option" where
  "find_child k c = map_option ((!) (children c)) (last_index k (children c))"

definition is_comment :: "config \<Rightarrow> bool" where
  "is_comment c \<longleftrightarrow> ckey c \<noteq> [] \<and> hd (ckey c) = 35"

section \<open>Access by path\<close>

text \<open>
  The path is a copy of the argument cut off at the buffer's size; \<open>f\<close> is the field that has
  been read so far.
\<close>

definition path_buf :: "bytes \<Rightarrow> bytes" where
  "path_buf key = take (CONFIG_MAX_LINE - 1) (c_str key)"

definition is_path_sep :: "u8 \<Rightarrow> bool" where
  "is_path_sep ch \<longleftrightarrow> ch = 46 \<or> ch = 47"

fun config_walk :: "bytes \<Rightarrow> bytes \<Rightarrow> config \<Rightarrow> config option" where
  "config_walk f [] conf = find_child f conf"
| "config_walk f (ch # rest) conf =
     (if is_path_sep ch
      then (case find_child f conf of None \<Rightarrow> None | Some c \<Rightarrow> config_walk [] rest c)
      else config_walk (f @ [ch]) rest conf)"

definition config_get :: "bytes \<Rightarrow> config \<Rightarrow> config option" where
  "config_get key conf = config_walk [] (path_buf key) conf"

definition config_num :: "config \<Rightarrow> int" where
  "config_num c = atoi (c_str (cval c))"

definition get_num :: "bytes \<Rightarrow> config \<Rightarrow> int" where
  "get_num key conf = (case config_get key conf of None \<Rightarrow> 0 | Some c \<Rightarrow> config_num c)"

definition get_int64 :: "bytes \<Rightarrow> config \<Rightarrow> i64" where
  "get_int64 key conf =
     (case config_get key conf of None \<Rightarrow> 0 | Some c \<Rightarrow> fst (str_to_int64 (cval c)))"

definition get_str :: "bytes \<Rightarrow> config \<Rightarrow> bytes" where
  "get_str key conf = (case config_get key conf of None \<Rightarrow> [] | Some c \<Rightarrow> c_str (cval c))"

text \<open>
  \<open>child_or_new\<close> is the index of the child \<open>f\<close>, after adding one if there was none;
  \<open>build_key_path\<close> repeats it down the path and ends at the node whose value \<open>set\<close> changes.
\<close>

definition child_or_new :: "bytes \<Rightarrow> config \<Rightarrow> config \<times> nat" where
  "child_or_new f conf =
     (case last_index f (children conf) of
        Some i \<Rightarrow> (conf, i)
      | None \<Rightarrow> (add_child f [] conf, length (children conf)))"

definition upd_child :: "nat \<Rightarrow> (config \<Rightarrow> config) \<Rightarrow> config \<Rightarrow> config" where
  "upd_child i g c = Config (ckey c) (cval c) ((children c)[i := g (children c ! i)])"

fun build_key_path :: "bytes \<Rightarrow> bytes \<Rightarrow> (config \<Rightarrow> config) \<Rightarrow> config \<Rightarrow> config" where
  "build_key_path f [] g conf = (let (conf', i) = child_or_new f conf in upd_child i g conf')"
| "build_key_path f (ch # rest) g conf =
     (if is_path_sep ch
      then let (conf', i) = child_or_new f conf in upd_child i (build_key_path [] rest g) conf'
      else build_key_path (f @ [ch]) rest g conf)"

definition config_set :: "bytes \<Rightarrow> bytes \<Rightarrow> config \<Rightarrow> config" where
  "config_set key val conf =
     build_key_path [] (path_buf key) (\<lambda>c. Config (ckey c) (c_str val) (children c)) conf"

section \<open>Reading a file\<close>

definition is_kv_separator :: "u8 \<Rightarrow> bool" where
  "is_kv_separator ch \<longleftrightarrow> ch = 61 \<or> ch = 58"

text \<open>\<open>fgets\<close>: at most \<open>n\<close> characters, through the first newline.\<close>

fun fgets :: "nat \<Rightarrow> bytes \<Rightarrow> bytes \<times> bytes" where
  "fgets 0 s = ([], s)"
| "fgets (Suc n) [] = ([], [])"
| "fgets (Suc n) (c # s) =
     (if c = 10 then ([c], s) else let (l, r) = fgets n s in (c # l, r))"

record load_state =
  root :: config
  cur :: "nat list"
  last_indent :: nat

fun node_at :: "nat list \<Rightarrow> config \<Rightarrow> config option" where
  "node_at [] c = Some c"
| "node_at (i # p) c = (if i < length (children c) then node_at p (children c ! i) else None)"

fun upd_at :: "nat list \<Rightarrow> (config \<Rightarrow> config) \<Rightarrow> config \<Rightarrow> config" where
  "upd_at [] g c = g c"
| "upd_at (i # p) g c = upd_child i (upd_at p g) c"

text \<open>The moves to the parent; the root stays.\<close>

fun climb :: "nat \<Rightarrow> nat list \<Rightarrow> nat list" where
  "climb 0 p = p"
| "climb (Suc n) p = climb n (if p \<noteq> [] then butlast p else p)"

text \<open>
  One turn of the loop of \<open>load\<close>; \<open>None\<close> is the jump to \<open>err\<close>. The last character is cut off
  whatever it is.
\<close>

definition load_line :: "bytes \<Rightarrow> load_state \<Rightarrow> load_state option" where
  "load_line line st =
     (let buf = butlast (c_str line) in
      if is_empty_str buf then Some st
      else
        let indent = length (takeWhile (\<lambda>c. c = 9) buf); key = drop indent buf in
        if hd key = 35 then Some (st\<lparr>root := upd_at (cur st) (add_child [35] (tl key)) (root st)\<rparr>)
        else if indent > last_indent st + 1 then None
        else
          let cfg = (if indent \<le> last_indent st
                     then climb (last_indent st + 1 - indent) (cur st) else cur st)
          in if isspace (hd key) then None
          else
            let rest = dropWhile (\<lambda>c. \<not> is_kv_separator c) key in
            if rest = [] then None
            else
              let name = trim (takeWhile (\<lambda>c. \<not> is_kv_separator c) key); val = trim (tl rest);
                  n = (case node_at cfg (root st) of None \<Rightarrow> 0 | Some c \<Rightarrow> length (children c))
              in Some \<lparr>root = upd_at cfg (add_child name val) (root st), cur = cfg @ [n],
                       last_indent = indent\<rparr>)"

lemma fgets_length: "0 < n \<Longrightarrow> inp \<noteq> [] \<Longrightarrow> fgets n inp = (l, r) \<Longrightarrow> length r < length inp"
proof -
  have le: "length (snd (fgets n s)) \<le> length s" for n s
    by (induction n s rule: fgets.induct) (auto split: prod.splits)
  show "0 < n \<Longrightarrow> inp \<noteq> [] \<Longrightarrow> fgets n inp = (l, r) \<Longrightarrow> length r < length inp"
    using le [of "n - 1" "tl inp"]
    by (cases n; cases inp) (auto simp: less_Suc_eq_le split: prod.splits if_splits)
qed

function load_loop :: "bytes \<Rightarrow> load_state \<Rightarrow> load_state option" where
  "load_loop inp st =
     (if inp = [] then Some st
      else let (line, rest) = fgets (CONFIG_MAX_LINE - 1) inp
           in case load_line line st of None \<Rightarrow> None | Some st' \<Rightarrow> load_loop rest st')"
  by pat_completeness auto
termination
  by (relation "measure (\<lambda>(inp, st). length inp)")
    (auto intro: fgets_length [of 4095, OF _ _ sym])

declare load_loop.simps [simp del]

definition config_load :: "(bytes \<times> bool) option \<Rightarrow> config option" where
  "config_load file =
     (case file of
        None \<Rightarrow> None
      | Some (body, err) \<Rightarrow>
          (case load_loop body \<lparr>root = Config (lit ''root'') [] [], cur = [], last_indent = 0\<rparr> of
             None \<Rightarrow> None
           | Some st \<Rightarrow> if err then None else Some (root st)))"

section \<open>Writing a file\<close>

definition save_line :: "nat \<Rightarrow> config \<Rightarrow> bytes" where
  "save_line depth c =
     replicate depth 9 @
     (if is_comment c then [35] @ c_str (cval c) @ [10]
      else c_str (ckey c) @ [58, 32] @ c_str (cval c) @ [10])"

fun save_lines :: "nat \<Rightarrow> config \<Rightarrow> bytes list" where
  "save_lines depth (Config k v cs) =
     concat (map (\<lambda>c. save_line depth c # save_lines (depth + 1) c) cs)"

definition config_save :: "config \<Rightarrow> bytes" where
  "config_save conf = concat (save_lines 0 conf)"

text \<open>
  \<open>save\<close> to a file: \<open>opened\<close> is whether it can be opened. The text goes to the standard streams
  when the file has their name; nothing looks at the results of the writes.
\<close>

definition config_save_file :: "bytes \<Rightarrow> bool \<Rightarrow> config \<Rightarrow> int \<times> bytes option" where
  "config_save_file filename opened conf =
     (if filename = lit ''stdout'' then (0, Some (config_save conf))
      else if filename = lit ''stderr'' then (0, Some (config_save conf))
      else if \<not> opened then (-1, None)
      else (0, Some (config_save conf)))"


section \<open>The tree as a map\<close>

lemma last_index_keys:
  assumes "map ckey cs = map ckey ds"
  shows "last_index k cs = last_index k ds"
proof -
  have "length cs = length ds" using assms by (rule map_eq_imp_length_eq)
  then show ?thesis using assms by (induction rule: list_induct2) simp_all
qed

lemma last_index_Some: "last_index k cs = Some i \<Longrightarrow> i < length cs \<and> ckey (cs ! i) = k"
  by (induction cs arbitrary: i) (auto split: option.splits if_splits)

lemma last_index_nth:
  "length cs \<le> length ds \<Longrightarrow> (\<And>i. i < length cs \<Longrightarrow> last_index k cs = Some i \<Longrightarrow> cs ! i = ds ! i) \<Longrightarrow>
     map_option ((!) cs) (last_index k cs) = map_option ((!) ds) (last_index k cs)"
  using last_index_Some [of k cs] by (cases "last_index k cs") auto

lemma last_index_append:
  "last_index k (cs @ [c]) = (if ckey c = k then Some (length cs) else last_index k cs)"
  by (induction cs) (auto split: option.split)

lemma find_child_upd:
  assumes "last_index f (children c) = Some i" "\<And>x. ckey (g x) = ckey x"
  shows "find_child h (upd_child i g c) =
    (if h = f then map_option g (find_child f c) else find_child h c)"
proof -
  have "map ckey ((children c)[i := g (children c ! i)]) = map ckey (children c)"
    using assms(2) by (simp add: map_update list_update_same_conv last_index_Some [OF assms(1)])
  from last_index_keys [OF this]
  have idx: "last_index k ((children c)[i := g (children c ! i)]) = last_index k (children c)" for k .
  have "last_index h (children c) = Some j \<Longrightarrow> j = i \<longleftrightarrow> h = f" for j
    using assms(1) last_index_Some [of h _ j] last_index_Some [of f _ i] by auto
  then show ?thesis
    using last_index_Some [of h "children c"] assms(1)
    by (cases "last_index h (children c)")
      (auto simp: find_child_def idx upd_child_def nth_list_update)
qed

lemma c_str_ok [simp]: "c_str [] = []" "c_str (c_str s) = c_str s" "0 \<notin> set (c_str s)"
  by (auto simp: c_str_def dest: set_takeWhileD)

lemma find_child_new:
  assumes "child_or_new f c = (c', i)" "0 \<notin> set f"
  shows "last_index f (children c') = Some i" "h \<noteq> f \<Longrightarrow> find_child h c' = find_child h c"
    "find_child f c' = Some (case find_child f c of None \<Rightarrow> Config f [] [] | Some x \<Rightarrow> x)"
    "ckey c' = ckey c"
  using assms last_index_nth [of "children c" "children c @ [Config f [] []]" h]
  by (auto simp: child_or_new_def find_child_def add_child_def last_index_append c_str_id nth_append
      split: option.splits)

text \<open>The fields of a path, and the two walks down the tree along them.\<close>

fun path_fields :: "bytes \<Rightarrow> bytes \<Rightarrow> bytes list" where
  "path_fields f [] = [f]"
| "path_fields f (ch # rest) =
     (if is_path_sep ch then f # path_fields [] rest else path_fields (f @ [ch]) rest)"

definition key_fields :: "bytes \<Rightarrow> bytes list" where
  "key_fields key = path_fields [] (path_buf key)"

fun walk_fields :: "bytes list \<Rightarrow> config \<Rightarrow> config option" where
  "walk_fields [] c = Some c"
| "walk_fields (f # fs) c = (case find_child f c of None \<Rightarrow> None | Some c' \<Rightarrow> walk_fields fs c')"

fun build_fields :: "bytes list \<Rightarrow> (config \<Rightarrow> config) \<Rightarrow> config \<Rightarrow> config" where
  "build_fields [] g c = g c"
| "build_fields (f # fs) g c =
     (let (c', i) = child_or_new f c in upd_child i (build_fields fs g) c')"

lemma config_walk_fields: "config_walk f rest c = walk_fields (path_fields f rest) c"
  by (induction f rest c rule: config_walk.induct) (auto split: option.splits)

lemma build_key_path_fields: "build_key_path f rest g c = build_fields (path_fields f rest) g c"
  by (induction f rest g c rule: build_key_path.induct) (auto simp: upd_child_def split: prod.splits)

lemma path_fields_chars: "x \<in> set (path_fields f rest) \<Longrightarrow> set x \<subseteq> set f \<union> set rest"
  by (induction f rest rule: path_fields.induct) (fastforce split: if_splits)+

lemma key_fields_chars: "f \<in> set (key_fields key) \<Longrightarrow> 0 \<notin> set f"
  using path_fields_chars [of f "[]" "path_buf key"] c_str_ok(3) [of key]
    set_take_subset [of 4095 "c_str key"]
  by (auto simp: key_fields_def path_buf_def)

lemma build_fields_key: "fs \<noteq> [] \<Longrightarrow> ckey (build_fields fs g c) = ckey c"
  by (cases fs) (auto simp: upd_child_def child_or_new_def add_child_def split: prod.splits option.splits)

definition val_at :: "bytes list \<Rightarrow> config \<Rightarrow> bytes" where
  "val_at fs c = (case walk_fields fs c of None \<Rightarrow> [] | Some c' \<Rightarrow> c_str (cval c'))"

lemma val_at_Cons:
  "val_at (f # fs) c = (case find_child f c of None \<Rightarrow> [] | Some c' \<Rightarrow> val_at fs c')"
  by (simp add: val_at_def split: option.split)

lemma val_at_fresh: "val_at fs (Config k [] []) = []"
  by (cases fs) (simp_all add: val_at_def find_child_def c_str_def)

lemma val_at_build:
  assumes "\<forall>f \<in> set gs. 0 \<notin> set f" and g: "\<And>x. ckey (g x) = ckey x"
    and v: "\<And>x. c_str (cval (g x)) = v" "\<And>x. children (g x) = children x"
  shows "val_at fs (build_fields gs g c) = (if fs = gs then v else val_at fs c)"
  using assms(1)
proof (induction gs arbitrary: fs c)
  case Nil
  then show ?case
    using v by (cases fs) (simp_all add: val_at_Cons find_child_def, simp add: val_at_def)
next
  case (Cons h gs)
  obtain c' i where new: "child_or_new h c = (c', i)" by fastforce
  have h: "0 \<notin> set h" using Cons.prems by simp
  note nc = find_child_new [OF new h]
  have k: "ckey (build_fields gs g x) = ckey x" for x
    using build_fields_key [of gs] g by (cases gs) auto
  show ?case
  proof (cases fs)
    case Nil
    then show ?thesis
      using new by (auto simp: val_at_def upd_child_def child_or_new_def add_child_def split: option.splits)
  next
    case (Cons f fs')
    have "find_child f (build_fields (h # gs) g c) =
        (if f = h then map_option (build_fields gs g) (find_child h c') else find_child f c')"
      by (simp add: new find_child_upd [OF nc(1) k])
    then show ?thesis
      unfolding Cons using Cons.IH [of fs'] Cons.prems nc(2,3)
      by (auto simp: val_at_Cons val_at_fresh split: option.split)
  qed
qed

lemma get_str_val_at: "get_str key c = val_at (key_fields key) c"
  by (simp add: get_str_def config_get_def config_walk_fields val_at_def key_fields_def)


lemma atoi_Nil: "atoi [] = 0"
  by code_simp

lemma get_num_val_at: "get_num key c = atoi (val_at (key_fields key) c)"
  by (simp add: get_num_def config_num_def config_get_def config_walk_fields val_at_def
      key_fields_def atoi_Nil split: option.split)

lemma config_set_val_at:
  "val_at fs (config_set key val conf) = (if fs = key_fields key then c_str val else val_at fs conf)"
  unfolding config_set_def build_key_path_fields key_fields_def [symmetric]
  by (rule val_at_build) (simp_all add: key_fields_chars)

section \<open>Round trip of the text format\<close>

text \<open>
  The trees the format can express: no comments, keys without separators and not beginning like
  a comment, keys and values without surrounding white space, newlines or zeros, and every line
  within the buffer.
\<close>

definition trimmed :: "bytes \<Rightarrow> bool" where
  "trimmed s \<longleftrightarrow> s = [] \<or> \<not> isspace (hd s) \<and> \<not> isspace (last s)"

definition text_ok :: "bytes \<Rightarrow> bool" where
  "text_ok s \<longleftrightarrow> 0 \<notin> set s \<and> 10 \<notin> set s \<and> trimmed s"

fun config_ok :: "nat \<Rightarrow> config \<Rightarrow> bool" where
  "config_ok depth (Config k v cs) \<longleftrightarrow>
     text_ok k \<and> text_ok v \<and> (\<forall>c \<in> set k. \<not> is_kv_separator c) \<and> (k = [] \<or> hd k \<noteq> 35) \<and>
     depth + length k + length v + 3 < CONFIG_MAX_LINE \<and> list_all (config_ok (depth + 1)) cs"

lemma trim_trimmed: "0 \<notin> set s \<Longrightarrow> trimmed s \<Longrightarrow> trim s = s"
proof -
  have drop: "dropWhile isspace x = x" if "x \<noteq> [] \<longrightarrow> \<not> isspace (hd x)" for x
    using that by (cases x) simp_all
  assume "0 \<notin> set s" "trimmed s"
  then show ?thesis
    using drop [of s] drop [of "rev s"]
    by (auto simp: trim_def ltrim_def rtrim_def c_str_id trimmed_def hd_rev)
qed

lemma trim_space: "0 \<notin> set s \<Longrightarrow> trimmed s \<Longrightarrow> trim (32 # s) = s"
proof -
  assume s: "0 \<notin> set s" "trimmed s"
  have "ltrim (32 # s) = ltrim s" by (simp add: ltrim_def c_str_def isspace_def)
  then show ?thesis using trim_trimmed [OF s] by (simp add: trim_def)
qed

lemma c_str_append_id: "0 \<notin> set s \<Longrightarrow> c_str (s @ [10]) = s @ [10]"
  by (rule c_str_id) simp

definition forest :: "config list \<Rightarrow> config \<Rightarrow> config" where
  "forest cs c = Config (ckey c) (cval c) (children c @ cs)"

text \<open>The place \<open>p\<close> is where an item with indent \<open>d\<close> goes.\<close>

definition ready :: "nat list \<Rightarrow> nat \<Rightarrow> load_state \<Rightarrow> bool" where
  "ready p d st \<longleftrightarrow> d \<le> last_indent st + 1 \<and>
     p = (if d \<le> last_indent st then climb (last_indent st + 1 - d) (cur st) else cur st) \<and>
     node_at p (root st) \<noteq> None"

lemma takeWhile_indent:
  "x \<noteq> [] \<Longrightarrow> hd x \<noteq> 9 \<Longrightarrow> takeWhile (\<lambda>c. c = 9) (replicate d (9 :: u8) @ x) = replicate d 9"
  by (cases x) (simp_all add: takeWhile_append)

lemma load_line_save:
  assumes ok: "config_ok d (Config k v cs)" and p: "ready p d st"
    and n: "node_at p (root st) = Some c"
  shows "load_line (save_line d (Config k v cs)) st =
    Some \<lparr>root = upd_at p (forest [Config k v []]) (root st), cur = p @ [length (children c)],
          last_indent = d\<rparr>"
proof -
  let ?x = "k @ [58, 32] @ v" and ?buf = "replicate d 9 @ k @ [58, 32] @ v"
  have kv: "0 \<notin> set k" "0 \<notin> set v" "trimmed k" "trimmed v"
    using ok by (simp_all add: text_ok_def)
  have hd: "hd ?x \<noteq> 35" "\<not> isspace (hd ?x)"
    using ok kv(3) by (cases k; simp add: trimmed_def isspace_def)+
  then have hd9: "hd ?x \<noteq> 9" by (auto simp: isspace_def)
  have line: "butlast (c_str (save_line d (Config k v cs))) = ?buf"
    using kv ok by (cases k) (simp_all add: save_line_def is_comment_def c_str_id butlast_append)
  have buf0: "c_str ?buf = ?buf" using kv by (intro c_str_id) auto
  have ne: "\<not> is_empty_str ?buf"
  proof -
    have "hd ?x \<in> set ?buf" by (cases k) simp_all
    with hd(2) show ?thesis unfolding is_empty_str_def buf0 dropWhile_eq_Nil_conv by blast
  qed
  have ind: "length (takeWhile (\<lambda>c. c = 9) ?buf) = d"
    using takeWhile_indent [OF _ hd9] by simp
  have sep: "takeWhile (\<lambda>c. \<not> is_kv_separator c) ?x = k"
    "dropWhile (\<lambda>c. \<not> is_kv_separator c) ?x = 58 # 32 # v"
    using ok by (simp_all add: takeWhile_append dropWhile_append is_kv_separator_def)
  have add: "add_child k v = forest [Config k v []]"
    using kv by (simp add: fun_eq_iff add_child_def forest_def c_str_id)
  have "d \<le> last_indent st + 1" "(if d \<le> last_indent st then climb (last_indent st + 1 - d) (cur st)
      else cur st) = p" using p by (auto simp: ready_def)
  then show ?thesis
    unfolding load_line_def line Let_def ind
    using ne hd n sep by (simp add: trim_trimmed [OF kv(1,3)] trim_space [OF kv(2,4)] add)
qed

lemma climb_Suc: "climb (Suc n) p = (let q = climb n p in if q = [] then [] else butlast q)"
  by (induction n arbitrary: p) (simp_all add: Let_def split: if_splits)

lemma climb_snoc [simp]: "climb (Suc n) (p @ [i]) = climb n p"
  by simp

lemma ready_parent:
  assumes "ready (p @ [i]) (d + 1) st" "node_at p (root st) \<noteq> None"
  shows "ready p d st"
proof -
  have "climb (Suc n) q = p" if "climb n q = p @ [i]" for n q
    unfolding climb_Suc that by simp
  from this [of "last_indent st - d" "cur st"] this [of 0 "cur st"] assms show ?thesis
    by (auto simp: ready_def Suc_diff_le le_Suc_eq split: if_splits)
qed

lemma node_at_upd:
  "node_at (p @ q) (upd_at p g c) = (case node_at p c of None \<Rightarrow> None | Some x \<Rightarrow> node_at q (g x))"
  by (induction p arbitrary: c) (auto simp: upd_child_def)

lemma node_at_append: "node_at (p @ q) c = (case node_at p c of None \<Rightarrow> None | Some x \<Rightarrow> node_at q x)"
  by (induction p arbitrary: c) auto

lemma upd_at_append: "upd_at (p @ q) g c = upd_at p (upd_at q g) c"
  by (induction p arbitrary: c) (auto simp: upd_child_def)

lemma upd_at_upd_at: "upd_at p f (upd_at p g c) = upd_at p (\<lambda>x. f (g x)) c"
proof (induction p arbitrary: c)
  case (Cons i p)
  then show ?case
    by (cases "i < length (children c)") (simp_all add: upd_child_def list_update_beyond)
qed simp

lemma upd_at_cong: "node_at p c = Some x \<Longrightarrow> f x = g x \<Longrightarrow> upd_at p f c = upd_at p g c"
  by (induction p arbitrary: c) (auto simp: upd_child_def split: if_splits)

text \<open>Feeding lines to the loop.\<close>

fun feed :: "bytes list \<Rightarrow> load_state \<Rightarrow> load_state option" where
  "feed [] st = Some st"
| "feed (l # ls) st = (case load_line l st of None \<Rightarrow> None | Some st' \<Rightarrow> feed ls st')"

lemma feed_append:
  "feed (ls @ ms) st = (case feed ls st of None \<Rightarrow> None | Some st' \<Rightarrow> feed ms st')"
  by (induction ls arbitrary: st) (auto split: option.split)

lemma feed_forest:
  assumes "list_all (config_ok d) cs" "ready p d st" "node_at p (root st) = Some c"
  shows "\<exists>st'. feed (concat (map (\<lambda>c. save_line d c # save_lines (d + 1) c) cs)) st = Some st' \<and>
    root st' = upd_at p (forest cs) (root st) \<and> ready p d st'"
  using assms
proof (induction "size_list size cs" arbitrary: cs d p st c rule: less_induct)
  case less
  show ?case
  proof (cases cs)
    case Nil
    have "forest [] = (\<lambda>c. c)" by (simp add: forest_def fun_eq_iff)
    moreover have "upd_at p (\<lambda>c. c) x = x" for x
      by (induction p arbitrary: x) (simp_all add: upd_child_def)
    ultimately show ?thesis using Nil less.prems by simp
  next
    case (Cons x xs)
    obtain k v ks where x: "x = Config k v ks" by (cases x)
    let ?n = "length (children c)"
    let ?st1 = "\<lparr>root = upd_at p (forest [Config k v []]) (root st), cur = p @ [?n], last_indent = d\<rparr>"
    have ok: "config_ok d (Config k v ks)" "list_all (config_ok d) xs"
      using less.prems(1) by (simp_all add: Cons x)
    have l: "load_line (save_line d x) st = Some ?st1"
      unfolding x by (rule load_line_save) (use ok less.prems in auto)
    have n1: "node_at (p @ [?n]) (root ?st1) = Some (Config k v [])"
      using less.prems(3) by (simp add: node_at_upd forest_def)
    have "ready (p @ [?n]) (d + 1) ?st1" using n1 by (simp add: ready_def)
    from less.hyps [OF _ _ this n1, of ks] ok obtain st2 where st2:
      "feed (concat (map (\<lambda>c. save_line (d + 1) c # save_lines (d + 2) c) ks)) ?st1 = Some st2"
      "root st2 = upd_at (p @ [?n]) (forest ks) (root ?st1)" "ready (p @ [?n]) (d + 1) st2"
      unfolding Cons x by auto
    have r2: "root st2 = upd_at p (forest [x]) (root st)"
      unfolding st2(2) upd_at_append
      by (simp add: upd_at_upd_at)
        (rule upd_at_cong [OF less.prems(3)], simp add: forest_def upd_child_def x)
    have n2: "node_at p (root st2) = Some (forest [x] c)"
      using node_at_upd [of p "[]" "forest [x]" "root st"] less.prems(3) by (simp add: r2)
    have "ready p d st2" using ready_parent [OF st2(3)] n2 by simp
    from less.hyps [OF _ ok(2) this n2] obtain st3 where st3:
      "feed (concat (map (\<lambda>c. save_line d c # save_lines (d + 1) c) xs)) st2 = Some st3"
      "root st3 = upd_at p (forest xs) (root st2)" "ready p d st3"
      unfolding Cons by auto
    have "root st3 = upd_at p (forest cs) (root st)"
      unfolding st3(2) r2 upd_at_upd_at by (simp add: forest_def [abs_def] Cons)
    moreover have "feed (concat (map (\<lambda>c. save_line d c # save_lines (d + 1) c) cs)) st = Some st3"
      using l st2(1) st3(1) by (simp add: Cons x feed_append)
    ultimately show ?thesis using st3(3) by blast
  qed
qed


lemma fgets_line:
  "10 \<notin> set l \<Longrightarrow> length l < n \<Longrightarrow> fgets n (l @ 10 # r) = (l @ [10], r)"
proof (induction l arbitrary: n)
  case Nil
  then show ?case by (cases n) simp_all
next
  case (Cons x l)
  then show ?case by (cases n) auto
qed

definition line_ok :: "bytes \<Rightarrow> bool" where
  "line_ok l \<longleftrightarrow> (\<exists>x. l = x @ [10] \<and> 10 \<notin> set x \<and> length x < CONFIG_MAX_LINE - 1)"

lemma load_loop_feed:
  "list_all line_ok ls \<Longrightarrow> load_loop (concat ls) st = feed ls st"
proof (induction ls arbitrary: st)
  case Nil
  then show ?case by (simp add: load_loop.simps)
next
  case (Cons l ls)
  then obtain x where x: "l = x @ [10]" "10 \<notin> set x" "length x < 4095" by (auto simp: line_ok_def)
  with Cons show ?case
    by (subst load_loop.simps) (simp add: fgets_line split: option.split)
qed

lemma save_line_ok: "config_ok d c \<Longrightarrow> line_ok (save_line d c)"
  by (cases c)
    (auto simp: line_ok_def save_line_def is_comment_def text_ok_def c_str_id)

lemma save_lines_ok: "list_all (config_ok d) (children c) \<Longrightarrow> list_all line_ok (save_lines d c)"
proof (induction c arbitrary: d)
  case (Config k v cs)
  have "list_all line_ok (save_line d x # save_lines (d + 1) x)" if "x \<in> set cs" for x
  proof -
    have ok: "config_ok d x" using Config.prems that by (simp add: list_all_iff)
    then have "list_all (config_ok (d + 1)) (children x)" by (cases x) simp
    from save_line_ok [OF ok] Config.IH [OF that this] show ?thesis by simp
  qed
  then show ?case by (auto simp: list_all_iff)
qed

section \<open>The server options\<close>

text \<open>
  \<open>size_t\<close> fields are 64-bit words; a negative number from the file is converted to one, so that
  the tests \<open><= 0\<close> of the code hold for zero alone. The default capacity of the log depends on
  the macro \<open>NDEBUG\<close>.
\<close>

record options =
  cache_size :: u64
  max_open_files :: u64
  write_buffer_size :: u64
  block_size :: u64
  compaction_speed :: int
  compression :: bytes
  binlog :: bool
  binlog_capacity :: u64

definition LOG_QUEUE_SIZE :: "bool \<Rightarrow> u64" where
  "LOG_QUEUE_SIZE ndebug = (if ndebug then 20 * 1000 * 1000 else 10000)"

definition options_load :: "bool \<Rightarrow> config \<Rightarrow> options" where
  "options_load ndebug conf =
     (let size = (\<lambda>key. word_of_int (get_num (lit key) conf) :: u64);
          cache = size ''leveldb.cache_size'';
          files = size ''leveldb.max_open_files'';
          wbuf = size ''leveldb.write_buffer_size'';
          block = size ''leveldb.block_size'';
          speed = get_num (lit ''leveldb.compaction_speed'') conf;
          compr = strtolower (get_str (lit ''leveldb.compression'') conf);
          compr = (if compr \<noteq> lit ''no'' then lit ''yes'' else compr);
          log = strtolower (get_str (lit ''replication.binlog'') conf);
          log = (log = lit ''yes'');
          cap = size ''replication.binlog.capacity'';
          cap = (if cap \<le> 0 then LOG_QUEUE_SIZE ndebug else cap);
          cache = (if cache \<le> 0 then 16 else cache);
          wbuf = (if wbuf \<le> 0 then 16 else wbuf);
          block = (if block \<le> 0 then 32 else block);
          files = (if files \<le> 0
                   then let n = cache div 1024 * 300;
                            n = (if n < 500 then 500 else n)
                        in if n > 1000 then 1000 else n
                   else files)
      in \<lparr>cache_size = cache, max_open_files = files, write_buffer_size = wbuf, block_size = block,
          compaction_speed = speed, compression = compr, binlog = log, binlog_capacity = cap\<rparr>)"

definition options_new :: "bool \<Rightarrow> options" where
  "options_new ndebug = options_load ndebug (Config [] [] [])"

section \<open>Correctness\<close>

text \<open>
  The configuration is a map from paths of keys to strings: after \<open>set\<close>, the path reads as
  the new value and every other path reads as before, where \<open>.\<close> and \<open>/\<close> separate fields alike.
\<close>

lemma config_set_get:
  "get_str key' (config_set key val conf) =
     (if key_fields key' = key_fields key then c_str val else get_str key' conf)"
  unfolding get_str_val_at by (rule config_set_val_at)

text \<open>
  C31: a comment-free configuration whose keys and values the format can express is read back
  from the text that \<open>save\<close> writes, nested to any depth.
\<close>

theorem config_save_load:
  assumes "list_all (config_ok 0) cs"
  shows "config_load (Some (config_save (Config k v cs), False)) = Some (Config (lit ''root'') [] cs)"
proof -
  let ?st = "\<lparr>root = Config (lit ''root'') [] [], cur = [], last_indent = 0\<rparr>"
  have "ready [] 0 ?st" by (simp add: ready_def)
  from feed_forest [OF assms this, of "root ?st"] obtain st' where
    "feed (save_lines 0 (Config k v cs)) ?st = Some st'" "root st' = forest cs (root ?st)"
    by auto
  moreover have "load_loop (config_save (Config k v cs)) ?st = feed (save_lines 0 (Config k v cs)) ?st"
    unfolding config_save_def by (rule load_loop_feed, rule save_lines_ok) (simp add: assms)
  ultimately show ?thesis by (simp add: config_load_def forest_def)
qed

lemma config_save_load_witness:
  "config_load (Some (config_save (Config [] [] [Config [97] [49] [Config [98] [] []], Config [99] [50] []]), False)) =
     Some (Config (lit ''root'') [] [Config [97] [49] [Config [98] [] []], Config [99] [50] []])"
  by (rule config_save_load) (simp add: text_ok_def trimmed_def isspace_def is_kv_separator_def)

text \<open>
  A file whose last line has no newline loses the last character of that line, because the
  loop cuts one character off every line it reads.
\<close>

theorem config_load_unterminated:
  assumes "config_ok 0 (Config k v [])" "x \<noteq> 0" "x \<noteq> 10"
  shows "config_load (Some (k @ [58, 32] @ v @ [x], False)) =
    Some (Config (lit ''root'') [] [Config k v []])"
proof -
  let ?st = "\<lparr>root = Config (lit ''root'') [] [], cur = [], last_indent = 0\<rparr>"
  let ?l = "k @ [58, 32] @ v @ [x]"
  have kv: "0 \<notin> set k" "0 \<notin> set v" "10 \<notin> set k" "10 \<notin> set v" "length ?l \<le> 4095"
    using assms(1) by (simp_all add: text_ok_def)
  have "fgets n s = (s, [])" if "10 \<notin> set s" "length s \<le> n" for n s
    using that by (induction n s rule: fgets.induct) auto
  then have f: "fgets 4095 ?l = (?l, [])" using kv assms(3) by (simp del: append.simps)
  have "butlast (c_str (save_line 0 (Config k v []))) = butlast (c_str ?l)"
    using kv assms by (cases k) (simp_all add: save_line_def is_comment_def c_str_id butlast_append)
  then have "load_line ?l ?st = load_line (save_line 0 (Config k v [])) ?st"
    unfolding load_line_def by (simp only:)
  moreover have "ready [] 0 ?st" by (simp add: ready_def)
  ultimately have "load_line ?l ?st = Some \<lparr>root = Config (lit ''root'') [] [Config k v []],
      cur = [0], last_indent = 0\<rparr>"
    using load_line_save [OF assms(1), of "[]" ?st "root ?st"] by (simp add: forest_def)
  moreover have "?l \<noteq> []" by simp
  ultimately have "load_loop ?l ?st = Some \<lparr>root = Config (lit ''root'') [] [Config k v []],
      cur = [0], last_indent = 0\<rparr>"
    using f by (subst load_loop.simps) (simp add: load_loop.simps del: append.simps)
  then show ?thesis by (simp add: config_load_def)
qed

lemma config_load_unterminated_witness:
  "config_load (Some (lit ''port: 8888'', False)) = Some (Config (lit ''root'') [] [Config (lit ''port'') (lit ''888'') []])"
proof -
  have "lit ''port: 8888'' = lit ''port'' @ [58, 32] @ lit ''888'' @ [56]" by (simp add: lit_def)
  then show ?thesis
    using config_load_unterminated [of "lit ''port''" "lit ''888''" 56]
    by (simp add: text_ok_def trimmed_def isspace_def is_kv_separator_def lit_def)
qed

text \<open>
  The options keep what the code checks, whatever the file says: sizes are not zero, the
  number of open files is set, the compression is yes or no. A negative size passes the checks as
  a huge one. Without a file, the log is off and the other options have their defaults.
\<close>

lemma options_bounds:
  "cache_size (options_load nd conf) \<noteq> 0 \<and> write_buffer_size (options_load nd conf) \<noteq> 0 \<and>
   block_size (options_load nd conf) \<noteq> 0 \<and> binlog_capacity (options_load nd conf) \<noteq> 0 \<and>
   max_open_files (options_load nd conf) \<noteq> 0 \<and>
   compression (options_load nd conf) \<in> {lit ''yes'', lit ''no''} \<and>
   cache_size (options_load nd (config_set (lit ''leveldb.cache_size'') (lit ''-1'') conf)) = - 1 \<and>
   options_new nd = \<lparr>cache_size = 16, max_open_files = 500, write_buffer_size = 16,
     block_size = 32, compaction_speed = 0, compression = lit ''yes'', binlog = False,
     binlog_capacity = LOG_QUEUE_SIZE nd\<rparr>"
proof (intro conjI)
  have "val_at fs (Config k [] []) = []" for fs k by (rule val_at_fresh)
  then have empty: "get_num x (Config [] [] []) = 0" "get_str x (Config [] [] []) = []" for x
    by (simp_all add: get_num_val_at get_str_val_at atoi_Nil)
  have "lit ''yes'' \<noteq> []" "lit ''no'' \<noteq> []" by (simp_all add: lit_def)
  then show "options_new nd = \<lparr>cache_size = 16, max_open_files = 500, write_buffer_size = 16,
     block_size = 32, compaction_speed = 0, compression = lit ''yes'', binlog = False,
     binlog_capacity = LOG_QUEUE_SIZE nd\<rparr>"
    by (simp add: options_new_def options_load_def empty strtolower_def)
  let ?key = "lit ''leveldb.cache_size''"
  have "c_str (lit ''-1'') = lit ''-1''" "atoi (lit ''-1'') = -1" by code_simp+
  then have "get_num ?key (config_set ?key (lit ''-1'') conf) = -1"
    by (simp add: get_num_val_at config_set_val_at)
  then show "cache_size (options_load nd (config_set ?key (lit ''-1'') conf)) = - 1"
    by (simp add: options_load_def Let_def)
qed (auto simp: options_load_def Let_def LOG_QUEUE_SIZE_def)

end
