(* ===== verification/Ssdb_Impl.thy ===== *)
theory Ssdb_Impl
  imports Containers Config
begin

text \<open>
  \<open>ssdb/ssdb/ssdb_impl.cpp\<close>: opening the server, emptying it, the raw operations on database keys
  and the questions about the whole database. (\<open>iterator\<close> and \<open>rev_iterator\<close> are in
  \<open>Ssdb_Iterator\<close>, the operations on the data types in their own theories.)

  What LevelDB computes about its files (\<open>DB::Open\<close>, \<open>GetApproximateSizes\<close>, \<open>GetProperty\<close>,
  \<open>CompactRange\<close>) is a parameter of the definitions that ask for it.
\<close>

section \<open>Operations\<close>

record ldb_options =
  ldb_max_file_size :: u64
  ldb_create_if_missing :: bool
  ldb_max_open_files :: int
  ldb_bloom_bits :: nat
  ldb_cache_bytes :: u64
  ldb_block_size :: u64
  ldb_write_buffer_size :: u64
  ldb_compaction_speed :: int
  ldb_snappy :: bool

definition ldb_options :: "options \<Rightarrow> ldb_options" where
  "ldb_options opt =
     \<lparr>ldb_max_file_size = 32 * 1048576,
      ldb_create_if_missing = True,
      ldb_max_open_files = wrap32 (uint (max_open_files opt)),
      ldb_bloom_bits = 10,
      ldb_cache_bytes = cache_size opt * 1048576,
      ldb_block_size = block_size opt * 1024,
      ldb_write_buffer_size = write_buffer_size opt * 1024 * 1024,
      ldb_compaction_speed = compaction_speed opt,
      ldb_snappy = (compression opt = lit ''yes'')\<rparr>"

text \<open>The capacity of the log is an \<open>int\<close> parameter of the queue.\<close>

definition ssdb_open ::
    "(ldb_options \<Rightarrow> bytes \<Rightarrow> ldb option) \<Rightarrow> options \<Rightarrow> bytes \<Rightarrow> ssdb option" where
  "ssdb_open db_open opt dir =
     (case db_open (ldb_options opt) dir of
        None \<Rightarrow> None
      | Some d \<Rightarrow> Some (bl_open d (binlog opt) (wrap32 (uint (binlog_capacity opt)))))"

text \<open>
  \<open>flushdb\<close> deletes in rounds of 10000 keys, each over an iterator of its own. The \<open>for\<close> loop of a
  round gives back its \<open>ret\<close> and \<open>stop\<close>.
\<close>

fun flush_round :: "nat \<Rightarrow> liter \<Rightarrow> ssdb \<Rightarrow> (int \<times> bool) \<times> ssdb" where
  "flush_round 0 l s = ((0, False), s)"
| "flush_round (Suc n) l s =
     (if \<not> valid l then ((0, True), s)
      else let (ok, d) = ldb_delete (lkey l) (db s); s' = s\<lparr>db := d\<rparr>
           in if \<not> ok then ((-1, True), s') else flush_round n (lnext l) s')"

partial_function (option) flush_loop :: "ssdb \<Rightarrow> (int \<times> ssdb) option" where
  "flush_loop s =
     (case flush_round 10000 (seek_first (liter_new (db s))) s of
        ((ret, stop), s') \<Rightarrow> if stop then Some (ret, s') else flush_loop s')"

text \<open>The deletions happen in the scope of a transaction that stays empty; then the log is flushed.\<close>

definition flushdb :: "ssdb \<Rightarrow> (int \<times> ssdb) option" where
  "flushdb s =
     (case flush_loop (bl_begin s) of
        None \<Rightarrow> None
      | Some (ret, s') \<Rightarrow>
          (case bl_flush (bl_rollback s') of None \<Rightarrow> None | Some s'' \<Rightarrow> Some (ret, s'')))"

definition raw_set :: "bytes \<Rightarrow> bytes \<Rightarrow> ssdb \<Rightarrow> int \<times> ssdb" where
  "raw_set key val s =
     (let (ok, d) = ldb_put key val (db s) in (if \<not> ok then -1 else 1, s\<lparr>db := d\<rparr>))"

definition raw_del :: "bytes \<Rightarrow> ssdb \<Rightarrow> int \<times> ssdb" where
  "raw_del key s =
     (let (ok, d) = ldb_delete key (db s) in (if \<not> ok then -1 else 1, s\<lparr>db := d\<rparr>))"

definition raw_get :: "ssdb \<Rightarrow> bytes \<Rightarrow> int \<times> bytes option" where
  "raw_get s key =
     (case ldb_get (db s) key of
        NotFound \<Rightarrow> (0, None) | GetError \<Rightarrow> (-1, None) | Found val \<Rightarrow> (1, Some val))"

definition ssdb_size :: "(ldb \<Rightarrow> bytes \<Rightarrow> bytes \<Rightarrow> u64) \<Rightarrow> ssdb \<Rightarrow> u64" where
  "ssdb_size approximate_size s = approximate_size (db s) (lit ''A'') [122 + 1]"

definition ssdb_info :: "(ldb \<Rightarrow> bytes \<Rightarrow> bytes option) \<Rightarrow> ssdb \<Rightarrow> bytes list" where
  "ssdb_info get_property s =
     concat (map (\<lambda>key. case get_property (db s) key of None \<Rightarrow> [] | Some val \<Rightarrow> [key, val])
       [lit ''leveldb.stats''])"

definition ssdb_compact :: "(ldb \<Rightarrow> bytes option \<Rightarrow> bytes option \<Rightarrow> ldb) \<Rightarrow> ssdb \<Rightarrow> ssdb" where
  "ssdb_compact compact_range s = s\<lparr>db := compact_range (db s) None None\<rparr>"

text \<open>
  \<open>key_range\<close> asks eight times for the neighbour of a bound: once from the bound up or down, and
  the key it finds counts if it has the type asked for. A name that was not found is the empty
  string; a key that does not decode makes the result -1.
\<close>

definition edge_name :: "u8 \<Rightarrow> (bytes \<Rightarrow> bytes option) \<Rightarrow> iter \<Rightarrow> int \<times> bytes" where
  "edge_name type decode i =
     (let (b, i') = iter_next i in
      if b then
        let ks = iter_key i' in
        if key_type ks = type then (case decode ks of None \<Rightarrow> (-1, []) | Some n \<Rightarrow> (0, n))
        else (0, [])
      else (0, []))"

definition key_range :: "ssdb \<Rightarrow> int \<times> bytes list" where
  "key_range s =
     (let es =
        [edge_name DT_KV decode_kv_key (ssdb_iterator s (encode_kv_key []) [] 1),
         edge_name DT_KV decode_kv_key (ssdb_rev_iterator s (encode_kv_key [255]) [] 1),
         edge_name DT_HSIZE decode_hsize_key (ssdb_iterator s (encode_hsize_key []) [] 1),
         edge_name DT_HSIZE decode_hsize_key (ssdb_rev_iterator s (encode_hsize_key [255]) [] 1),
         edge_name DT_ZSIZE decode_zsize_key (ssdb_iterator s (encode_zsize_key []) [] 1),
         edge_name DT_ZSIZE decode_zsize_key (ssdb_rev_iterator s (encode_zsize_key [255]) [] 1),
         edge_name DT_QSIZE decode_qsize_key (ssdb_iterator s (encode_qsize_key []) [] 1),
         edge_name DT_QSIZE decode_qsize_key (ssdb_rev_iterator s (encode_qsize_key [255]) [] 1)]
      in (if \<exists>e \<in> set es. fst e = -1 then -1 else 0, map snd es))"


section \<open>Emptying the database\<close>

lemma ldb_delete_result:
  assumes "ldb_delete k d = (ok, d')"
  shows "ok \<Longrightarrow> tbl d' = tdel k (tbl d)" "\<not> ok \<Longrightarrow> tbl d' = tbl d \<and> wfaults d \<noteq> []"
    "wfaults d = [] \<Longrightarrow> wfaults d' = []"
  using assms
  by (auto simp: ldb_delete_def ldb_write_def tbatch_def split: list.splits bool.splits)

lemma set_tdel: "set (tdel k t) = {e \<in> set t. fst e \<noteq> k}"
  by (auto simp: tdel_def)

text \<open>A round deletes the next keys of its iterator, or stops.\<close>

lemma flush_round_spec:
  assumes "liter_ok l" "flush_round n l s = ((ret, stop), s')"
  shows "s\<lparr>db := db s'\<rparr> = s' \<and> set (tbl (db s')) \<subseteq> set (tbl (db s)) \<and>
    (wfaults (db s) = [] \<longrightarrow> wfaults (db s') = []) \<and>
    (ret = 0 \<and> fst ` set (take n (ahead l)) \<inter> fst ` set (tbl (db s')) = {} \<and>
       (stop \<longrightarrow> length (ahead l) \<le> n) \<and> (0 < n \<and> ahead l = [] \<longrightarrow> stop) \<or>
     ret = -1 \<and> stop \<and> wfaults (db s) \<noteq> [])"
  using assms
proof (induction n arbitrary: l s)
  case (Suc n)
  show ?case
  proof (cases "valid l")
    case False
    with Suc.prems ahead_props(1) [of l] show ?thesis by auto
  next
    case True
    then obtain e es where ah: "ahead l = e # es" and k: "lkey l = fst e"
      using ahead_props(1,2) [OF Suc.prems(1)] by (cases "ahead l") (auto simp: prod_eq_iff)
    obtain ok d where w: "ldb_delete (lkey l) (db s) = (ok, d)" by fastforce
    note d = ldb_delete_result [OF w]
    show ?thesis
    proof (cases ok)
      case False
      then show ?thesis using True Suc.prems(2) w d(2) by auto
    next
      case ok: True
      have "flush_round n (lnext l) (s\<lparr>db := d\<rparr>) = ((ret, stop), s')" "liter_ok (lnext l)"
        using True Suc.prems w ok by simp_all
      from Suc.IH [OF this(2,1)] have IH: "s\<lparr>db := db s'\<rparr> = s'" "set (tbl (db s')) \<subseteq> set (tbl d)"
        "wfaults d = [] \<longrightarrow> wfaults (db s') = []"
        "ret = 0 \<and> fst ` set (take n es) \<inter> fst ` set (tbl (db s')) = {} \<and> (stop \<longrightarrow> length es \<le> n) \<or>
         ret = -1 \<and> stop \<and> wfaults d \<noteq> []"
        by (auto simp: ahead_props(3) [OF Suc.prems(1)] ah)
      moreover have t: "set (tbl d) = {x \<in> set (tbl (db s)). fst x \<noteq> fst e}"
        using d(1) [OF ok] by (simp add: set_tdel k)
      ultimately have "fst e \<notin> fst ` set (tbl (db s'))" "set (tbl (db s')) \<subseteq> set (tbl (db s))" by auto
      with IH d(3) show ?thesis by (auto simp: ah)
    qed
  qed
qed auto

lemma flush_loop_total:
  "\<exists>ret s'. flush_loop s = Some (ret, s') \<and> s\<lparr>db := db s'\<rparr> = s' \<and>
     set (tbl (db s')) \<subseteq> set (tbl (db s)) \<and>
     (ret = 0 \<and> tbl (db s') = [] \<or> ret = -1 \<and> wfaults (db s) \<noteq> [])"
proof (induction "card (set (tbl (db s)))" arbitrary: s rule: less_induct)
  case less
  let ?l = "seek_first (liter_new (db s))"
  obtain ret stop s1 where r: "flush_round 10000 ?l s = ((ret, stop), s1)" by (metis prod.exhaust)
  have ah: "ahead ?l = tbl (db s)" by (simp add: ahead_seek_first)
  have ok: "liter_ok ?l" by simp
  note spec = flush_round_spec [OF ok r, unfolded ah]
  show ?case
  proof (cases stop)
    case True
    have "tbl (db s1) = []" if "ret = 0"
    proof -
      have "ret \<noteq> -1" using that by simp
      then have "length (tbl (db s)) \<le> 10000" "set (tbl (db s1)) \<subseteq> set (tbl (db s))"
        and disj: "fst ` set (take 10000 (tbl (db s))) \<inter> fst ` set (tbl (db s1)) = {}"
        using spec True by blast+
      then have "fst ` set (tbl (db s1)) \<subseteq> fst ` set (take 10000 (tbl (db s)))" by (simp add: image_mono)
      with disj have "fst ` set (tbl (db s1)) = {}" by (simp add: Int_absorb1)
      then show ?thesis by simp
    qed
    moreover have "flush_loop s = Some (ret, s1)" using r True by (subst flush_loop.simps) simp
    ultimately show ?thesis using spec by blast
  next
    case False
    then have "tbl (db s) \<noteq> []" and ret: "ret = 0"
      and gone: "fst ` set (take 10000 (tbl (db s))) \<inter> fst ` set (tbl (db s1)) = {}"
      using spec by auto
    then obtain e es where t: "tbl (db s) = e # es" by (cases "tbl (db s)") auto
    then have "fst e \<in> fst ` set (take 10000 (tbl (db s)))" by simp
    with gone have "e \<notin> set (tbl (db s1))" by blast
    with spec have "set (tbl (db s1)) \<subset> set (tbl (db s))" by (auto simp: t)
    then have "card (set (tbl (db s1))) < card (set (tbl (db s)))" by (simp add: psubset_card_mono)
    from less [OF this] obtain ret' s' where IH: "flush_loop s1 = Some (ret', s')"
      "s1\<lparr>db := db s'\<rparr> = s'" "set (tbl (db s')) \<subseteq> set (tbl (db s1))"
      "ret' = 0 \<and> tbl (db s') = [] \<or> ret' = -1 \<and> wfaults (db s1) \<noteq> []" by blast
    have "flush_loop s = Some (ret', s')" using r False IH(1) by (subst flush_loop.simps) simp
    moreover have "s\<lparr>db := db s'\<rparr> = s'"
    proof -
      have "s\<lparr>db := db s1\<rparr> = s1" using spec by blast
      then have "s\<lparr>db := db s1\<rparr>\<lparr>db := db s'\<rparr> = s1\<lparr>db := db s'\<rparr>" by (rule arg_cong)
      with IH(2) show ?thesis by simp
    qed
    moreover have "set (tbl (db s')) \<subseteq> set (tbl (db s))" using IH(3) spec by (meson order_trans)
    moreover have "wfaults (db s1) \<noteq> [] \<longrightarrow> wfaults (db s) \<noteq> []" using spec by metis
    ultimately show ?thesis using IH(4) by metis
  qed
qed

lemma del_chunk_dels: "w \<in> set (fst (del_chunk n a b)) \<Longrightarrow> \<exists>k. w = WDel k"
  by (induction n a b rule: del_chunk.induct) (auto split: prod.splits if_splits)

lemma tbatch_dels: "\<forall>w \<in> set ops. \<exists>k. w = WDel k \<Longrightarrow> set (tbatch ops t) \<subseteq> set t"
  unfolding tbatch_def
proof (induction ops arbitrary: t)
  case (Cons w ops)
  then obtain k where "w = WDel k" by auto
  moreover have "set (fold tstep ops (tdel k t)) \<subseteq> set (tdel k t)" using Cons by simp
  ultimately show ?case by (auto simp: set_tdel)
qed simp

lemma del_range_subset:
  "del_range a b s = Some x \<Longrightarrow> set (tbl (db (snd x))) \<subseteq> set (tbl (db s))"
proof (induction rule: del_range.raw_induct [rotated, consumes 1])
  case (1 f a b s y)
  obtain ops a' where c: "del_chunk 1000 a b = (ops, a')" by fastforce
  obtain ok d where w: "ldb_write ops (db s) = (ok, d)" by fastforce
  have "set (tbl d) \<subseteq> set (tbl (db s))"
    using ldb_write_tbl [OF w] tbatch_dels [of ops] del_chunk_dels [of _ 1000 a b] c by auto
  moreover have "set (tbl (db (snd y))) \<subseteq> set (tbl d)" if "a \<le> b" ok
    using 1(1) [of a' b "s\<lparr>db := d\<rparr>" y] 1(2) c w that by simp
  ultimately show ?case using 1(2) c w by (cases "a \<le> b"; cases ok) auto
qed

text \<open>
  C12: \<open>flushdb\<close> returns unless the log has reached its largest number. It returns 0 with the
  whole database empty, the log included, or -1 if a write failed; either way nothing is added
  and the numbering of the log goes on where it was.
\<close>

theorem flushdb_empties:
  assumes "last_seq s \<noteq> - 1"
  shows "\<exists>ret s'. flushdb s = Some (ret, s') \<and> set (tbl (db s')) \<subseteq> set (tbl (db s)) \<and>
    last_seq s' = last_seq s \<and> min_seq s' = min_seq s \<and> tran_seq s' = 0 \<and>
    (ret = 0 \<and> tbl (db s') = [] \<or> ret = -1 \<and> wfaults (db s) \<noteq> [])"
proof -
  obtain ret s1 where l: "flush_loop (bl_begin s) = Some (ret, s1)" "(bl_begin s)\<lparr>db := db s1\<rparr> = s1"
    "set (tbl (db s1)) \<subseteq> set (tbl (db (bl_begin s)))"
    "ret = 0 \<and> tbl (db s1) = [] \<or> ret = -1 \<and> wfaults (db (bl_begin s)) \<noteq> []"
    using flush_loop_total [of "bl_begin s"] by blast
  define s2 where "s2 = bl_rollback s1"
  have frame: "last_seq s1 = last_seq s" "min_seq s1 = min_seq s"
    using arg_cong [OF l(2), of last_seq] arg_cong [OF l(2), of min_seq] by simp_all
  then have s2: "db s2 = db s1" "last_seq s2 = last_seq s" "min_seq s2 = min_seq s" "tran_seq s2 = 0"
    by (simp_all add: s2_def bl_rollback_def)
  obtain r s3 where d: "del_range (min_seq s2) (last_seq s2) s2 = Some (r, s3)" "s2\<lparr>db := db s3\<rparr> = s3"
    using del_range_total [of "last_seq s2" "min_seq s2" s2] assms s2(2) by metis
  have "flushdb s = Some (ret, s3)"
  proof -
    have "bl_flush s2 = Some s3" unfolding bl_flush_def d(1) by simp
    then show ?thesis by (simp add: flushdb_def l(1) flip: s2_def)
  qed
  moreover have "set (tbl (db s3)) \<subseteq> set (tbl (db s1))"
    using del_range_subset [OF d(1)] by (simp add: s2)
  moreover have "last_seq s3 = last_seq s" "min_seq s3 = min_seq s" "tran_seq s3 = 0"
    using arg_cong [OF d(2), of last_seq] arg_cong [OF d(2), of min_seq]
      arg_cong [OF d(2), of tran_seq] s2 by simp_all
  ultimately show ?thesis using l(3,4) by auto
qed

lemma flushdb_empties_witness:
  "\<exists>s'. flushdb one_log = Some (0, s') \<and> tbl (db s') = []"
proof -
  have "last_seq one_log \<noteq> - 1" "wfaults (db one_log) = []" by (simp_all add: one_log_def)
  with flushdb_empties [of one_log] show ?thesis by auto
qed


section \<open>The edges of the key space\<close>

text \<open>The names with a record of one type; the empty name is not one.\<close>

definition typed_names :: "u8 \<Rightarrow> table \<Rightarrow> bytes set" where
  "typed_names tag t = {n. n \<noteq> [] \<and> tag # n \<in> fst ` set t}"

definition least_name :: "bytes set \<Rightarrow> bytes" where
  "least_name A = (if A = {} then [] else Min A)"

definition greatest_name :: "bytes set \<Rightarrow> bytes" where
  "greatest_name A = (if A = {} then [] else Max A)"

lemma typed_names_iff: "n \<in> typed_names tag t \<longleftrightarrow> n \<noteq> [] \<and> (\<exists>x \<in> set t. fst x = tag # n)"
  by (auto simp: typed_names_def image_iff eq_commute)

lemma finite_typed_names: "finite (typed_names tag t)"
proof (rule finite_subset)
  show "typed_names tag t \<subseteq> tl ` fst ` set t" by (force simp: typed_names_def)
qed simp

lemma decode_name:
  "decode_kv_key (b # n) = Some n" "decode_hsize_key (b # n) = Some n"
  "decode_zsize_key (b # n) = Some n" "decode_qsize_key (b # n) = Some n"
  by (simp_all add: decode_kv_key_def decode_hsize_key_def decode_zsize_key_def decode_qsize_key_def
      dec_read_data_def)

text \<open>One step of an iterator with limit 1.\<close>

lemma edge_name_first:
  assumes "iter_ok i" "upcoming i = take 1 es" "tag \<noteq> 0" "\<And>b n. decode (b # n) = Some n"
  shows "edge_name tag decode i =
    (0, case es of [] \<Rightarrow> [] | e # _ \<Rightarrow> if prefix [tag] (fst e) then tl (fst e) else [])"
proof (cases es)
  case Nil
  with assms(2) obtain i' where "iter_next i = (False, i')" using iter_next_Nil [OF assms(1)] by auto
  with Nil show ?thesis by (simp add: edge_name_def)
next
  case (Cons e es')
  with assms(2) have "upcoming i = e # []" by simp
  from iter_next_Cons [OF assms(1) this] obtain i' where i': "iter_next i = (True, i')" "entry i' = e"
    by metis
  then have "iter_key i' = fst e" by (auto simp: entry_def)
  with Cons i'(1) assms(3,4) show ?thesis
    by (cases "fst e") (auto simp: edge_name_def key_type_prefix)
qed

lemma edge_low:
  assumes "sorted_keys t" and es: "es = range_asc t [tag] []"
  shows "(case es of [] \<Rightarrow> [] | e # _ \<Rightarrow> if prefix [tag] (fst e) then tl (fst e) else []) =
    least_name (typed_names tag t)"
proof -
  have mem: "x \<in> set es \<longleftrightarrow> x \<in> set t \<and> [tag] < fst x" for x
    by (simp add: es range_asc_def in_bound_def)
  have "fst x = tag # n \<Longrightarrow> [tag] < fst x \<longleftrightarrow> n \<noteq> []" for x :: "bytes \<times> bytes" and n
    by (cases n) simp_all
  then have names: "n \<in> typed_names tag t \<longleftrightarrow> (\<exists>x \<in> set es. fst x = tag # n)" for n
    unfolding typed_names_iff using mem by blast
  have srt: "sorted_keys es" unfolding es by (rule sorted_range_asc [OF assms(1)])
  show ?thesis
  proof (cases es)
    case Nil
    then have "typed_names tag t = {}" using names by auto
    with Nil show ?thesis by (simp add: least_name_def)
  next
    case (Cons e es')
    note least = sorted_keys_hd_least [of e es', folded Cons, OF srt]
    show ?thesis
    proof (cases "prefix [tag] (fst e)")
      case True
      then obtain n where n: "fst e = tag # n" by (auto simp: prefix_def)
      have "n \<in> typed_names tag t" using names n Cons by auto
      moreover have "n \<le> m" if m: "m \<in> typed_names tag t" for m
      proof -
        obtain x where "x \<in> set es" "fst x = tag # m" using m names by blast
        with least [of x] n show ?thesis by simp
      qed
      ultimately have "Min (typed_names tag t) = n" using finite_typed_names by (intro Min_eqI) auto
      with \<open>n \<in> typed_names tag t\<close> show ?thesis using Cons n by (auto simp: least_name_def)
    next
      case False
      have "m \<notin> typed_names tag t" for m
      proof
        assume "m \<in> typed_names tag t"
        then obtain x where x: "x \<in> set es" "fst x = tag # m" using names by blast
        have "[tag] < fst e" using mem [of e] Cons by simp
        moreover have "fst e \<le> tag # m" using least [OF x(1)] x(2) by simp
        ultimately show False using False by (cases "fst e") auto
      qed
      then have "typed_names tag t = {}" by blast
      with Cons False show ?thesis by (simp add: least_name_def)
    qed
  qed
qed

lemma edge_high:
  assumes "sorted_keys t" and es: "es = range_desc t [tag, 255] []"
  shows "(case es of [] \<Rightarrow> [] | e # _ \<Rightarrow> if prefix [tag] (fst e) then tl (fst e) else []) =
    greatest_name {n \<in> typed_names tag t. n < [255]}"
proof -
  let ?A = "{n \<in> typed_names tag t. n < [255]}"
  have mem: "x \<in> set es \<longleftrightarrow> x \<in> set t \<and> fst x < [tag, 255]" for x
    by (simp add: es range_desc_def in_bound_def)
  have "fst x = tag # n \<Longrightarrow> fst x < [tag, 255] \<longleftrightarrow> n < [255]" for x :: "bytes \<times> bytes" and n
    by simp
  then have names: "n \<in> ?A \<longleftrightarrow> n \<noteq> [] \<and> (\<exists>x \<in> set es. fst x = tag # n)" for n
    unfolding typed_names_iff mem_Collect_eq using mem by blast
  have fin: "finite ?A" using finite_typed_names by simp
  have srt: "sorted_keys (rev es)"
    unfolding es range_desc_def by (simp add: sorted_keys_filter assms(1))
  show ?thesis
  proof (cases es)
    case Nil
    then have "?A = {}" using names by auto
    with Nil show ?thesis unfolding greatest_name_def by simp
  next
    case (Cons e es')
    have greatest: "fst x \<le> fst e" if "x \<in> set es" for x
      using sorted_keys_last_greatest [of "rev es'" e x] srt that by (simp add: Cons)
    have below: "m \<le> tl (fst e) \<and> prefix [tag] (fst e)" if m: "m \<in> ?A" for m
    proof -
      obtain x where "x \<in> set es" "fst x = tag # m" using m names by blast
      with greatest have "tag # m \<le> fst e" by metis
      moreover have "fst e < [tag, 255]" using mem [of e] Cons by simp
      ultimately show ?thesis by (cases "fst e") auto
    qed
    show ?thesis
    proof (cases "prefix [tag] (fst e) \<and> tl (fst e) \<noteq> []")
      case True
      then obtain n where n: "fst e = tag # n" "n \<noteq> []" by (auto simp: prefix_def)
      have nA: "n \<in> ?A" using names n Cons by force
      have "Max ?A = n" using fin nA below n(1) by (intro Max_eqI) auto
      moreover have "?A \<noteq> {}" using nA by blast
      ultimately show ?thesis
        unfolding greatest_name_def using Cons n(1) by (simp only: list.case if_False) simp
    next
      case False
      have "m \<notin> ?A" for m
      proof
        assume m: "m \<in> ?A"
        from below [OF m] False have "m = []" by auto
        with m show False using names by blast
      qed
      then have "?A = {}" by blast
      with False show ?thesis unfolding greatest_name_def Cons by auto
    qed
  qed
qed

text \<open>Three strings, the name of the last beginning with byte 255.\<close>

definition three_names :: ssdb where
  "three_names = empty_ssdb\<lparr>db := empty_ldb\<lparr>tbl := [([107, 97], [1]), ([107, 98], [2]), ([107, 255], [3])]\<rparr>\<rparr>"

text \<open>
  C28: \<open>key_range\<close> reports, for strings, hashes, sorted sets and queues, the least name in use and
  the greatest name in use that does not begin with byte 255, and the empty string where there is
  none.
\<close>

theorem key_range_edges:
  assumes "sorted_keys (tbl (db s))"
  shows "key_range s =
    (0, concat (map (\<lambda>tag.
       [least_name (typed_names tag (tbl (db s))),
        greatest_name {n \<in> typed_names tag (tbl (db s)). n < [255]}])
       [DT_KV, DT_HSIZE, DT_ZSIZE, DT_QSIZE]))"
proof -
  let ?t = "tbl (db s)"
  have low: "edge_name tag decode (ssdb_iterator s [tag] [] 1) = (0, least_name (typed_names tag ?t))"
    if "tag \<noteq> 0" "\<And>b n. decode (b # n) = Some n" for tag decode
    using edge_name_first [OF upcoming_iterator(1) [OF assms] _ that, of "[tag]" "[]" 1]
      upcoming_iterator(2) [OF assms, of "[tag]" "[]" 1] edge_low [OF assms refl, of tag] by simp
  have high: "edge_name tag decode (ssdb_rev_iterator s [tag, 255] [] 1) =
      (0, greatest_name {n \<in> typed_names tag ?t. n < [255]})"
    if "tag \<noteq> 0" "\<And>b n. decode (b # n) = Some n" for tag decode
    using edge_name_first [OF upcoming_rev_iterator(1) [OF assms] _ that, of "[tag, 255]" "[]" 1]
      upcoming_rev_iterator(2) [OF assms, of "[tag, 255]" "[]" 1] edge_high [OF assms refl, of tag]
    by simp
  show ?thesis
    unfolding key_range_def Let_def encode_kv_key_def encode_hsize_key_def encode_zsize_key_def
      encode_qsize_key_def
    by (simp add: low high decode_name)
qed

lemma key_range_edges_witness:
  "key_range three_names = (0, [[97], [98], [], [], [], [], [], []])"
proof -
  let ?t = "tbl (db three_names)"
  have "sorted_keys ?t" by (simp add: three_names_def)
  note range = key_range_edges [OF this]
  have names: "typed_names DT_KV ?t = {[97], [98], [255]}" "typed_names DT_HSIZE ?t = {}"
    "typed_names DT_ZSIZE ?t = {}" "typed_names DT_QSIZE ?t = {}"
    by (auto simp: typed_names_def three_names_def)
  have "{n \<in> {[97], [98], [255]}. n < [255 :: u8]} = {[97], [98]}" by auto
  moreover have "greatest_name {[97], [98]} = [98]" "least_name {[97], [98], [255]} = [97]"
    "greatest_name {} = []" "least_name {} = []" "{n \<in> {}. n < [255 :: u8]} = {}"
    by (simp_all add: greatest_name_def least_name_def)
  ultimately show ?thesis
    unfolding range list.map concat.simps append.simps names by (simp only:)
qed

end
