(* ===== verification/Extension.thy ===== *)
theory Extension
  imports Facade Server_Queries Ssdb_Impl
begin

text \<open>
  \<open>SSDB+Extension.mm\<close> and the methods of \<open>SSDB.mm\<close> on objects: what an application stores and gets
  back as strings, archives, JSON, dictionaries and arrays. Objects are a datatype, and the services
  of the platform (UTF-8, \<open>NSJSONSerialization\<close>, \<open>NSKeyedArchiver\<close>) are the fields of a record that
  every method gets as an argument. \<open>None\<close> is an exception or a \<open>NULL\<close> given to \<open>std::string\<close>.
\<close>

section \<open>Objects\<close>

text \<open>
  A string is its UTF-8 text and a number what \<open>%@\<close> prints; a dictionary is the list of its keys
  and values in the order of \<open>allKeys\<close>. \<open>Other\<close> stands for the objects of all other classes.
\<close>

datatype object =
    NilObj | Text bytes | Blob bytes | Number bytes
  | Arr "object list" | Dict "(object \<times> object) list" | Other nat

text \<open>\<open>isKindOfClass\<close>.\<close>

fun is_text :: "object \<Rightarrow> bool" where "is_text (Text t) = True" | "is_text _ = False"
fun is_arr :: "object \<Rightarrow> bool" where "is_arr (Arr xs) = True" | "is_arr _ = False"
fun is_dict :: "object \<Rightarrow> bool" where "is_dict (Dict kvs) = True" | "is_dict _ = False"

text \<open>The serializers answer \<open>nil\<close> or raise when they fail.\<close>

record platform =
  utf8 :: "bytes \<Rightarrow> bool"
  to_json :: "object \<Rightarrow> object option"
  of_json :: "object \<Rightarrow> object"
  archive :: "object \<Rightarrow> object option"
  unarchive :: "object \<Rightarrow> object option"
  codes :: "object \<Rightarrow> bool"

text \<open>\<open>stringWithUTF8String\<close> of a C string, and \<open>initWithData\<close> of all bytes.\<close>

definition utf8_string :: "platform \<Rightarrow> bytes \<Rightarrow> object" where
  "utf8_string p b = (if utf8 p (c_str b) then Text (c_str b) else NilObj)"

definition data_string :: "platform \<Rightarrow> bytes \<Rightarrow> object" where
  "data_string p b = (if utf8 p b then Text b else NilObj)"

text \<open>
  A mutable dictionary with string keys, as a map: a \<open>nil\<close> key raises, a \<open>nil\<close> value removes the
  key. A mutable array raises when it is given \<open>nil\<close>.
\<close>

type_synonym dictionary = "bytes \<rightharpoonup> object"

definition dict_set :: "object \<Rightarrow> object \<Rightarrow> dictionary \<Rightarrow> dictionary option" where
  "dict_set key value d =
     (case key of Text k \<Rightarrow> Some (d(k := (if value = NilObj then None else Some value))) | _ \<Rightarrow> None)"

definition add_object :: "object \<Rightarrow> object list \<Rightarrow> object list option" where
  "add_object x xs = (if x = NilObj then None else Some (xs @ [x]))"

definition insert_first :: "object \<Rightarrow> object list \<Rightarrow> object list option" where
  "insert_first x xs = (if x = NilObj then None else Some (x # xs))"

text \<open>
  \<open>shared\<close>: the one object, whose database pointer is \<open>NULL\<close> when the directory cannot be opened.
  \<open>static\<close> is the static variable before the call, \<open>home\<close> the home directory and \<open>append_path\<close>
  \<open>stringByAppendingPathComponent\<close>.
\<close>

definition ssdb_shared :: "(bytes \<Rightarrow> bytes \<Rightarrow> bytes) \<Rightarrow> bytes \<Rightarrow> bool \<Rightarrow>
    (ldb_options \<Rightarrow> bytes \<Rightarrow> ldb option) \<Rightarrow> ssdb option option \<Rightarrow> ssdb option option" where
  "ssdb_shared append_path home ndebug db_open static =
     (case static of
        Some obj \<Rightarrow> static
      | None \<Rightarrow>
          (let db_path = append_path home (lit ''Documents/db'');
               opt = options_new ndebug; opt = opt\<lparr>compression := lit ''yes''\<rparr>
           in Some (ssdb_open db_open opt (c_str db_path))))"

text \<open>A directory that cannot be opened at the first call is not tried again.\<close>

lemma shared_not_retried:
  assumes "db_open (ldb_options (options_new nd)) (c_str (app home (lit ''Documents/db''))) = None"
  shows "ssdb_shared app' home' nd' db_open' (ssdb_shared app home nd db_open None) = Some None"
proof -
  have "(options_new nd)\<lparr>compression := lit ''yes''\<rparr> = options_new nd"
    using options_bounds [of nd] by simp
  then show ?thesis using assms by (simp add: ssdb_shared_def ssdb_open_def Let_def)
qed

text \<open>The database of the one object has its log off: what the session changes is not logged.\<close>

lemma shared_log_off:
  assumes "ssdb_shared app home nd db_open None = Some (Some s)"
  shows "\<not> enabled s"
  using assms options_bounds [of nd]
  by (auto simp: ssdb_shared_def ssdb_open_def bl_open_def Let_def split: option.splits prod.splits if_splits)

section \<open>Storing\<close>

definition obj_del :: "object \<Rightarrow> ssdb \<Rightarrow> ssdb option" where
  "obj_del key s = (case key of Text k \<Rightarrow> Some (snd (api_del k s)) | _ \<Rightarrow> None)"

definition ext_setDataValue :: "object \<Rightarrow> object \<Rightarrow> ssdb \<Rightarrow> ssdb" where
  "ext_setDataValue aValue aKey s =
     (case aKey of
        Text k \<Rightarrow> (case aValue of Blob d \<Rightarrow> snd (kv_set (c_str k) d BT_SYNC s) | _ \<Rightarrow> s)
      | _ \<Rightarrow> s)"

definition ext_setStringValue :: "object \<Rightarrow> object \<Rightarrow> ssdb \<Rightarrow> ssdb option" where
  "ext_setStringValue aStr aKey s =
     (if aStr = NilObj then obj_del aKey s
      else if is_text aKey
      then (case aStr of Text t \<Rightarrow> Some (ext_setDataValue (Blob t) aKey s) | _ \<Rightarrow> None)
      else Some s)"

definition ext_setJsonValue :: "platform \<Rightarrow> object \<Rightarrow> object \<Rightarrow> ssdb \<Rightarrow> ssdb option" where
  "ext_setJsonValue p objc aKey s =
     (if objc = NilObj then obj_del aKey s
      else map_option (\<lambda>d. ext_setDataValue d aKey s) (to_json p objc))"

definition ext_setCodingValue :: "platform \<Rightarrow> object \<Rightarrow> object \<Rightarrow> ssdb \<Rightarrow> ssdb option" where
  "ext_setCodingValue p coder aKey s =
     (if coder = NilObj then obj_del aKey s
      else if codes p coder then map_option (\<lambda>d. ext_setDataValue d aKey s) (archive p coder)
      else Some s)"

definition ext_hSet_data :: "object \<Rightarrow> object \<Rightarrow> object \<Rightarrow> ssdb \<Rightarrow> ssdb" where
  "ext_hSet_data table aValue aKey s =
     (case table of
        Text n \<Rightarrow>
          (case aKey of
             Text k \<Rightarrow> (case aValue of Blob d \<Rightarrow> snd (hset (c_str n) (c_str k) d BT_SYNC s) | _ \<Rightarrow> s)
           | _ \<Rightarrow> s)
      | _ \<Rightarrow> s)"

definition ext_hSet_coding :: "platform \<Rightarrow> object \<Rightarrow> object \<Rightarrow> object \<Rightarrow> ssdb \<Rightarrow> ssdb option" where
  "ext_hSet_coding p table aValue aKey s =
     (if \<not> is_text table then Some s
      else if \<not> is_text aKey then Some s
      else if codes p aValue then map_option (\<lambda>d. ext_hSet_data table d aKey s) (archive p aValue)
      else Some s)"

definition ext_hSet_json :: "platform \<Rightarrow> object \<Rightarrow> object \<Rightarrow> object \<Rightarrow> ssdb \<Rightarrow> ssdb option" where
  "ext_hSet_json p table aValue aKey s =
     (if \<not> is_text table then Some s
      else if \<not> is_text aKey then Some s
      else if is_arr aValue \<or> is_dict aValue
      then map_option (\<lambda>d. ext_hSet_data table d aKey s) (to_json p aValue)
      else Some s)"

definition ext_hSet_string :: "object \<Rightarrow> object \<Rightarrow> object \<Rightarrow> ssdb \<Rightarrow> ssdb" where
  "ext_hSet_string table aValue aKey s =
     (case aValue of Text t \<Rightarrow> ext_hSet_data table (Blob t) aKey s | _ \<Rightarrow> s)"

text \<open>The loops of the four \<open>hMSet\<close> differ only in the method they call for each key.\<close>

fun set_each :: "(object \<Rightarrow> object \<Rightarrow> ssdb \<Rightarrow> ssdb option) \<Rightarrow> (object \<times> object) list \<Rightarrow>
    ssdb \<Rightarrow> ssdb option" where
  "set_each put [] s = Some s"
| "set_each put ((key, value) # kvs) s =
     (case put value key s of None \<Rightarrow> None | Some s \<Rightarrow> set_each put kvs s)"

definition ext_hMSet :: "(object \<Rightarrow> object \<Rightarrow> object \<Rightarrow> ssdb \<Rightarrow> ssdb option) \<Rightarrow>
    object \<Rightarrow> object \<Rightarrow> ssdb \<Rightarrow> ssdb option" where
  "ext_hMSet put table aValue s =
     (if \<not> is_text table then Some s
      else case aValue of Dict kvs \<Rightarrow> set_each (put table) kvs s | _ \<Rightarrow> Some s)"

definition ext_hMSet_data :: "object \<Rightarrow> object \<Rightarrow> ssdb \<Rightarrow> ssdb option" where
  "ext_hMSet_data table aValue s = ext_hMSet (\<lambda>t v k s. Some (ext_hSet_data t v k s)) table aValue s"

definition ext_hMSet_string :: "object \<Rightarrow> object \<Rightarrow> ssdb \<Rightarrow> ssdb option" where
  "ext_hMSet_string table aValue s = ext_hMSet (\<lambda>t v k s. Some (ext_hSet_string t v k s)) table aValue s"

definition ext_hMSet_coding :: "platform \<Rightarrow> object \<Rightarrow> object \<Rightarrow> ssdb \<Rightarrow> ssdb option" where
  "ext_hMSet_coding p table aValue s = ext_hMSet (ext_hSet_coding p) table aValue s"

definition ext_hMSet_json :: "platform \<Rightarrow> object \<Rightarrow> object \<Rightarrow> ssdb \<Rightarrow> ssdb option" where
  "ext_hMSet_json p table aValue s = ext_hMSet (ext_hSet_json p) table aValue s"

definition ext_qSet :: "object \<Rightarrow> object \<Rightarrow> i64 \<Rightarrow> ssdb \<Rightarrow> ssdb" where
  "ext_qSet table aValue index s =
     (case table of
        Text n \<Rightarrow> (case aValue of Blob d \<Rightarrow> snd (qset (c_str n) index d BT_SYNC s) | _ \<Rightarrow> s)
      | _ \<Rightarrow> s)"

text \<open>The bytes of the value are the score.\<close>

definition ext_zSet_data :: "object \<Rightarrow> object \<Rightarrow> object \<Rightarrow> ssdb \<Rightarrow> ssdb" where
  "ext_zSet_data table aValue aKey s =
     (case table of
        Text n \<Rightarrow>
          (case aKey of
             Text k \<Rightarrow> (case aValue of Blob d \<Rightarrow> snd (zset (c_str n) (c_str k) d BT_SYNC s) | _ \<Rightarrow> s)
           | _ \<Rightarrow> s)
      | _ \<Rightarrow> s)"

definition ext_zSet_number :: "object \<Rightarrow> object \<Rightarrow> object \<Rightarrow> ssdb \<Rightarrow> ssdb" where
  "ext_zSet_number table aValue aKey s =
     (case aValue of
        Text t \<Rightarrow> ext_zSet_data table (Blob t) aKey s
      | Number t \<Rightarrow> ext_zSet_data table (Blob t) aKey s
      | _ \<Rightarrow> s)"

definition ext_hDel :: "object \<Rightarrow> object \<Rightarrow> ssdb \<Rightarrow> ssdb" where
  "ext_hDel table aKey s =
     (case table of
        Text n \<Rightarrow> (case aKey of Text k \<Rightarrow> snd (hdel (c_str n) (c_str k) BT_SYNC s) | _ \<Rightarrow> s)
      | _ \<Rightarrow> s)"

definition ext_hClear :: "object \<Rightarrow> ssdb \<Rightarrow> ssdb option" where
  "ext_hClear aKey s = (case aKey of Text k \<Rightarrow> map_option snd (hclear (c_str k) s) | _ \<Rightarrow> Some s)"

section \<open>Objects through SSDB.mm\<close>

text \<open>
  \<open>set:data:\<close> and \<open>hset:key:data:\<close> of an object; \<open>nil\<close> data has no bytes. The key and the name must
  be strings.
\<close>

definition api_set_data :: "object \<Rightarrow> object \<Rightarrow> ssdb \<Rightarrow> (bool \<times> ssdb) option" where
  "api_set_data key blob s =
     (case (key, blob) of
        (Text k, Blob d) \<Rightarrow> Some (api_set k d s)
      | (Text k, NilObj) \<Rightarrow> Some (api_set k [] s)
      | _ \<Rightarrow> None)"

definition api_hset_data :: "object \<Rightarrow> object \<Rightarrow> object \<Rightarrow> ssdb \<Rightarrow> (bool \<times> ssdb) option" where
  "api_hset_data table key blob s =
     (case (table, key, blob) of
        (Text n, Text k, Blob d) \<Rightarrow> Some (api_hset n k d s)
      | (Text n, Text k, NilObj) \<Rightarrow> Some (api_hset n k [] s)
      | _ \<Rightarrow> None)"

text \<open>\<open>dataUsingEncoding\<close>, also sent to \<open>nil\<close>.\<close>

definition utf8_data :: "object \<Rightarrow> object option" where
  "utf8_data x = (case x of Text t \<Rightarrow> Some (Blob t) | NilObj \<Rightarrow> Some NilObj | _ \<Rightarrow> None)"

definition api_set_string :: "object \<Rightarrow> object \<Rightarrow> ssdb \<Rightarrow> (bool \<times> ssdb) option" where
  "api_set_string key str s = (case utf8_data str of None \<Rightarrow> None | Some d \<Rightarrow> api_set_data key d s)"

definition api_set_json :: "platform \<Rightarrow> object \<Rightarrow> object \<Rightarrow> ssdb \<Rightarrow> (bool \<times> ssdb) option" where
  "api_set_json p key objc s =
     (case to_json p objc of
        None \<Rightarrow> None
      | Some d \<Rightarrow> if d \<noteq> NilObj then api_set_data key d s else Some (False, s))"

definition api_set_coding :: "platform \<Rightarrow> object \<Rightarrow> object \<Rightarrow> ssdb \<Rightarrow> (bool \<times> ssdb) option" where
  "api_set_coding p key objc s =
     (if codes p objc
      then (case archive p objc of None \<Rightarrow> None | Some d \<Rightarrow> api_set_data key d s)
      else Some (False, s))"

definition api_hset_string :: "object \<Rightarrow> object \<Rightarrow> object \<Rightarrow> ssdb \<Rightarrow> (bool \<times> ssdb) option" where
  "api_hset_string table key str s =
     (case utf8_data str of None \<Rightarrow> None | Some d \<Rightarrow> api_hset_data table key d s)"

definition api_hset_json :: "platform \<Rightarrow> object \<Rightarrow> object \<Rightarrow> object \<Rightarrow> ssdb \<Rightarrow> (bool \<times> ssdb) option" where
  "api_hset_json p table key objc s =
     (case to_json p objc of
        None \<Rightarrow> None
      | Some d \<Rightarrow> if d \<noteq> NilObj then api_hset_data table key d s else Some (False, s))"

definition api_hset_coding :: "platform \<Rightarrow> object \<Rightarrow> object \<Rightarrow> object \<Rightarrow> ssdb \<Rightarrow> (bool \<times> ssdb) option" where
  "api_hset_coding p table key objc s =
     (if codes p objc
      then (case archive p objc of
              None \<Rightarrow> None
            | Some d \<Rightarrow> if d \<noteq> NilObj then api_hset_data table key d s else Some (False, s))
      else Some (False, s))"

text \<open>The string out-parameters are \<open>nil\<close> unless the read has found data.\<close>

definition api_get_string :: "platform \<Rightarrow> ssdb \<Rightarrow> bytes \<Rightarrow> bool \<times> object" where
  "api_get_string p s key =
     (let (ret, blob) = api_get s key None
      in (ret, case blob of Some d \<Rightarrow> if ret then data_string p d else NilObj | None \<Rightarrow> NilObj))"

definition api_hget_string :: "platform \<Rightarrow> ssdb \<Rightarrow> bytes \<Rightarrow> bytes \<Rightarrow> bool \<times> object" where
  "api_hget_string p s name key =
     (let (ret, blob) = api_hget s name key None
      in (ret, case blob of Some d \<Rightarrow> if ret then data_string p d else NilObj | None \<Rightarrow> NilObj))"

text \<open>A string that \<open>set:string:\<close> could write is what \<open>get:string:\<close> reads.\<close>

lemma api_string_roundtrip:
  assumes "key_ok (c_str k)" "kv_readable s (c_str k)" "write_ok (db s)" "utf8 p t"
    and "api_set_string (Text k) (Text t) s = Some (ok, s')"
  shows "api_get_string p s' k = (True, Text t)"
proof -
  have "s' = snd (api_set k t s)" using assms(5) by (simp add: api_set_string_def utf8_data_def api_set_data_def)
  then have s': "s' = snd (act_tran BT_SYNC (kv_put_acts (c_str k) t) 1 s)"
    unfolding api_set_def Let_def kv_set_tran [OF assms(1)] by (simp add: case_prod_unfold)
  have "kv_map s' (c_str k) = Some t" using assms(3) unfolding s' kv_map_act_tran by simp
  moreover have "kv_readable s' (c_str k)" using assms(2) unfolding s' by (simp add: kv_readable_def)
  ultimately show ?thesis
    using assms(4) by (simp add: api_get_string_def api_get_def kv_get_map data_string_def)
qed

section \<open>Single values\<close>

text \<open>The string a read was given to: empty before the call, and after a call that found nothing.\<close>

definition value_read :: "int \<times> bytes option \<Rightarrow> bytes" where
  "value_read r = (case snd r of None \<Rightarrow> [] | Some v \<Rightarrow> v)"

definition ext_dataValue :: "ssdb \<Rightarrow> object \<Rightarrow> object" where
  "ext_dataValue s aKey =
     (case aKey of
        Text k \<Rightarrow>
          (let value = value_read (kv_get s (c_str k))
           in if length value > 0 then Blob value else NilObj)
      | _ \<Rightarrow> NilObj)"

definition ext_stringValue :: "platform \<Rightarrow> ssdb \<Rightarrow> object \<Rightarrow> object" where
  "ext_stringValue p s aKey =
     (case ext_dataValue s aKey of Blob d \<Rightarrow> data_string p d | _ \<Rightarrow> Text [])"

definition ext_jsonValue :: "platform \<Rightarrow> ssdb \<Rightarrow> object \<Rightarrow> object" where
  "ext_jsonValue p s aKey =
     (case ext_dataValue s aKey of Blob d \<Rightarrow> of_json p (Blob d) | _ \<Rightarrow> NilObj)"

definition ext_codingValue :: "platform \<Rightarrow> ssdb \<Rightarrow> object \<Rightarrow> object option" where
  "ext_codingValue p s aKey =
     (case ext_dataValue s aKey of Blob d \<Rightarrow> unarchive p (Blob d) | _ \<Rightarrow> Some NilObj)"

text \<open>The first lines of the getters of a hash: \<open>None\<close> for a name or key that is not a string.\<close>

definition hash_value :: "ssdb \<Rightarrow> object \<Rightarrow> object \<Rightarrow> bytes option" where
  "hash_value s table aKey =
     (case table of
        Text n \<Rightarrow>
          (case aKey of Text k \<Rightarrow> Some (value_read (hget s (c_str n) (c_str k))) | _ \<Rightarrow> None)
      | _ \<Rightarrow> None)"

definition ext_hGetData :: "ssdb \<Rightarrow> object \<Rightarrow> object \<Rightarrow> object" where
  "ext_hGetData s table aKey =
     (case hash_value s table aKey of
        None \<Rightarrow> NilObj
      | Some value \<Rightarrow> if length value > 0 then Blob value else NilObj)"

definition ext_hGetString :: "platform \<Rightarrow> ssdb \<Rightarrow> object \<Rightarrow> object \<Rightarrow> object" where
  "ext_hGetString p s table aKey =
     (case hash_value s table aKey of
        None \<Rightarrow> NilObj
      | Some value \<Rightarrow> if length value > 0 then utf8_string p value else Text [])"

definition ext_hGetJson :: "platform \<Rightarrow> ssdb \<Rightarrow> object \<Rightarrow> object \<Rightarrow> object" where
  "ext_hGetJson p s table aKey =
     (case hash_value s table aKey of
        None \<Rightarrow> NilObj
      | Some value \<Rightarrow> if length value > 0 then of_json p (Blob value) else NilObj)"

definition ext_hGetCoding :: "platform \<Rightarrow> ssdb \<Rightarrow> object \<Rightarrow> object \<Rightarrow> object option" where
  "ext_hGetCoding p s table aKey =
     (case hash_value s table aKey of
        None \<Rightarrow> Some NilObj
      | Some value \<Rightarrow> if length value > 0 then unarchive p (Blob value) else Some NilObj)"

text \<open>The sizes; \<open>hSize\<close> does not look at the class of the name.\<close>

definition ext_hSize :: "ssdb \<Rightarrow> object \<Rightarrow> i64 option" where
  "ext_hSize s table = (case table of Text n \<Rightarrow> Some (of_int (hsize s (c_str n))) | _ \<Rightarrow> None)"

definition ext_qSize :: "ssdb \<Rightarrow> object \<Rightarrow> i64" where
  "ext_qSize s table = (case table of Text n \<Rightarrow> of_int (qsize s (c_str n)) | _ \<Rightarrow> -1)"

definition ext_zSize :: "ssdb \<Rightarrow> object \<Rightarrow> i64" where
  "ext_zSize s table = (case table of Text n \<Rightarrow> of_int (zsize s (c_str n)) | _ \<Rightarrow> -1)"

section \<open>Loops over a hash\<close>

text \<open>
  The loop \<open>do { if(...) ... } while(iterator->next())\<close> of all methods that scan a hash. Its body runs
  once before the first \<open>next()\<close>, on an empty key, and skips the fields with an empty value.
\<close>

definition scan_step :: "(bytes \<Rightarrow> bytes \<Rightarrow> 'a \<Rightarrow> 'a option) \<Rightarrow> bytes \<times> bytes \<Rightarrow> 'a \<Rightarrow> 'a option" where
  "scan_step f e acc =
     (if length (fst e) > 0 \<and> length (snd e) > 0 then f (fst e) (snd e) acc else Some acc)"

function scan_loop :: "(bytes \<Rightarrow> bytes \<Rightarrow> 'a \<Rightarrow> 'a option) \<Rightarrow> hiter \<Rightarrow> 'a \<Rightarrow> 'a option" where
  "scan_loop f h acc =
     (case scan_step f (hkey h, hval h) acc of
        None \<Rightarrow> None
      | Some acc \<Rightarrow>
          (case hiter_next h of
             (True, h') \<Rightarrow> scan_loop f h' acc
           | (False, h') \<Rightarrow> Some acc))"
  by pat_completeness auto
termination
  by (relation "measure (\<lambda>(_, h, _). unat (limit (hit h)))") (auto dest: hiter_next_limit [OF sym])

declare scan_loop.simps [simp del]

text \<open>A method that scans a hash answers \<open>nil\<close>, the inner \<open>None\<close>, for a name that is not a string.\<close>

definition scan_hash :: "(bytes \<Rightarrow> hiter) \<Rightarrow> (bytes \<Rightarrow> bytes \<Rightarrow> 'a \<Rightarrow> 'a option) \<Rightarrow>
    'a \<Rightarrow> object \<Rightarrow> 'a option option" where
  "scan_hash scan f acc table =
     (case table of Text n \<Rightarrow> map_option Some (scan_loop f (scan (c_str n)) acc) | _ \<Rightarrow> Some None)"

definition ext_hGetAllData :: "platform \<Rightarrow> ssdb \<Rightarrow> object \<Rightarrow> dictionary option option" where
  "ext_hGetAllData p s =
     scan_hash (\<lambda>n. hscan s n [] [] (- 1))
       (\<lambda>k v dic. if utf8_string p k \<noteq> NilObj then dict_set (utf8_string p k) (Blob v) dic else Some dic)
       Map.empty"

definition ext_hGetAllString :: "platform \<Rightarrow> ssdb \<Rightarrow> object \<Rightarrow> dictionary option option" where
  "ext_hGetAllString p s =
     scan_hash (\<lambda>n. hscan s n [] [] (- 1))
       (\<lambda>k v dic. dict_set (utf8_string p k) (utf8_string p v) dic) Map.empty"

definition ext_hGetAllCoding :: "platform \<Rightarrow> ssdb \<Rightarrow> object \<Rightarrow> dictionary option option" where
  "ext_hGetAllCoding p s =
     scan_hash (\<lambda>n. hscan s n [] [] (- 1))
       (\<lambda>k v dic. if utf8_string p k \<noteq> NilObj
                  then (case unarchive p (Blob v) of
                          None \<Rightarrow> None
                        | Some x \<Rightarrow> dict_set (utf8_string p k) x dic)
                  else Some dic)
       Map.empty"

definition ext_hGetAllJson :: "platform \<Rightarrow> ssdb \<Rightarrow> object \<Rightarrow> dictionary option option" where
  "ext_hGetAllJson p s =
     scan_hash (\<lambda>n. hscan s n [] [] (- 1))
       (\<lambda>k v dic. if utf8_string p k \<noteq> NilObj
                  then dict_set (utf8_string p k) (of_json p (Blob v)) dic else Some dic)
       Map.empty"

text \<open>\<open>hGetString:limit:ascending:\<close> and the lists of keys and values in their order.\<close>

definition ext_hGetString_limit :: "platform \<Rightarrow> ssdb \<Rightarrow> object \<Rightarrow> i64 \<Rightarrow> bool \<Rightarrow> dictionary option option" where
  "ext_hGetString_limit p s table count ascending =
     scan_hash (\<lambda>n. if ascending then hscan s n [] [] count else hrscan s n [] [] count)
       (\<lambda>k v dic. dict_set (utf8_string p k) (utf8_string p v) dic) Map.empty table"

definition ext_sortedKey :: "platform \<Rightarrow> ssdb \<Rightarrow> object \<Rightarrow> object list option option" where
  "ext_sortedKey p s =
     scan_hash (\<lambda>n. hscan s n [] [] (- 1)) (\<lambda>k v xs. add_object (utf8_string p k) xs) []"

definition ext_sortedKeyReverse :: "platform \<Rightarrow> ssdb \<Rightarrow> object \<Rightarrow> object list option option" where
  "ext_sortedKeyReverse p s =
     scan_hash (\<lambda>n. hrscan s n [] [] (- 1)) (\<lambda>k v xs. add_object (utf8_string p k) xs) []"

definition ext_sortedValue :: "platform \<Rightarrow> ssdb \<Rightarrow> object \<Rightarrow> object list option option" where
  "ext_sortedValue p s =
     scan_hash (\<lambda>n. hscan s n [] [] (- 1)) (\<lambda>k v xs. add_object (utf8_string p v) xs) []"

definition ext_keys_ascending :: "platform \<Rightarrow> ssdb \<Rightarrow> object \<Rightarrow> i64 \<Rightarrow> bool \<Rightarrow> object list option option" where
  "ext_keys_ascending p s table count ascending =
     scan_hash (\<lambda>n. if ascending then hscan s n [] [] count else hrscan s n [] [] count)
       (\<lambda>k v xs. if \<not> ascending then insert_first (utf8_string p k) xs else add_object (utf8_string p k) xs)
       [] table"

definition ext_values_ascending :: "platform \<Rightarrow> ssdb \<Rightarrow> object \<Rightarrow> i64 \<Rightarrow> bool \<Rightarrow> object list option option" where
  "ext_values_ascending p s table count ascending =
     scan_hash (\<lambda>n. if ascending then hscan s n [] [] count else hrscan s n [] [] count)
       (\<lambda>k v xs. if \<not> ascending then insert_first (utf8_string p v) xs else add_object (utf8_string p v) xs)
       [] table"

definition ext_keys_descending :: "platform \<Rightarrow> ssdb \<Rightarrow> object \<Rightarrow> i64 \<Rightarrow> bool \<Rightarrow> object list option option" where
  "ext_keys_descending p s table count descending =
     scan_hash (\<lambda>n. if \<not> descending then hscan s n [] [] count else hrscan s n [] [] count)
       (\<lambda>k v xs. if descending then add_object (utf8_string p k) xs else insert_first (utf8_string p k) xs)
       [] table"

definition ext_values_descending :: "platform \<Rightarrow> ssdb \<Rightarrow> object \<Rightarrow> i64 \<Rightarrow> bool \<Rightarrow> object list option option" where
  "ext_values_descending p s table count descending =
     scan_hash (\<lambda>n. if \<not> descending then hscan s n [] [] count else hrscan s n [] [] count)
       (\<lambda>k v xs. if descending then add_object (utf8_string p v) xs else insert_first (utf8_string p v) xs)
       [] table"

text \<open>
  \<open>hGetSortedJson:limit:from:ascending:\<close>. Backwards, the key it is given is where the scan ends, not
  where it starts.
\<close>

definition ext_sortedJson :: "platform \<Rightarrow> ssdb \<Rightarrow> object \<Rightarrow> i64 \<Rightarrow> object \<Rightarrow> bool \<Rightarrow> dictionary option option" where
  "ext_sortedJson p s table count key ascending =
     (let from = (case key of Text k \<Rightarrow> c_str k | _ \<Rightarrow> [])
      in scan_hash (\<lambda>n. if ascending then hscan s n from [] count else hrscan s n [] from count)
           (\<lambda>k v dic. if utf8_string p k \<noteq> NilObj
                      then dict_set (utf8_string p k) (of_json p (Blob v)) dic else Some dic)
           Map.empty table)"

text \<open>The loop of \<open>hGetFirstKey\<close> ends at the first key it has; the scan has a limit of one.\<close>

function first_key_loop :: "platform \<Rightarrow> hiter \<Rightarrow> object" where
  "first_key_loop p h =
     (let key = (if length (hkey h) > 0 \<and> length (hval h) > 0 then utf8_string p (hkey h) else NilObj)
      in if key \<noteq> NilObj then key
         else (case hiter_next h of
                 (True, h') \<Rightarrow> first_key_loop p h'
               | (False, h') \<Rightarrow> NilObj))"
  by pat_completeness auto
termination
  by (relation "measure (\<lambda>(_, h). unat (limit (hit h)))") (auto dest: hiter_next_limit [OF sym])

declare first_key_loop.simps [simp del]

definition ext_hGetFirstKey :: "platform \<Rightarrow> ssdb \<Rightarrow> object \<Rightarrow> bool \<Rightarrow> object" where
  "ext_hGetFirstKey p s table ascending =
     (case table of
        Text n \<Rightarrow>
          first_key_loop p (if ascending then hscan s (c_str n) [] [] 1 else hrscan s (c_str n) [] [] 1)
      | _ \<Rightarrow> NilObj)"

section \<open>Loops over a sorted set\<close>

function zscan_loop :: "platform \<Rightarrow> ziter \<Rightarrow> object list \<Rightarrow> object list option" where
  "zscan_loop p z array =
     (case (if length (zkey z) > 0 \<and> length (zscore z) > 0
            then (case dict_set (utf8_string p (zkey z)) (utf8_string p (zscore z)) Map.empty of
                    None \<Rightarrow> None
                  | Some dic \<Rightarrow>
                      Some (array @ [Dict (if utf8_string p (zscore z) = NilObj then []
                        else [(utf8_string p (zkey z), utf8_string p (zscore z))])]))
            else Some array) of
        None \<Rightarrow> None
      | Some array \<Rightarrow>
          (case ziter_next z of
             (True, z') \<Rightarrow> zscan_loop p z' array
           | (False, z') \<Rightarrow> Some array))"
  by pat_completeness auto
termination
  by (relation "measure (\<lambda>(_, z, _). unat (limit (zit z)))") (auto dest: ziter_next_limit [OF sym])

declare zscan_loop.simps [simp del]

text \<open>A bound is a string or a number, which is printed.\<close>

definition bound_text :: "object \<Rightarrow> bytes option" where
  "bound_text x = (case x of Text t \<Rightarrow> Some t | Number t \<Rightarrow> Some t | _ \<Rightarrow> None)"

definition scan_zset :: "(bytes \<Rightarrow> bytes \<Rightarrow> bytes \<Rightarrow> bytes \<Rightarrow> ziter) \<Rightarrow> platform \<Rightarrow> object \<Rightarrow> object \<Rightarrow>
    object \<Rightarrow> object \<Rightarrow> object list option option" where
  "scan_zset scan p table key start end =
     (case table of
        Text n \<Rightarrow>
          (case (bound_text start, bound_text end, key) of
             (Some a, Some b, Text k) \<Rightarrow>
               map_option Some (zscan_loop p (scan (c_str n) (c_str k) (c_str a) (c_str b)) [])
           | _ \<Rightarrow> Some None)
      | _ \<Rightarrow> Some None)"

definition ext_zScan :: "platform \<Rightarrow> ssdb \<Rightarrow> object \<Rightarrow> object \<Rightarrow> object \<Rightarrow> object \<Rightarrow> i64 \<Rightarrow>
    object list option option" where
  "ext_zScan p s table key start end count =
     scan_zset (\<lambda>n k a b. zscan s n k a b count) p table key start end"

definition ext_zrScan :: "platform \<Rightarrow> ssdb \<Rightarrow> object \<Rightarrow> object \<Rightarrow> object \<Rightarrow> object \<Rightarrow> u64 \<Rightarrow>
    object list option option" where
  "ext_zrScan p s table key start end count =
     scan_zset (\<lambda>n k a b. zrscan s n k a b count) p table key start end"

section \<open>What the loops yield\<close>

fun fold_steps :: "('e \<Rightarrow> 'a \<Rightarrow> 'a option) \<Rightarrow> 'e list \<Rightarrow> 'a \<Rightarrow> 'a option" where
  "fold_steps f [] a = Some a"
| "fold_steps f (e # es) a = (case f e a of None \<Rightarrow> None | Some a \<Rightarrow> fold_steps f es a)"

lemma scan_loop_items:
  assumes "hreturn_val h" "iter_ok (hit h)"
  shows "scan_loop f h acc = fold_steps (scan_step f) ((hkey h, hval h) # hiter.pending h) acc"
  using assms
proof (induction "hiter.pending h" arbitrary: h acc)
  case Nil
  then have "\<not> fst (hiter_next h)" by (intro hiter.nxt_Nil) simp_all
  then obtain h' where "hiter_next h = (False, h')" by (metis (full_types) prod.collapse)
  then show ?case using Nil by (subst scan_loop.simps) (simp split: option.split)
next
  case (Cons e es)
  obtain h' where h': "hiter_next h = (True, h')" "(hkey h', hval h') = e"
    "hiter.pending h' = es" "hreturn_val h'" "iter_ok (hit h')"
    using Cons.prems Cons.hyps(2) [symmetric] by (rule hiter.nxt_Cons)
  have IH: "scan_loop f h' a = fold_steps (scan_step f) (e # es) a" for a
    using Cons.hyps(1) [OF h'(3) [symmetric] h'(4,5)] h'(2,3) by simp
  show ?case
    unfolding Cons.hyps(2) [symmetric]
    by (subst scan_loop.simps) (simp add: h'(1) IH split: option.split)
qed

text \<open>The fields of a hash that a scan shows: the ones whose key and value are not empty.\<close>

definition shown :: "bytes \<times> bytes \<Rightarrow> bool" where
  "shown e \<longleftrightarrow> fst e \<noteq> [] \<and> snd e \<noteq> []"

lemma fold_steps_total:
  assumes "\<And>e a. e \<in> set es \<Longrightarrow> shown e \<Longrightarrow> f (fst e) (snd e) a = Some (g e a)"
  shows "fold_steps (scan_step f) es a = Some (fold g (filter shown es) a)"
  using assms
proof (induction es arbitrary: a)
  case (Cons e es)
  have "scan_step f e a = Some (if shown e then g e a else a)"
    using Cons.prems [of e] by (auto simp: scan_step_def shown_def)
  with Cons show ?case by simp
qed simp

lemma scan_hash_items:
  assumes h: "hash_inv s" "length (c_str t) \<le> 255"
    and it: "scan (c_str t) \<in> {hscan s (c_str t) a b c, hrscan s (c_str t) a b c}"
    and step: "\<And>e acc. e \<in> set (hiter_items (scan (c_str t))) \<Longrightarrow> shown e \<Longrightarrow> f (fst e) (snd e) acc = Some (g e acc)"
  shows "scan_hash scan f acc (Text t) = Some (Some (fold g (filter shown (hiter_items (scan (c_str t)))) acc))"
proof -
  let ?h = "scan (c_str t)"
  have srt: "sorted_keys (tbl (db s))" using h(1) by (simp add: hash_inv_def)
  have ok: "hreturn_val ?h" "iter_ok (hit ?h)" "hkey ?h = []"
    using it hscan_frame [OF srt] by (auto simp: hscan_def hrscan_def hiter_new_def Let_def)
  have "hiter_items ?h = hiter.pending ?h" unfolding hiter_items_def by (rule hiter.drain_all [OF ok(1,2)])
  then have "fold_steps (scan_step f) (hiter.pending ?h) acc = Some (fold g (filter shown (hiter_items ?h)) acc)"
    by (simp add: fold_steps_total [where f = f and g = g] step)
  then show ?thesis
    using scan_loop_items [OF ok(1,2), of f acc] ok(3) by (simp add: scan_hash_def scan_step_def)
qed

text \<open>All fields of a hash, and the ones next to either end.\<close>

lemma hash_field:
  assumes "hash_inv s" "length n \<le> 255" "e \<in> set (listing (hash_map s n))"
  shows "member_ok n (fst e)" "hash_map s n (fst e) = Some (snd e)"
proof -
  have "finite (dom (hash_map s n))"
    using assms(1) by (auto simp: hash_map_def hash_inv_def hash_ok_def sizes_ok_def)
  with assms(3) show m: "hash_map s n (fst e) = Some (snd e)" by (auto simp: listing_def)
  then have d: "data s (encode_hash_key n (fst e)) = Some (snd e)"
    by (auto simp: hash_map_def members_def split: if_splits)
  moreover have "prefix [DT_HASH] (encode_hash_key n (fst e))" by (simp add: encode_hash_key_def)
  ultimately obtain n' k' where "encode_hash_key n (fst e) = encode_hash_key n' k'" "member_ok n' k'"
    using assms(1) unfolding hash_inv_def hash_keys_ok_def by blast
  then show "member_ok n (fst e)"
    using hash_key_inject [of n n' "fst e" k'] assms(2) by (simp add: member_ok_def)
qed

lemma hash_scans:
  assumes h: "hash_inv s" "length n \<le> 255"
  shows "hiter_items (hscan s n [] [] c) = take (unat c) (listing (hash_map s n))"
    and "\<forall>e \<in> set (listing (hash_map s n)). fst e < [255] \<Longrightarrow>
      hiter_items (hrscan s n [] [] c) = take (unat c) (rev (listing (hash_map s n)))"
proof -
  have "[] < fst e" if "e \<in> set (listing (hash_map s n))" for e
    using hash_field(1) [OF h that] by (cases "fst e") (auto simp: member_ok_def)
  then have "filter (\<lambda>e. [] < fst e) (listing (hash_map s n)) = listing (hash_map s n)"
    by (simp add: filter_id_conv)
  then show "hiter_items (hscan s n [] [] c) = take (unat c) (listing (hash_map s n))"
    unfolding hscan_items [OF h] hash_listing [OF h] by simp
  assume "\<forall>e \<in> set (listing (hash_map s n)). fst e < [255]"
  then have "filter (\<lambda>e. fst e < [255]) (listing (hash_map s n)) = listing (hash_map s n)"
    by (simp add: filter_id_conv)
  then show "hiter_items (hrscan s n [] [] c) = take (unat c) (rev (listing (hash_map s n)))"
    unfolding hrscan_items [OF h] hash_listing [OF h] by simp
qed

lemma hash_scan_whole:
  assumes h: "hash_inv s" "length n \<le> 255"
  shows "take (unat (- 1 :: u64)) (listing (hash_map s n)) = listing (hash_map s n)"
proof (rule take_all64)
  have "hash_ok s" "sorted_keys (tbl (db s))" using h(1) by (simp_all add: hash_inv_def)
  then show "length (listing (hash_map s n)) < 2 ^ 63"
    unfolding hash_listing [OF h] using hash_entries_count [of s n] h(2) sizes_okD(2) [of encode_hash_key encode_hsize_key "data s" n]
    by (simp add: hash_ok_def hash_count_def hash_map_def)
qed

section \<open>Storing a dictionary\<close>

lemma hset_stores:
  assumes "hash_inv s" "reliable (db s)" "member_ok n k" "hash_count s n + 1 < 2 ^ 63"
  shows "hash_inv (snd (hset n k d BT_SYNC s))" "reliable (db (snd (hset n k d BT_SYNC s)))"
    "hash_map (snd (hset n k d BT_SYNC s)) = (hash_map s)(n := (hash_map s n)(k \<mapsto> d))"
    "hash_count (snd (hset n k d BT_SYNC s)) n \<le> hash_count s n + 1"
proof -
  let ?c = "HSet n k d"
  have n: "length (fst (hash_cmd_key ?c)) \<le> 255" using assms(3) by (simp add: member_ok_def)
  have cnt: "hash_count s (fst (hash_cmd_key ?c)) + 1 < 2 ^ 63" using assms(4) by simp
  note rd = hash_readable_reliable [OF assms(2)]
  have e: "snd (hash_exec BT_SYNC ?c s) = snd (hset n k d BT_SYNC s)" by (simp add: split_beta Let_def)
  have w: "write_ok (db s)" using assms(2) by simp
  show "hash_inv (snd (hset n k d BT_SYNC s))" "reliable (db (snd (hset n k d BT_SYNC s)))"
    "hash_count (snd (hset n k d BT_SYNC s)) n \<le> hash_count s n + 1"
    unfolding e [symmetric]
    using hash_exec_refines [OF assms(1) n rd cnt] hash_exec_reliable [OF assms(2,1) n cnt]
      hash_count_exec [OF assms(1) n rd cnt] by blast+
  show "hash_map (snd (hset n k d BT_SYNC s)) = (hash_map s)(n := (hash_map s n)(k \<mapsto> d))"
    using hash_exec_refines [OF assms(1) n rd cnt, of BT_SYNC] w assms(3) unfolding e [symmetric]
    by (auto simp: spec_write_def member_ok_def simp del: hash_exec.simps split: if_splits dest!: arg_cong [of _ _ snd])
qed

text \<open>
  \<open>enc\<close> is what the method stores for an object; the later of two values of one key stays.
\<close>

lemma set_each_stores:
  assumes "\<And>x k s. enc x \<noteq> None \<Longrightarrow> put x (Text k) s = Some (ext_hSet_data (Text t) (Blob (the (enc x))) (Text k) s)"
    and "hash_inv s" "reliable (db s)" "hash_count s (c_str t) + length kvs < 2 ^ 63"
    and "\<forall>(k, x) \<in> set kvs. 0 \<notin> set k \<and> member_ok (c_str t) k \<and> enc x \<noteq> None"
  shows "\<exists>s'. set_each put (map (\<lambda>(k, x). (Text k, x)) kvs) s = Some s' \<and> hash_inv s' \<and> reliable (db s') \<and>
    hash_map s' (c_str t) = hash_map s (c_str t) ++ map_of (rev (map (\<lambda>(k, x). (k, the (enc x))) kvs))"
  using assms(2-)
proof (induction kvs arbitrary: s)
  case (Cons e kvs)
  obtain k x where e: "e = (k, x)" by fastforce
  let ?n = "c_str t" and ?s1 = "snd (hset (c_str t) k (the (enc x)) BT_SYNC s)"
  have k: "0 \<notin> set k" "member_ok ?n k" "enc x \<noteq> None" using Cons.prems(4) e by auto
  have p: "put x (Text k) s = Some ?s1"
    using assms(1) [OF k(3)] k(1) by (simp add: ext_hSet_data_def c_str_id)
  have c: "hash_count s ?n + 1 < 2 ^ 63" using Cons.prems(3) by simp
  note st = hset_stores [OF Cons.prems(1,2) k(2) c, of "the (enc x)"]
  have "hash_count ?s1 ?n + length kvs < 2 ^ 63" using st(4) Cons.prems(3) by simp
  from Cons.IH [OF st(1,2) this] Cons.prems(4) obtain s' where
    s': "set_each put (map (\<lambda>(k, x). (Text k, x)) kvs) ?s1 = Some s'" "hash_inv s'" "reliable (db s')"
    "hash_map s' ?n = hash_map ?s1 ?n ++ map_of (rev (map (\<lambda>(k, x). (k, the (enc x))) kvs))" by auto
  then show ?case using p st(3) by (auto simp: e)
qed simp

section \<open>Correctness\<close>

lemma fold_dict:
  "distinct (map fst es) \<Longrightarrow>
     fold (\<lambda>e m. m(fst e \<mapsto> h (snd e))) es m0 = m0 ++ map_of (map (\<lambda>e. (fst e, h (snd e))) es)"
proof (induction es arbitrary: m0)
  case (Cons e es)
  then have "fst e \<notin> dom (map_of (map (\<lambda>e. (fst e, h (snd e))) es))"
    by (auto simp: dom_map_of_conv_image_fst image_image)
  with Cons show ?case by (auto simp: fun_eq_iff map_add_def domIff split: option.split)
qed simp

lemma map_of_rev_keys: "distinct (map fst xs) \<Longrightarrow> map_of (rev xs) = map_of xs"
proof (induction xs)
  case (Cons x xs)
  then have "fst x \<notin> dom (map_of xs)" by (simp add: dom_map_of_conv_image_fst)
  with Cons show ?case by (auto simp: fun_eq_iff map_add_def domIff split: option.split)
qed simp

lemma listing_map:
  assumes "finite (dom m)"
  shows "map_of (map (\<lambda>e. (fst e, h (snd e))) (listing m)) = map_option h \<circ> m" "distinct (map fst (listing m))"
    "e \<in> set (listing m) \<longleftrightarrow> m (fst e) = Some (snd e)"
proof -
  have "map_of (map (\<lambda>k. (k, h (the (m k)))) ks) k = (if k \<in> set ks then Some (h (the (m k))) else None)" for ks k
    by (induction ks) auto
  then show "map_of (map (\<lambda>e. (fst e, h (snd e))) (listing m)) = map_option h \<circ> m"
    using assms by (auto simp: listing_def comp_def fun_eq_iff domIff split: option.split)
  show "distinct (map fst (listing m))" by (simp add: listing_def comp_def)
  show "e \<in> set (listing m) \<longleftrightarrow> m (fst e) = Some (snd e)"
    using assms by (cases e) (auto simp: listing_def)
qed

lemma hash_map_finite: "hash_inv s \<Longrightarrow> finite (dom (hash_map s n))"
  by (auto simp: hash_map_def hash_inv_def hash_ok_def sizes_ok_def)

text \<open>A scan of a hash whose fields all decode gives the dictionary of the decoded fields.\<close>

lemma scan_hash_dictionary:
  assumes h: "hash_inv s" "length (c_str t) \<le> 255"
    and f: "\<And>k v dic. hash_map s (c_str t) k = Some v \<Longrightarrow> v \<noteq> [] \<Longrightarrow> f k v dic = Some (dic(k \<mapsto> dec v))"
    and full: "\<And>k v. hash_map s (c_str t) k = Some v \<Longrightarrow> v \<noteq> []"
  shows "scan_hash (\<lambda>n. hscan s n [] [] (- 1)) f Map.empty (Text t) =
    Some (Some (map_option dec \<circ> hash_map s (c_str t)))"
proof -
  let ?m = "hash_map s (c_str t)"
  note fin = hash_map_finite [OF h(1), of "c_str t"]
  have items: "hiter_items (hscan s (c_str t) [] [] (- 1)) = listing ?m"
    unfolding hash_scans(1) [OF h] by (rule hash_scan_whole [OF h])
  have all: "filter shown (listing ?m) = listing ?m"
    unfolding filter_id_conv shown_def
    using hash_field(1) [OF h] full [OF hash_field(2) [OF h]] by (auto simp: member_ok_def)
  have "scan_hash (\<lambda>n. hscan s n [] [] (- 1)) f Map.empty (Text t) =
      Some (Some (fold (\<lambda>e m. m(fst e \<mapsto> dec (snd e))) (filter shown (listing ?m)) Map.empty))"
    unfolding items [symmetric]
    by (rule scan_hash_items [OF h]) (use f full hash_field(2) [OF h] items in auto)
  also have "fold (\<lambda>e m. m(fst e \<mapsto> dec (snd e))) (filter shown (listing ?m)) Map.empty = map_option dec \<circ> ?m"
    unfolding all fold_dict [OF listing_map(2) [OF fin]] listing_map(1) [OF fin] by simp
  finally show ?thesis .
qed

text \<open>
  C4: a dictionary that \<open>hMSet:codingValue:\<close> has stored in an empty hash comes back: \<open>hGetAllCoding\<close>
  gives the same dictionary and \<open>hGetCoding\<close> each of its objects, through the archive, the keys and
  records of the database, its iterators and the decoders. The hashes are in order and the storage
  does not fail; the name of the hash has 1 to 255 bytes, the keys are different, valid UTF-8 of 1 to
  255 bytes without a zero byte, and the archiver gives back what it has archived.
\<close>

theorem ext_dictionary_roundtrip:
  assumes "hash_inv s" "reliable (db s)" "hash_map s (c_str t) = Map.empty" "length kvs < 2 ^ 63"
    and "c_str t \<noteq> []" "length (c_str t) \<le> 255" "distinct (map fst kvs)"
    and "\<forall>(k, x) \<in> set kvs. k \<noteq> [] \<and> length k \<le> 255 \<and> 0 \<notin> set k \<and> utf8 p k"
    and "\<forall>(k, x) \<in> set kvs. x \<noteq> NilObj \<and> codes p x \<and>
      (\<exists>d. archive p x = Some (Blob d) \<and> d \<noteq> [] \<and> unarchive p (Blob d) = Some x)"
  shows "\<exists>s'. ext_hMSet_coding p (Text t) (Dict (map (\<lambda>(k, x). (Text k, x)) kvs)) s = Some s' \<and>
    ext_hGetAllCoding p s' (Text t) = Some (Some (map_of kvs)) \<and>
    (\<forall>(k, x) \<in> set kvs. ext_hGetCoding p s' (Text t) (Text k) = Some x)"
proof -
  let ?n = "c_str t"
  define enc where "enc x = (if codes p x then case archive p x of Some (Blob d) \<Rightarrow> Some d | _ \<Rightarrow> None else None)" for x
  define dec where "dec d = the (unarchive p (Blob d))" for d
  have enc: "enc x = Some d \<longleftrightarrow> codes p x \<and> archive p x = Some (Blob d)" for x d
    by (auto simp: enc_def split: option.split object.split)
  have ed: "\<exists>d. enc x = Some d \<and> d \<noteq> [] \<and> dec d = x \<and> unarchive p (Blob d) = Some x" "x \<noteq> NilObj"
    if "(k, x) \<in> set kvs" for k x
    using assms(9) that by (fastforce simp: enc dec_def)+
  have put: "ext_hSet_coding p (Text t) x (Text k) s = Some (ext_hSet_data (Text t) (Blob (the (enc x))) (Text k) s)"
    if e: "enc x \<noteq> None" for x k s
  proof -
    obtain d where "enc x = Some d" using e by blast
    then show ?thesis using enc [of x d] by (simp add: ext_hSet_coding_def)
  qed
  have room: "hash_count s ?n + length kvs < 2 ^ 63" using assms(3,4) by (simp add: hash_count_def)
  have ok: "\<forall>(k, x) \<in> set kvs. 0 \<notin> set k \<and> member_ok ?n k \<and> enc x \<noteq> None"
    using assms(5,6,8) ed(1) by (fastforce simp: member_ok_def)
  obtain s' where s': "set_each (ext_hSet_coding p (Text t)) (map (\<lambda>(k, x). (Text k, x)) kvs) s = Some s'"
    "hash_inv s'" "reliable (db s')"
    "hash_map s' ?n = map_of (rev (map (\<lambda>(k, x). (k, the (enc x))) kvs))"
    using set_each_stores [of enc "ext_hSet_coding p (Text t)", OF put assms(1,2) room ok] assms(3) by auto
  have "distinct (map fst (map (\<lambda>(k, x). (k, the (enc x))) kvs))"
    using assms(7) by (simp add: comp_def split_beta)
  then have m: "hash_map s' ?n = map_of (map (\<lambda>(k, x). (k, the (enc x))) kvs)"
    unfolding s'(4) by (simp add: map_of_rev_keys)
  have field: "\<exists>x. (k, x) \<in> set kvs \<and> enc x = Some v" if "hash_map s' ?n k = Some v" for k v
    using that ed(1) unfolding m by (fastforce dest!: map_of_SomeD)
  have key: "utf8_string p k = Text k" if "(k, x) \<in> set kvs" for k x
    using assms(8) that by (auto simp: utf8_string_def c_str_id)
  have all: "ext_hGetAllCoding p s' (Text t) = Some (Some (map_option dec \<circ> hash_map s' ?n))"
    unfolding ext_hGetAllCoding_def
  proof (rule scan_hash_dictionary [OF s'(2) assms(6)])
    fix k v dic assume kv: "hash_map s' ?n k = Some v"
    obtain x where x: "(k, x) \<in> set kvs" "enc x = Some v" using field [OF kv] by blast
    with ed [OF x(1)] key [OF x(1)]
    show "(if utf8_string p k \<noteq> NilObj
           then case unarchive p (Blob v) of None \<Rightarrow> None | Some x \<Rightarrow> dict_set (utf8_string p k) x dic
           else Some dic) = Some (dic(k \<mapsto> dec v))"
      by (auto simp: dict_set_def)
    show "v \<noteq> []" using ed [OF x(1)] x(2) by auto
  qed
  have stored: "hash_map s' ?n k = map_option (\<lambda>x. the (enc x)) (map_of kvs k)" for k
    unfolding m by (induction kvs) auto
  have "map_option dec (hash_map s' ?n k) = map_of kvs k" for k
    using ed(1) by (cases "map_of kvs k") (fastforce simp: stored dest: map_of_SomeD)+
  moreover have "ext_hGetCoding p s' (Text t) (Text k) = Some x" if x: "(k, x) \<in> set kvs" for k x
  proof -
    obtain d where d: "enc x = Some d" "d \<noteq> []" "unarchive p (Blob d) = Some x" using ed(1) [OF x] by blast
    have k: "c_str k = k" "length k \<le> 255" using assms(8) x by (auto simp: c_str_id)
    have "hash_map s' ?n k = Some d" using assms(7) x d(1) by (simp add: stored)
    then have "hget s' ?n k = (1, Some d)"
      using hget_map [OF hash_readable_reliable [OF s'(3)] assms(6)] by simp
    then show ?thesis using d by (simp add: ext_hGetCoding_def hash_value_def value_read_def k(1))
  qed
  ultimately show ?thesis using s'(1) all
    by (intro exI [of _ s']) (auto simp: ext_hMSet_coding_def ext_hMSet_def fun_eq_iff)
qed

text \<open>A small platform: an archive is the text behind one more byte.\<close>

definition echo :: platform where
  "echo = \<lparr>utf8 = (\<lambda>b. 255 \<notin> set b), to_json = (\<lambda>x. None), of_json = (\<lambda>x. NilObj),
     archive = (\<lambda>x. case x of Text b \<Rightarrow> Some (Blob (1 # b)) | _ \<Rightarrow> None),
     unarchive = (\<lambda>x. case x of Blob d \<Rightarrow> Some (Text (tl d)) | _ \<Rightarrow> None),
     codes = is_text\<rparr>"

lemma ext_dictionary_roundtrip_witness:
  "\<exists>s'. ext_hMSet_coding echo (Text [1]) (Dict [(Text [3], Text [7]), (Text [2], Text [])]) empty_ssdb = Some s' \<and>
    ext_hGetAllCoding echo s' (Text [1]) = Some (Some [[3] \<mapsto> Text [7], [2] \<mapsto> Text []])"
proof -
  let ?kvs = "[([3 :: u8], Text [7]), ([2], Text [])]"
  have t: "c_str [1] \<noteq> []" "length (c_str [1]) \<le> 255" by (simp_all add: c_str_def)
  have e: "hash_map empty_ssdb (c_str [1]) = Map.empty" by simp
  have k: "\<forall>(k, x) \<in> set ?kvs. k \<noteq> [] \<and> length k \<le> 255 \<and> 0 \<notin> set k \<and> utf8 echo k"
    and x: "\<forall>(k, x) \<in> set ?kvs. x \<noteq> NilObj \<and> codes echo x \<and>
      (\<exists>d. archive echo x = Some (Blob d) \<and> d \<noteq> [] \<and> unarchive echo (Blob d) = Some x)"
    by (simp_all add: echo_def)
  have "map_of ?kvs = [[3 :: u8] \<mapsto> Text [7], [2] \<mapsto> Text []]" by (auto simp: fun_eq_iff)
  then show ?thesis
    using ext_dictionary_roundtrip [of empty_ssdb "[1]" ?kvs echo, OF _ _ e _ t _ k x] by auto
qed

lemma fold_lists:
  "fold (\<lambda>e xs. xs @ [g e]) es a = a @ map g es" "fold (\<lambda>e xs. g e # xs) es a = rev (map g es) @ a"
  by (induction es arbitrary: a) simp_all

lemma first_key_items:
  assumes "hreturn_val h" "iter_ok (hit h)" "hkey h = []" "length (hiter.pending h) \<le> 1"
    and "\<forall>e \<in> set (hiter.pending h). utf8_string p (fst e) = Text (fst e)"
  shows "first_key_loop p h =
    (case filter shown (hiter.pending h) of [] \<Rightarrow> NilObj | e # _ \<Rightarrow> Text (fst e))"
proof (cases "hiter.pending h")
  case Nil
  then have "\<not> fst (hiter_next h)" using assms(1,2) by (intro hiter.nxt_Nil)
  then obtain h' where "hiter_next h = (False, h')" by (metis (full_types) prod.collapse)
  then show ?thesis using Nil assms(3) by (subst first_key_loop.simps) simp
next
  case (Cons e es)
  obtain h' where h': "hiter_next h = (True, h')" "(hkey h', hval h') = e"
    "hiter.pending h' = es" "hreturn_val h'" "iter_ok (hit h')"
    using assms(1,2) Cons by (rule hiter.nxt_Cons)
  have "es = []" using Cons assms(4) by simp
  then have "\<not> fst (hiter_next h')" using h'(3-5) by (intro hiter.nxt_Nil) simp_all
  then obtain h2 where h2: "hiter_next h' = (False, h2)" by (metis (full_types) prod.collapse)
  have k: "utf8_string p (hkey h') = Text (hkey h')" using assms(5) h'(2) Cons by auto
  have "first_key_loop p h = first_key_loop p h'" using h'(1) assms(3) by (subst first_key_loop.simps) simp
  also have "\<dots> = (if shown e then Text (fst e) else NilObj)"
    using h2 h'(2) k by (subst first_key_loop.simps) (auto simp: shown_def)
  finally show ?thesis by (simp add: Cons \<open>es = []\<close>)
qed

text \<open>
  C38: the methods that list the keys of a hash return them in the order their name says, whatever the
  flag: it chooses the end of the hash the limit counts from. Fields with an empty value are left
  out, but count. So \<open>hGetFirstKey\<close>, whose limit is one, has no key when the first field has an empty
  value. The hash is in order, its name has at most 255 bytes, and its fields are valid UTF-8 without
  a zero byte.
\<close>

theorem ext_keys_ordered:
  assumes h: "hash_inv s" "length (c_str t) \<le> 255"
    and "\<And>b. utf8 p b \<Longrightarrow> 255 \<notin> set b"
    and "\<And>k v. hash_map s (c_str t) k = Some v \<Longrightarrow> 0 \<notin> set k \<and> utf8 p k"
    and L: "L = listing (hash_map s (c_str t))"
  shows "ext_keys_ascending p s (Text t) c True =
      Some (Some (map (Text \<circ> fst) (filter shown (take (unat c) L)))) \<and>
    ext_keys_ascending p s (Text t) c False =
      Some (Some (rev (map (Text \<circ> fst) (filter shown (take (unat c) (rev L)))))) \<and>
    ext_keys_descending p s (Text t) c True =
      Some (Some (map (Text \<circ> fst) (filter shown (take (unat c) (rev L))))) \<and>
    ext_keys_descending p s (Text t) c False =
      Some (Some (rev (map (Text \<circ> fst) (filter shown (take (unat c) L))))) \<and>
    ext_hGetFirstKey p s (Text t) True = (case filter shown (take 1 L) of [] \<Rightarrow> NilObj | e # _ \<Rightarrow> Text (fst e))"
proof -
  let ?n = "c_str t"
  have key: "utf8_string p (fst e) = Text (fst e)" "fst e < [255]" if "e \<in> set L" for e
  proof -
    have e: "0 \<notin> set (fst e)" "utf8 p (fst e)" "fst e \<noteq> []" "255 \<notin> set (fst e)"
      using hash_field [OF h that [unfolded L]] assms(3,4) by (auto simp: member_ok_def)
    show "utf8_string p (fst e) = Text (fst e)" using e by (simp add: utf8_string_def c_str_id)
    obtain x xs where x: "fst e = x # xs" using e(3) by (cases "fst e") auto
    then have "x \<noteq> 255" using e(4) by auto
    then have "unat x \<noteq> unat (255 :: u8)" using unsigned_word_eqI by blast
    moreover have "(unsigned x :: nat) < 2 ^ LENGTH(8)" by (rule unsigned_less)
    ultimately have "x < 255" by (simp add: word_less_nat_alt)
    then show "fst e < [255]" by (simp add: x)
  qed
  have up: "hiter_items (hscan s ?n [] [] c) = take (unat c) L" for c unfolding L by (rule hash_scans(1) [OF h])
  have down: "hiter_items (hrscan s ?n [] [] c) = take (unat c) (rev L)" for c
    using hash_scans(2) [OF h] key(2) L by blast
  have sub: "e \<in> set L" if "e \<in> set (take k L) \<or> e \<in> set (take k (rev L))" for e k
    using that by (auto dest: in_set_takeD)
  have add: "add_object (utf8_string p (fst e)) xs = Some (xs @ [(Text \<circ> fst) e])"
    and ins: "insert_first (utf8_string p (fst e)) xs = Some ((Text \<circ> fst) e # xs)" if "e \<in> set L" for e xs
    using key(1) [OF that] by (simp_all add: add_object_def insert_first_def)
  have asc: "scan_hash (\<lambda>n. hscan s n [] [] c) f [] (Text t) = Some (Some (fold g (filter shown (take (unat c) L)) []))"
    if "\<And>e xs. e \<in> set L \<Longrightarrow> f (fst e) (snd e) xs = Some (g e xs)" for f g
    unfolding up [symmetric] by (rule scan_hash_items [OF h], blast, rule that, rule sub [of _ "unat c"], simp add: up)
  have desc: "scan_hash (\<lambda>n. hrscan s n [] [] c) f [] (Text t) = Some (Some (fold g (filter shown (take (unat c) (rev L))) []))"
    if "\<And>e xs. e \<in> set L \<Longrightarrow> f (fst e) (snd e) xs = Some (g e xs)" for f g
    unfolding down [symmetric] by (rule scan_hash_items [OF h], blast, rule that, rule sub [of _ "unat c"], simp add: down)
  have first: "ext_hGetFirstKey p s (Text t) True = (case filter shown (take 1 L) of [] \<Rightarrow> NilObj | e # _ \<Rightarrow> Text (fst e))"
  proof -
    have srt: "sorted_keys (tbl (db s))" using h(1) by (simp add: hash_inv_def)
    note fr = hscan_frame [OF srt, of ?n "[]" "[]" 1]
    have pend: "hiter.pending (hscan s ?n [] [] 1) = take 1 L"
      using hiter.drain_all [OF fr(1,2)] up [of 1] by (simp add: hiter_items_def)
    have "hkey (hscan s ?n [] [] 1) = []" by (simp add: hscan_def hiter_new_def Let_def)
    from first_key_items [OF fr(1,2) this] show ?thesis
      using key(1) sub [of _ 1] by (simp add: ext_hGetFirstKey_def pend)
  qed
  let ?put = "\<lambda>k (v :: bytes) xs. add_object (utf8_string p k) xs" and ?at_end = "\<lambda>e xs. xs @ [(Text \<circ> fst) e]"
    and ?ins = "\<lambda>k (v :: bytes) xs. insert_first (utf8_string p k) xs" and ?at_front = "\<lambda>e xs. (Text \<circ> fst) e # xs"
  show ?thesis
    unfolding ext_keys_ascending_def ext_keys_descending_def if_True if_False simp_thms
    using asc [of ?put ?at_end, OF add] asc [of ?ins ?at_front, OF ins]
      desc [of ?put ?at_end, OF add] desc [of ?ins ?at_front, OF ins] first
    by (simp add: fold_lists comp_def)
qed

definition half_empty :: ssdb where
  "half_empty = snd (hset [1] [3] [7] BT_SYNC (snd (hset [1] [2] [] BT_SYNC empty_ssdb)))"

lemma half_empty: "hash_inv half_empty" "hash_map half_empty [1] = [[2] \<mapsto> [], [3] \<mapsto> [7]]"
proof -
  have m: "member_ok [1] [2 :: u8]" "member_ok [1] [3 :: u8]" by (simp_all add: member_ok_def)
  have c0: "hash_count empty_ssdb [1] + 1 < 2 ^ 63" by (simp add: hash_count_def)
  note st = hset_stores [OF _ _ m(1) c0, of "[]"]
  have inv: "hash_inv empty_ssdb" "reliable (db empty_ssdb)" by simp_all
  note st = st [OF inv]
  have "hash_count (snd (hset [1] [2] [] BT_SYNC empty_ssdb)) [1] + 1 < 2 ^ 63"
    using st(4) by (simp add: hash_count_def)
  note st' = hset_stores [OF st(1,2) m(2) this, of "[7]"]
  show "hash_inv half_empty" unfolding half_empty_def by (rule st'(1))
  show "hash_map half_empty [1] = [[2] \<mapsto> [], [3] \<mapsto> [7]]"
    unfolding half_empty_def st'(3) st(3) by simp
qed

lemma ext_keys_ordered_witness:
  "ext_hGetFirstKey echo half_empty (Text [1]) True = NilObj \<and>
   ext_keys_ascending echo half_empty (Text [1]) 10 False = Some (Some [Text [3]])"
proof -
  have n: "length (c_str [1]) \<le> 255" by (simp add: c_str_def)
  have m: "hash_map half_empty (c_str [1]) = [[2] \<mapsto> [], [3] \<mapsto> [7]]" using half_empty(2) by (simp add: c_str_def)
  have u: "255 \<notin> set b" if "utf8 echo b" for b using that by (simp add: echo_def)
  have f: "0 \<notin> set k \<and> utf8 echo k" if "hash_map half_empty (c_str [1]) k = Some v" for k v
    using that by (auto simp: m echo_def split: if_splits)
  have "listing (hash_map half_empty (c_str [1])) = [([2], []), ([3], [7])]" by (simp add: m listing_def)
  from ext_keys_ordered [where c = 10, OF half_empty(1) n u f this [symmetric]] show ?thesis
    by (simp add: shown_def)
qed

end
