(* ===== verification/Sorted_Set.thy ===== *)
theory Sorted_Set
  imports Leveldb
begin

text \<open>
  \<open>ssdb/util/sorted_set.h\<close> and \<open>sorted_set.cpp\<close>: the in-memory set of keys ordered by score that
  the expiration of keys works with. A \<open>std::set\<close> is the sorted list of its elements; the map
  \<open>existed\<close> leads from a key to the element its iterator points at.

  The interface \<open>keyed_queue\<close> extends the map interface \<open>kv_store\<close> by the laws of the two ends.
\<close>

section \<open>Items\<close>

datatype item = Item (item_key: bytes) (item_score: u64)

text \<open>\<open>operator<\<close> compares the scores as signed numbers, then the keys.\<close>

definition item_less :: "item \<Rightarrow> item \<Rightarrow> bool" where
  "item_less a b \<longleftrightarrow> sint (item_score a) < sint (item_score b) \<or>
     item_score a = item_score b \<and> item_key a < item_key b"

instantiation item :: linorder
begin

definition less_item :: "item \<Rightarrow> item \<Rightarrow> bool" where
  "less_item a b \<longleftrightarrow> item_less a b"

definition less_eq_item :: "item \<Rightarrow> item \<Rightarrow> bool" where
  "less_eq_item a b \<longleftrightarrow> a < b \<or> a = (b :: item)"

instance
proof
  fix x y z :: item
  show "(x < y) = (x \<le> y \<and> \<not> y \<le> x)" by (auto simp: less_item_def item_less_def less_eq_item_def)
  show "x \<le> x" by (simp add: less_eq_item_def)
  show "x \<le> y \<Longrightarrow> y \<le> z \<Longrightarrow> x \<le> z" by (auto simp: less_item_def item_less_def less_eq_item_def)
  show "x \<le> y \<Longrightarrow> y \<le> x \<Longrightarrow> x = y" by (auto simp: less_item_def item_less_def less_eq_item_def)
  have "sint a = sint b \<Longrightarrow> a = b" for a b :: u64 by (rule signed_word_eqI)
  then show "x \<le> y \<or> y \<le> x"
    by (cases x; cases y) (auto simp: less_item_def item_less_def less_eq_item_def neq_iff)
qed

end

section \<open>Operations\<close>

record sset =
  existed :: "bytes \<rightharpoonup> item"
  items :: "item list"

definition sset_empty :: sset where
  "sset_empty = \<lparr>existed = Map.empty, items = []\<rparr>"

definition sset_size :: "sset \<Rightarrow> int" where
  "sset_size s = sint (of_nat (length (items s)) :: 32 word)"

definition sset_add :: "bytes \<Rightarrow> u64 \<Rightarrow> sset \<Rightarrow> int \<times> sset" where
  "sset_add key score s =
     (let insert = (\<lambda>s. let x = Item key score
                        in s\<lparr>items := insort_insert x (items s), existed := (existed s)(key \<mapsto> x)\<rparr>)
      in case existed s key of
           None \<Rightarrow> (1, insert s)
         | Some x \<Rightarrow>
             if item_score x = score then (0, s)
             else (0, insert (s\<lparr>items := remove1 x (items s)\<rparr>)))"

definition sset_del :: "bytes \<Rightarrow> sset \<Rightarrow> int \<times> sset" where
  "sset_del key s =
     (case existed s key of
        None \<Rightarrow> (0, s)
      | Some x \<Rightarrow> (1, s\<lparr>items := remove1 x (items s), existed := (existed s)(key := None)\<rparr>))"

definition sset_front :: "sset \<Rightarrow> (bytes \<times> u64) option" where
  "sset_front s = (case items s of [] \<Rightarrow> None | x # _ \<Rightarrow> Some (item_key x, item_score x))"

definition sset_back :: "sset \<Rightarrow> (bytes \<times> u64) option" where
  "sset_back s =
     (if items s = [] then None else let x = last (items s) in Some (item_key x, item_score x))"

definition sset_max_score :: "sset \<Rightarrow> u64" where
  "sset_max_score s = (case sset_back s of None \<Rightarrow> 0 | Some (key, score) \<Rightarrow> score)"

definition sset_pop_front :: "sset \<Rightarrow> int \<times> sset" where
  "sset_pop_front s =
     (case items s of
        [] \<Rightarrow> (0, s)
      | x # xs \<Rightarrow> (1, s\<lparr>existed := (existed s)(item_key x := None), items := xs\<rparr>))"

definition sset_pop_back :: "sset \<Rightarrow> int \<times> sset" where
  "sset_pop_back s =
     (if items s = [] then (0, s)
      else (1, s\<lparr>existed := (existed s)(item_key (last (items s)) := None), items := butlast (items s)\<rparr>))"

section \<open>The interface\<close>

text \<open>
  A map with a view of its entries in an order: the front is the least entry, the back the
  greatest, and popping deletes it. \<open>inv\<close> holds initially and is kept.
\<close>

locale keyed_queue = kv_store get step
  for get :: "'t \<Rightarrow> 'k \<rightharpoonup> 'v" and step +
  fixes inv :: "'t \<Rightarrow> bool"
    and le :: "'k \<times> 'v \<Rightarrow> 'k \<times> 'v \<Rightarrow> bool"
    and front_of back_of :: "'t \<Rightarrow> ('k \<times> 'v) option"
    and pop_front pop_back :: "'t \<Rightarrow> 't"
  assumes inv_step: "inv t \<Longrightarrow> inv (step w t)"
    and inv_finite: "inv t \<Longrightarrow> finite (dom (get t))"
    and front_None: "inv t \<Longrightarrow> front_of t = None \<longleftrightarrow> get t = Map.empty"
    and front_least: "inv t \<Longrightarrow> front_of t = Some (k, v) \<Longrightarrow>
          get t k = Some v \<and> (\<forall>k' v'. get t k' = Some v' \<longrightarrow> le (k, v) (k', v'))"
    and back_None: "inv t \<Longrightarrow> back_of t = None \<longleftrightarrow> get t = Map.empty"
    and back_greatest: "inv t \<Longrightarrow> back_of t = Some (k, v) \<Longrightarrow>
          get t k = Some v \<and> (\<forall>k' v'. get t k' = Some v' \<longrightarrow> le (k', v') (k, v))"
    and pop_front_step: "inv t \<Longrightarrow> front_of t = Some (k, v) \<Longrightarrow> pop_front t = step (WDel k) t"
    and pop_back_step: "inv t \<Longrightarrow> back_of t = Some (k, v) \<Longrightarrow> pop_back t = step (WDel k) t"
begin

lemma inv_pop:
  "inv t \<Longrightarrow> front_of t = Some e \<Longrightarrow> inv (pop_front t)"
  "inv t \<Longrightarrow> back_of t = Some e \<Longrightarrow> inv (pop_back t)"
  by (cases e; simp add: pop_front_step pop_back_step inv_step)+

lemma get_pop:
  "inv t \<Longrightarrow> front_of t = Some (k, v) \<Longrightarrow> get (pop_front t) = (get t)(k := None)"
  "inv t \<Longrightarrow> back_of t = Some (k, v) \<Longrightarrow> get (pop_back t) = (get t)(k := None)"
  by (simp_all add: pop_front_step pop_back_step get_step)

text \<open>The entries taken from the front one by one.\<close>

fun popped :: "nat \<Rightarrow> 't \<Rightarrow> ('k \<times> 'v) list" where
  "popped 0 t = []"
| "popped (Suc n) t = (case front_of t of None \<Rightarrow> [] | Some e \<Rightarrow> e # popped n (pop_front t))"

lemma popped_sub: "inv t \<Longrightarrow> (k, v) \<in> set (popped n t) \<Longrightarrow> get t k = Some v"
proof (induction n arbitrary: t)
  case (Suc n)
  then obtain e where e: "front_of t = Some e" "(k, v) \<in> set (e # popped n (pop_front t))"
    by (cases "front_of t") auto
  obtain k' v' where [simp]: "e = (k', v')" by fastforce
  from e(2) show ?case
    using Suc.IH [OF inv_pop(1) [OF Suc.prems(1) e(1)]] get_pop(1) [OF Suc.prems(1)] e(1)
      front_least [OF Suc.prems(1)] by (auto split: if_splits)
qed simp

lemma popped_all:
  assumes "inv t" "card (dom (get t)) \<le> n"
  shows "sorted_wrt le (popped n t) \<and> distinct (map fst (popped n t)) \<and>
    map_of (popped n t) = get t"
  using assms
proof (induction n arbitrary: t)
  case 0
  then have "dom (get t) = {}" using inv_finite by simp
  then show ?case by simp
next
  case (Suc n)
  show ?case
  proof (cases "front_of t")
    case None
    then show ?thesis using front_None [OF Suc.prems(1)] by simp
  next
    case (Some e)
    obtain k v where e: "e = (k, v)" by fastforce
    let ?u = "pop_front t"
    have get: "get ?u = (get t)(k := None)" using get_pop(1) Suc.prems(1) Some e by blast
    have kt: "get t k = Some v" "\<And>k' v'. get t k' = Some v' \<Longrightarrow> le (k, v) (k', v')"
      using front_least Suc.prems(1) Some e by blast+
    then have "card (dom (get ?u)) \<le> n"
      using Suc.prems inv_finite by (simp add: get domI card_Diff_singleton)
    with Suc.IH inv_pop(1) [OF Suc.prems(1) Some]
    have IH: "sorted_wrt le (popped n ?u)" "distinct (map fst (popped n ?u))"
      "map_of (popped n ?u) = get ?u" by blast+
    have rest: "get ?u k' = Some v'" if "(k', v') \<in> set (popped n ?u)" for k' v'
      using popped_sub [OF inv_pop(1) [OF Suc.prems(1) Some] that] .
    have "le (k, v) x \<and> fst x \<noteq> k" if "x \<in> set (popped n ?u)" for x
      using rest [of "fst x" "snd x"] that kt(2) [of "fst x" "snd x"] by (auto simp: get split: if_splits)
    with IH Some kt(1) show ?thesis by (auto simp: e get)
  qed
qed

end

section \<open>The set is a keyed queue\<close>

definition sset_get :: "sset \<Rightarrow> bytes \<rightharpoonup> u64" where
  "sset_get s = (\<lambda>k. map_option item_score (existed s k))"

fun sset_step :: "(bytes, u64) wop \<Rightarrow> sset \<Rightarrow> sset" where
  "sset_step (WPut k v) s = snd (sset_add k v s)"
| "sset_step (WDel k) s = snd (sset_del k s)"

text \<open>The list is strictly sorted, and the map points exactly at its elements.\<close>

definition sset_ok :: "sset \<Rightarrow> bool" where
  "sset_ok s \<longleftrightarrow> sorted (items s) \<and> distinct (items s) \<and>
     (\<forall>k x. existed s k = Some x \<longleftrightarrow> x \<in> set (items s) \<and> item_key x = k)"

lemma sset_okD:
  assumes "sset_ok s"
  shows "sorted (items s)" "distinct (items s)"
    "existed s k = Some x \<longleftrightarrow> x \<in> set (items s) \<and> item_key x = k"
  using assms by (simp_all add: sset_ok_def)

lemma sset_ok_None: "sset_ok s \<Longrightarrow> existed s k = None \<longleftrightarrow> (\<forall>x \<in> set (items s). item_key x \<noteq> k)"
  using sset_okD(3) [of s k] by (metis not_None_eq)

lemma sset_key_unique:
  assumes "sset_ok s" "x \<in> set (items s)" "y \<in> set (items s)" "item_key x = item_key y"
  shows "x = y"
  using sset_okD(3) [OF assms(1), of "item_key y" x] sset_okD(3) [OF assms(1), of "item_key y" y]
    assms by simp

lemma sset_ok_del: "sset_ok s \<Longrightarrow> sset_ok (snd (sset_del k s))"
  using sset_key_unique [of s] sset_okD [of s]
  by (fastforce simp: sset_del_def sset_ok_def sorted_remove1 split: option.split)

lemma sset_ok_insert:
  assumes "sset_ok s" "existed s k = None"
  shows "sset_ok (s\<lparr>items := insort_insert (Item k v) (items s), existed := (existed s)(k \<mapsto> Item k v)\<rparr>)"
  using sset_okD [OF assms(1)] sset_ok_None [OF assms(1), of k] assms(2)
  by (auto simp: sset_ok_def set_insort_insert distinct_insort_insert sorted_insort_insert)

lemma sset_add_del:
  assumes "existed s k \<noteq> None" "existed s k \<noteq> Some (Item k v)" "sset_ok s"
  shows "snd (sset_add k v s) = snd (sset_add k v (snd (sset_del k s)))"
proof -
  obtain x where x: "existed s k = Some x" using assms(1) by blast
  then have "item_key x = k" using sset_okD(3) [OF assms(3)] by blast
  with x assms(2) have "item_score x \<noteq> v" by (cases x) auto
  with x show ?thesis by (simp add: sset_add_def sset_del_def Let_def)
qed

lemma sset_ok_add:
  assumes "sset_ok s"
  shows "sset_ok (snd (sset_add k v s))"
proof -
  have new: "sset_ok (snd (sset_add k v t))" if "sset_ok t" "existed t k = None" for t
    using sset_ok_insert [OF that] that(2) by (simp add: sset_add_def Let_def)
  show ?thesis
  proof (cases "existed s k")
    case None
    with new assms show ?thesis by blast
  next
    case (Some x)
    show ?thesis
    proof (cases "x = Item k v")
      case True
      with Some assms show ?thesis by (simp add: sset_add_def)
    next
      case False
      have "existed (snd (sset_del k s)) k = None" by (simp add: sset_del_def split: option.split)
      then show ?thesis
        using sset_add_del [of s k v] new [OF sset_ok_del [OF assms]] Some False assms by simp
    qed
  qed
qed

lemma sset_get_step: "sset_get (sset_step w s) = mstep w (sset_get s)"
  by (cases w)
    (auto simp: sset_get_def sset_add_def sset_del_def Let_def fun_eq_iff split: option.split)

lemma sset_get_item: "sset_ok s \<Longrightarrow> sset_get s k = Some v \<longleftrightarrow> Item k v \<in> set (items s)"
  using sset_okD(3) [of s k] by (fastforce simp: sset_get_def split: option.split)

lemma sset_get_empty: "sset_ok s \<Longrightarrow> sset_get s = Map.empty \<longleftrightarrow> items s = []"
proof
  assume ok: "sset_ok s" and e: "sset_get s = Map.empty"
  have "x \<notin> set (items s)" for x
    using sset_get_item [OF ok, of "item_key x" "item_score x"] e by simp
  then show "items s = []" by (cases "items s") auto
next
  assume "sset_ok s" "items s = []"
  then show "sset_get s = Map.empty"
    using sset_get_item [of s] by (intro ext) (metis empty_iff list.set(1) not_None_eq)
qed

definition item_le :: "bytes \<times> u64 \<Rightarrow> bytes \<times> u64 \<Rightarrow> bool" where
  "item_le a b \<longleftrightarrow> Item (fst a) (snd a) \<le> Item (fst b) (snd b)"

lemma sset_front_pop:
  assumes "sset_ok s" "sset_front s = Some (k, v)"
  shows "Item k v \<in> set (items s)" "x \<in> set (items s) \<Longrightarrow> Item k v \<le> x"
    "snd (sset_pop_front s) = snd (sset_del k s)"
proof -
  obtain xs where xs: "items s = Item k v # xs"
    using assms(2) by (auto simp: sset_front_def split: list.splits)
  then show "Item k v \<in> set (items s)" "x \<in> set (items s) \<Longrightarrow> Item k v \<le> x"
    using sset_okD(1) [OF assms(1)] by auto
  have "existed s k = Some (Item k v)" using sset_okD(3) [OF assms(1)] xs by simp
  then show "snd (sset_pop_front s) = snd (sset_del k s)"
    by (simp add: sset_pop_front_def sset_del_def xs)
qed

lemma sset_back_pop:
  assumes "sset_ok s" "sset_back s = Some (k, v)"
  shows "Item k v \<in> set (items s)" "x \<in> set (items s) \<Longrightarrow> x \<le> Item k v"
    "snd (sset_pop_back s) = snd (sset_del k s)"
proof -
  have ne: "items s \<noteq> []" and l: "last (items s) = Item k v"
    using assms(2) by (auto simp: sset_back_def Let_def split: if_splits)
  then obtain xs where xs: "items s = xs @ [Item k v]" by (metis append_butlast_last_id)
  then show "Item k v \<in> set (items s)" "x \<in> set (items s) \<Longrightarrow> x \<le> Item k v"
    using sset_okD(1) [OF assms(1)] by (auto simp: sorted_append)
  have "existed s k = Some (Item k v)" using sset_okD(3) [OF assms(1)] xs by simp
  moreover have "remove1 (Item k v) (items s) = xs"
    using sset_okD(2) [OF assms(1)] by (simp add: xs remove1_append)
  ultimately show "snd (sset_pop_back s) = snd (sset_del k s)"
    using ne l by (simp add: sset_pop_back_def sset_del_def xs)
qed

interpretation sset: keyed_queue sset_get sset_step sset_ok item_le sset_front sset_back
  "\<lambda>s. snd (sset_pop_front s)" "\<lambda>s. snd (sset_pop_back s)"
proof
  fix w s show "sset_get (sset_step w s) = mstep w (sset_get s)" by (rule sset_get_step)
next
  fix s :: sset and k v assume ok: "sset_ok s"
  show "sset_ok (sset_step w s)" for w
    using ok sset_ok_add sset_ok_del by (cases w) simp_all
  show "finite (dom (sset_get s))"
  proof (rule finite_subset)
    show "dom (sset_get s) \<subseteq> item_key ` set (items s)"
      using sset_get_item [OF ok] by (force simp: dom_def)
  qed simp
  show "sset_front s = None \<longleftrightarrow> sset_get s = Map.empty" "sset_back s = None \<longleftrightarrow> sset_get s = Map.empty"
    by (auto simp: sset_get_empty [OF ok] sset_front_def sset_back_def Let_def split: list.split)
  show "sset_front s = Some (k, v) \<Longrightarrow>
      sset_get s k = Some v \<and> (\<forall>k' v'. sset_get s k' = Some v' \<longrightarrow> item_le (k, v) (k', v'))"
    using sset_front_pop [OF ok] by (simp add: sset_get_item [OF ok] item_le_def)
  show "sset_back s = Some (k, v) \<Longrightarrow>
      sset_get s k = Some v \<and> (\<forall>k' v'. sset_get s k' = Some v' \<longrightarrow> item_le (k', v') (k, v))"
    using sset_back_pop [OF ok] by (simp add: sset_get_item [OF ok] item_le_def)
  show "sset_front s = Some (k, v) \<Longrightarrow> snd (sset_pop_front s) = sset_step (WDel k) s"
    using sset_front_pop(3) [OF ok] by simp
  show "sset_back s = Some (k, v) \<Longrightarrow> snd (sset_pop_back s) = sset_step (WDel k) s"
    using sset_back_pop(3) [OF ok] by simp
qed

lemma sset_ok_empty [simp]: "sset_ok sset_empty" "sset_get sset_empty = Map.empty"
  by (simp_all add: sset_ok_def sset_empty_def sset_get_def fun_eq_iff)

lemma length_items:
  assumes "sset_ok s"
  shows "length (items s) = card (dom (sset_get s))"
proof -
  have "dom (sset_get s) = item_key ` set (items s)"
  proof (intro set_eqI iffI)
    fix k assume "k \<in> dom (sset_get s)"
    then obtain v where "Item k v \<in> set (items s)" using sset_get_item [OF assms] by blast
    then show "k \<in> item_key ` set (items s)" by force
  next
    fix k assume "k \<in> item_key ` set (items s)"
    then obtain x where "x \<in> set (items s)" "k = item_key x" by blast
    then show "k \<in> dom (sset_get s)"
      using sset_get_item [OF assms, of k "item_score x"] by auto
  qed
  moreover have "inj_on item_key (set (items s))"
    using sset_key_unique [OF assms] by (auto simp: inj_on_def)
  ultimately show ?thesis
    using sset_okD(2) [OF assms] by (simp add: card_image distinct_card)
qed

section \<open>A cache of the least entries\<close>

text \<open>
  The use the expiration handler makes of the set: it holds some of the entries of a larger map
  \<open>D\<close>, all those of lower rank than any entry it holds.
\<close>

locale least_entries = keyed_queue get step inv le front_of back_of pop_front pop_back
  for get :: "'t \<Rightarrow> 'k \<rightharpoonup> 'v" and step inv le front_of back_of pop_front pop_back +
  fixes rank :: "'v \<Rightarrow> int"
  assumes le_rank: "le (k, v) (k', v') \<Longrightarrow> rank v \<le> rank v'"
begin

definition covers :: "'t \<Rightarrow> ('k \<rightharpoonup> 'v) \<Rightarrow> bool" where
  "covers t D \<longleftrightarrow> inv t \<and> (\<forall>k v. get t k = Some v \<longrightarrow> D k = Some v) \<and>
     (\<forall>k v k' v'. get t k = Some v \<longrightarrow> D k' = Some v' \<longrightarrow> rank v' < rank v \<longrightarrow> get t k' = Some v')"

lemma coversD:
  assumes "covers t D"
  shows "inv t" "get t k = Some v \<Longrightarrow> D k = Some v"
    "get t k = Some v \<Longrightarrow> D k' = Some v' \<Longrightarrow> rank v' < rank v \<Longrightarrow> get t k' = Some v'"
  using assms unfolding covers_def by blast+

lemma coversI:
  assumes "inv t" "\<And>k v. get t k = Some v \<Longrightarrow> D k = Some v"
    "\<And>k v k' v'. get t k = Some v \<Longrightarrow> D k' = Some v' \<Longrightarrow> rank v' < rank v \<Longrightarrow> get t k' = Some v'"
  shows "covers t D"
  using assms unfolding covers_def by blast

lemma back_rank:
  "inv t \<Longrightarrow> back_of t = Some (m, u) \<Longrightarrow> get t k = Some v \<Longrightarrow> rank v \<le> rank u"
  using back_greatest le_rank by blast

lemma covers_put:
  assumes c: "covers t D" and b: "back_of t = Some (m, u)" "rank v \<le> rank u"
  shows "covers (step (WPut k v) t) (D(k \<mapsto> v))"
proof (rule coversI)
  have u: "get t m = Some u" using back_greatest b coversD(1) [OF c] by blast
  show "inv (step (WPut k v) t)" by (rule inv_step [OF coversD(1) [OF c]])
  show "(D(k \<mapsto> v)) x = Some y" if "get (step (WPut k v) t) x = Some y" for x y
    using that coversD(2) [OF c] by (simp add: get_step split: if_splits)
  show "get (step (WPut k v) t) x' = Some y'"
    if "get (step (WPut k v) t) x = Some y" "(D(k \<mapsto> v)) x' = Some y'" "rank y' < rank y" for x y x' y'
    using that coversD(3) [OF c, of x y x' y'] coversD(3) [OF c u, of x' y'] b(2)
    by (auto simp: get_step split: if_splits)
qed

lemma covers_skip:
  assumes c: "covers t D" and b: "\<And>m u. back_of t = Some (m, u) \<Longrightarrow> rank u < rank v"
  shows "covers (step (WDel k) t) (D(k \<mapsto> v))"
proof (rule coversI)
  show "inv (step (WDel k) t)" by (rule inv_step [OF coversD(1) [OF c]])
  have low: "rank y < rank v" if "get t x = Some y" for x y
  proof (cases "back_of t")
    case None
    then show ?thesis using that back_None [OF coversD(1) [OF c]] by simp
  next
    case (Some e)
    then obtain m u where e: "back_of t = Some (m, u)" by (cases e) simp
    from b [OF e] back_rank [OF coversD(1) [OF c] e that] show ?thesis by simp
  qed
  show "(D(k \<mapsto> v)) x = Some y" if "get (step (WDel k) t) x = Some y" for x y
    using that coversD(2) [OF c] by (simp add: get_step split: if_splits)
  show "get (step (WDel k) t) x' = Some y'"
    if "get (step (WDel k) t) x = Some y" "(D(k \<mapsto> v)) x' = Some y'" "rank y' < rank y" for x y x' y'
    using that coversD(3) [OF c, of x y x' y'] low [of x y]
    by (auto simp: get_step split: if_splits)
qed

lemma covers_del:
  assumes c: "covers t D"
  shows "covers (step (WDel k) t) (D(k := None))"
proof (rule coversI)
  show "inv (step (WDel k) t)" by (rule inv_step [OF coversD(1) [OF c]])
  show "(D(k := None)) x = Some y" if "get (step (WDel k) t) x = Some y" for x y
    using that coversD(2) [OF c] by (simp add: get_step split: if_splits)
  show "get (step (WDel k) t) x' = Some y'"
    if "get (step (WDel k) t) x = Some y" "(D(k := None)) x' = Some y'" "rank y' < rank y" for x y x' y'
    using that coversD(3) [OF c, of x y x' y'] by (auto simp: get_step split: if_splits)
qed

lemma covers_pop_back:
  assumes c: "covers t D" and b: "back_of t = Some (m, u)"
  shows "covers (pop_back t) D"
proof (rule coversI)
  have get: "get (pop_back t) = (get t)(m := None)" using get_pop(2) b coversD(1) [OF c] by blast
  have u: "get t m = Some u" using back_greatest b coversD(1) [OF c] by blast
  show "inv (pop_back t)" using inv_pop(2) b coversD(1) [OF c] by blast
  show "D x = Some y" if "get (pop_back t) x = Some y" for x y
    using that coversD(2) [OF c] by (simp add: get split: if_splits)
  show "get (pop_back t) x' = Some y'"
    if "get (pop_back t) x = Some y" "D x' = Some y'" "rank y' < rank y" for x y x' y'
    using that coversD(3) [OF c, of x y x' y'] back_rank [OF coversD(1) [OF c] b, of x y] u
    by (auto simp: get split: if_splits)
qed

text \<open>The front of the cache is an entry of least rank of the whole map.\<close>

lemma covers_front:
  assumes c: "covers t D" and f: "front_of t = Some (k, v)"
  shows "D k = Some v" "D k' = Some v' \<Longrightarrow> rank v \<le> rank v'"
proof -
  have v: "get t k = Some v" and least: "\<And>k' v'. get t k' = Some v' \<Longrightarrow> rank v \<le> rank v'"
    using front_least [OF coversD(1) [OF c] f] le_rank by blast+
  show "D k = Some v" by (rule coversD(2) [OF c v])
  show "D k' = Some v' \<Longrightarrow> rank v \<le> rank v'"
    using coversD(3) [OF c v] least by (meson not_less)
qed

lemma covers_empty: "inv t \<Longrightarrow> get t = Map.empty \<Longrightarrow> covers t D"
  by (simp add: covers_def)

text \<open>A cache filled from the beginning of a list of all entries in the order of rank.\<close>

lemma covers_load:
  assumes "inv t" "sorted_wrt (\<lambda>a b. rank (snd a) \<le> rank (snd b)) xs" "distinct (map fst xs)"
    and D: "map_of xs = D" and t: "get t = map_of (take n xs)"
  shows "covers t D"
proof (rule coversI)
  have split: "map_of (take n xs @ drop n xs) = D" by (simp add: D)
  have dist: "distinct (map fst (take n xs))" by (simp add: assms(3) flip: take_map)
  have "sorted_wrt (\<lambda>a b. rank (snd a) \<le> rank (snd b)) (take n xs @ drop n xs)"
    by (simp add: assms(2))
  then have srt: "\<forall>x \<in> set (take n xs). \<forall>y \<in> set (drop n xs). rank (snd x) \<le> rank (snd y)"
    unfolding sorted_wrt_append by blast
  show "inv t" by (rule assms(1))
  show "D k = Some v" if "get t k = Some v" for k v
    using that split t by (metis map_of_SomeD map_of_is_SomeI in_set_takeD assms(3) D)
  show "get t k' = Some v'" if "get t k = Some v" "D k' = Some v'" "rank v' < rank v" for k v k' v'
  proof -
    have k: "(k, v) \<in> set (take n xs)" using that(1) t by (simp add: map_of_SomeD)
    have "(k', v') \<in> set (take n xs) \<union> set (drop n xs)"
      unfolding set_append [symmetric] using that(2) split by (metis map_of_SomeD)
    moreover have "(k', v') \<notin> set (drop n xs)"
      using srt k that(3) by fastforce
    ultimately have "(k', v') \<in> set (take n xs)" by blast
    then show ?thesis using t dist by (simp add: map_of_is_SomeI)
  qed
qed

end

interpretation fast: least_entries sset_get sset_step sset_ok item_le sset_front sset_back
  "\<lambda>s. snd (sset_pop_front s)" "\<lambda>s. snd (sset_pop_back s)" sint
  by unfold_locales (auto simp: item_le_def less_eq_item_def less_item_def item_less_def)

end
