(* ===== verification/Ttl.thy ===== *)
theory Ttl
  imports T_kv T_zset_Order Sorted_Set
begin

text \<open>
  \<open>ssdb/ssdb/ttl.h\<close> and \<open>ttl.cpp\<close>: the expiration of keys. The deadlines are the scores of a
  sorted set of the database under a reserved name; the handler keeps the nearest of them in
  memory (\<open>fast_keys\<close>) and the least deadline it knows of (\<open>first_timeout\<close>).

  The result of \<open>time_ms()\<close> is the argument \<open>now\<close>. Taking the mutex is modelled by running the
  code it protects as one step; here a turn of the thread runs undisturbed, and \<open>Ttl_Race\<close> lets
  the clients run between its steps. The handler exists while its \<open>ssdb\<close> pointer is set.
\<close>

section \<open>The handler\<close>

record handler =
  srv :: ssdb
  first_timeout :: i64
  fast_keys :: sset

definition EXPIRATION_LIST_KEY :: bytes where
  "EXPIRATION_LIST_KEY = replicate 5 255 @ lit ''|EXPIRE_LIST|KV''"

definition BATCH_SIZE :: nat where [simp]: "BATCH_SIZE = 1000"

definition INT64_MAX :: i64 where [simp]: "INT64_MAX = 9223372036854775807"

definition handler_new :: "ssdb \<Rightarrow> handler" where
  "handler_new s = \<lparr>srv = s, first_timeout = 0, fast_keys = sset_empty\<rparr>"

definition set_ttl :: "i64 \<Rightarrow> bytes \<Rightarrow> i64 \<Rightarrow> handler \<Rightarrow> int \<times> handler" where
  "set_ttl now key ttl h =
     (let expired = now + ttl * 1000;
          (ret, s) = zset EXPIRATION_LIST_KEY key (str_i64 expired) BT_SYNC (srv h);
          h = h\<lparr>srv := s\<rparr>
      in if ret = -1 then (-1, h)
         else
           let h = (if sint expired < sint (first_timeout h) then h\<lparr>first_timeout := expired\<rparr> else h);
               fast = fast_keys h;
               fast' = (if sset_size fast \<noteq> 0 \<and> sint expired \<le> sint (sset_max_score fast)
                        then let f1 = snd (sset_add key expired fast)
                             in if sset_size f1 > int BATCH_SIZE then snd (sset_pop_back f1) else f1
                        else snd (sset_del key fast))
           in (0, h\<lparr>fast_keys := fast'\<rparr>))"

definition del_ttl :: "bytes \<Rightarrow> handler \<Rightarrow> int \<times> handler" where
  "del_ttl key h =
     (if first_timeout h \<noteq> INT64_MAX
      then (0, h\<lparr>fast_keys := snd (sset_del key (fast_keys h)),
                 srv := snd (zdel EXPIRATION_LIST_KEY key BT_SYNC (srv h))\<rparr>)
      else (0, h))"

definition get_ttl :: "i64 \<Rightarrow> bytes \<Rightarrow> handler \<Rightarrow> int" where
  "get_ttl now key h =
     (let (ret, score) = zget (srv h) EXPIRATION_LIST_KEY key
      in if ret = 1
         then let ex = fst (str_to_int64 (case score of None \<Rightarrow> [] | Some v \<Rightarrow> v))
              in c_div (sint (ex - now)) 1000
         else -1)"

text \<open>Scores of older versions, in seconds, become milliseconds.\<close>

definition load_score :: "bytes \<Rightarrow> i64" where
  "load_score s =
     (let score = fst (str_to_int64 s) in if sint score < 2000000000 then score * 1000 else score)"

function load_fast :: "ziter \<Rightarrow> sset \<Rightarrow> sset" where
  "load_fast z fast =
     (case ziter_next z of
        (False, z') \<Rightarrow> fast
      | (True, z') \<Rightarrow> load_fast z' (snd (sset_add (zkey z') (load_score (zscore z')) fast)))"
  by pat_completeness auto
termination
  by (relation "measure (\<lambda>(z, fast). unat (limit (zit z)))") (auto dest!: sym ziter_next_limit)

declare load_fast.simps [simp del]

definition load_expiration_keys :: "nat \<Rightarrow> handler \<Rightarrow> handler" where
  "load_expiration_keys num h =
     h\<lparr>fast_keys := load_fast (zscan (srv h) EXPIRATION_LIST_KEY [] [] [] (of_nat num)) (fast_keys h)\<rparr>"

text \<open>The part of \<open>expire_loop\<close> under its second lock.\<close>

definition expire_front :: "i64 \<Rightarrow> handler \<Rightarrow> handler" where
  "expire_front now h =
     (if sset_size (fast_keys h) = 0 then h\<lparr>first_timeout := INT64_MAX\<rparr>
      else case sset_front (fast_keys h) of
             None \<Rightarrow> h
           | Some (key, score) \<Rightarrow>
               let h = h\<lparr>first_timeout := score\<rparr>
               in if sint score \<le> sint now
                  then let s1 = snd (kv_del key BT_SYNC (srv h));
                           s2 = snd (zdel EXPIRATION_LIST_KEY key BT_SYNC s1)
                       in h\<lparr>srv := s2, fast_keys := snd (sset_pop_front (fast_keys h))\<rparr>
                  else h)"

definition expire_loop :: "i64 \<Rightarrow> handler \<Rightarrow> handler" where
  "expire_loop now h =
     (let need_load = (sset_size (fast_keys h) = 0);
          h = (if need_load then load_expiration_keys BATCH_SIZE h else h)
      in expire_front now h)"

text \<open>One turn of the loop of \<open>thread_func\<close>; \<open>False\<close> means it slept.\<close>

definition ttl_turn :: "i64 \<Rightarrow> handler \<Rightarrow> bool \<times> handler" where
  "ttl_turn now h =
     (if sint (first_timeout h) > sint now then (False, h) else (True, expire_loop now h))"

section \<open>Deadlines\<close>

definition deadlines :: "handler \<Rightarrow> bytes \<rightharpoonup> i64" where
  "deadlines h = zset_map (srv h) EXPIRATION_LIST_KEY"

definition values_of :: "handler \<Rightarrow> bytes \<rightharpoonup> bytes" where
  "values_of h = kv_map (srv h)"

text \<open>Deadlines in the range of the clock: not taken for seconds, and not the mark of no deadline.\<close>

definition clock_range :: "i64 \<Rightarrow> bool" where
  "clock_range t \<longleftrightarrow> 2000000000 \<le> sint t \<and> sint t < sint INT64_MAX"

definition ttl_ok :: "handler \<Rightarrow> bool" where
  "ttl_ok h \<longleftrightarrow> zset_inv (srv h) \<and> reliable (db (srv h)) \<and>
     fast.covers (fast_keys h) (deadlines h) \<and> length (items (fast_keys h)) \<le> BATCH_SIZE \<and>
     (\<forall>k t. deadlines h k = Some t \<longrightarrow> clock_range t \<and> sint (first_timeout h) \<le> sint t)"

lemma ttl_okD:
  assumes "ttl_ok h"
  shows "zset_inv (srv h)" "reliable (db (srv h))" "fast.covers (fast_keys h) (deadlines h)"
    "length (items (fast_keys h)) \<le> 1000" "sset_ok (fast_keys h)"
    "deadlines h k = Some t \<Longrightarrow> clock_range t" "deadlines h k = Some t \<Longrightarrow> sint (first_timeout h) \<le> sint t"
  using assms fast.coversD(1) unfolding ttl_ok_def BATCH_SIZE_def by blast+

lemma list_name_length [simp]: "length EXPIRATION_LIST_KEY = 20" "EXPIRATION_LIST_KEY \<noteq> []"
  by (simp_all add: EXPIRATION_LIST_KEY_def lit_def)

lemma sset_size_small:
  assumes "length (items f) \<le> 1001"
  shows "sset_size f = int (length (items f))"
proof -
  have "sint (of_int (int (length (items f))) :: 32 word) = int (length (items f))"
    using assms signed_take_bit_int_eq_self [of 31 "int (length (items f))"]
    by (simp only: signed_of_int) simp
  then show ?thesis by (simp add: sset_size_def)
qed

lemma sset_size_0: "length (items f) \<le> 1001 \<Longrightarrow> sset_size f = 0 \<longleftrightarrow> items f = []"
  by (simp add: sset_size_small)

lemma deadline_key:
  assumes "zset_inv (srv h)" "deadlines h k = Some t"
  shows "k \<noteq> []" "length k \<le> 255"
proof -
  have ok: "zset_ok (data (srv h))" using assms(1) by (simp add: zset_inv_def)
  obtain v where "data (srv h) (encode_zset_key EXPIRATION_LIST_KEY k) = Some v"
    using assms(2) by (auto simp: deadlines_def zset_map_def)
  from zset_stored [OF ok this] show "k \<noteq> []" "length k \<le> 255"
    by (auto simp: member_ok_def)
qed

section \<open>The operations on the database\<close>

lemma fold_mstep_untouched: "x \<notin> wop_key ` set ws \<Longrightarrow> fold mstep ws m x = m x"
proof (induction ws arbitrary: m)
  case (Cons w ws)
  then show ?case by (cases w) simp_all
qed simp

lemma act_tran_kv_map:
  assumes "\<forall>w \<in> set (acts_ops as). data_op w \<and> \<not> prefix [107] (wop_key w)"
  shows "kv_map (snd (act_tran lt as r s)) = kv_map s"
proof
  fix k
  have "prefix [107] (encode_kv_key k)" by (simp add: key_heads)
  then have "encode_kv_key k \<notin> wop_key ` set (acts_ops as)" using assms by auto
  with fold_mstep_untouched [OF this] show "kv_map (snd (act_tran lt as r s)) k = kv_map s k"
    using assms by (simp add: kv_map_def act_tran_data)
qed

lemma zset_acts_kv:
  "w \<in> set (acts_ops (zset_acts s n k sc)) \<Longrightarrow> \<not> prefix [107] (wop_key w)"
  "w \<in> set (acts_ops (zdel_acts s n k)) \<Longrightarrow> \<not> prefix [107] (wop_key w)"
  by (auto simp: zset_acts_def zput_acts_def zdel_acts_def key_heads
      split: option.splits if_splits)

lemma put_deadline:
  assumes s: "zset_inv s" "reliable (db s)" "zset_count s n + 1 < 2 ^ 63"
    and k: "member_ok n k" and z: "zset n k (str_i64 e) lt s = (r, s')"
  shows "r \<noteq> -1" "zset_inv s'" "reliable (db s')" "zset_map s' n = (zset_map s n)(k \<mapsto> e)"
    "kv_map s' = kv_map s"
proof -
  have n: "length n \<le> 255" "n \<noteq> []" "k \<noteq> []" "length k \<le> 255" using k by (simp_all add: member_ok_def)
  have c: "snd (zset_exec lt (ZSet n k (str_i64 e)) s) = s'" by (simp add: z)
  note keeps = zset_exec_reliably [OF s(1,2), of "ZSet n k (str_i64 e)" lt, unfolded c]
  show "zset_inv s'" "reliable (db s')" using keeps(1,2) n(1) s(3) by simp_all
  show "zset_map s' n = (zset_map s n)(k \<mapsto> e)"
    using keeps(3) n s(3) by (simp add: spec_write_def)
  have ok: "zset_ok (data s)" using s(1) by (simp add: zset_inv_def)
  note t = zset_tran [OF k zset_readable_reliable [OF s(2)] ok s(3), of "str_i64 e" lt]
  have r: "r = fst (zset n k (str_i64 e) lt s)" "s' = snd (zset n k (str_i64 e) lt s)" by (simp_all add: z)
  show "r \<noteq> -1" using s(2) unfolding r(1) t by (simp add: act_tran_result)
  show "kv_map s' = kv_map s"
    unfolding r(2) t by (rule act_tran_kv_map) (simp add: zset_acts_data zset_acts_kv)
qed

lemma drop_deadline:
  assumes s: "zset_inv s" "reliable (db s)" "zset_count s n + 1 < 2 ^ 63"
    and n: "length n \<le> 255" "length k \<le> 255" and z: "s' = snd (zdel n k lt s)"
  shows "zset_inv s'" "reliable (db s')" "zset_map s' n = (zset_map s n)(k := None)"
    "kv_map s' = kv_map s"
proof -
  have c: "snd (zset_exec lt (ZDel n k) s) = s'" by (simp add: z case_prod_unfold Let_def)
  note keeps = zset_exec_reliably [OF s(1,2), of "ZDel n k" lt, unfolded c]
  show "zset_inv s'" "reliable (db s')" using keeps(1,2) n s(3) by simp_all
  show "zset_map s' n = (zset_map s n)(k := None)"
    using keeps(3) n s(3) by (simp add: spec_write_def)
  have ok: "zset_ok (data s)" using s(1) by (simp add: zset_inv_def)
  show "kv_map s' = kv_map s"
    unfolding z zdel_tran [OF n zset_readable_reliable [OF s(2)] ok]
    by (rule act_tran_kv_map) (simp add: zdel_acts_data zset_acts_kv)
qed

lemma zset_ok_frame:
  assumes "zset_ok m" "\<And>y. \<not> prefix [107] y \<Longrightarrow> m' y = m y"
  shows "zset_ok m'"
  using assms(1) by (rule zset_ok_cong) (auto intro!: assms(2) simp: prefix_def)

lemma del_value:
  assumes s: "zset_inv s" "reliable (db s)" and k: "length k \<le> 255" and z: "s' = snd (kv_del k lt s)"
  shows "zset_inv s'" "reliable (db s')" "zset_map s' = zset_map s" "kv_map s' = (kv_map s)(k := None)"
proof -
  have t: "s' = snd (act_tran lt (kv_del_acts k) 1 s)" using k by (simp add: z kv_del_tran)
  have dm: "data s' = (data s)(encode_kv_key k := None)"
    unfolding t by (subst act_tran_data) (simp_all add: s(2))
  have d: "data s' y = data s y" if "\<not> prefix [107] y" for y
  proof -
    have "prefix [107] (encode_kv_key k)" by (simp add: key_heads)
    then have "y \<noteq> encode_kv_key k" using that by blast
    then show ?thesis unfolding dm by simp
  qed
  have "zset_ok (data s)" using s(1) by (simp add: zset_inv_def)
  from zset_ok_frame [OF this d] have "zset_ok (data s')" .
  then show "zset_inv s'" using s(1) by (simp add: zset_inv_def t act_tran_sorted)
  show "reliable (db s')" using s(2) by (simp add: t)
  have "data s' (encode_zset_key n x) = data s (encode_zset_key n x)" for n x
    by (rule d) (simp add: key_heads)
  then show "zset_map s' = zset_map s" by (simp add: zset_map_def fun_eq_iff)
  show "kv_map s' = (kv_map s)(k := None)" using s(2) by (simp add: t kv_map_act_tran)
qed

section \<open>Loading the cache\<close>

definition add_member :: "i64 \<times> bytes \<Rightarrow> sset \<Rightarrow> sset" where
  "add_member x f = snd (sset_add (snd x) (load_score (str_i64 (fst x))) f)"

lemma load_fast_fold:
  "zyields z xs \<Longrightarrow> load_fast z f = fold add_member xs f"
proof (induction xs arbitrary: z f)
  case Nil
  then obtain z' where "ziter_next z = (False, z')" using zyields_Nil by metis
  then show ?case by (simp add: load_fast.simps)
next
  case (Cons x xs)
  then obtain z' where z': "ziter_next z = (True, z')" "zkey z' = snd x" "zscore z' = str_i64 (fst x)"
    "zyields z' xs" using zyields_Cons by metis
  with Cons.IH show ?case by (subst load_fast.simps) (simp flip: add_member_def)
qed

lemma load_score_clock: "clock_range v \<Longrightarrow> load_score (str_i64 v) = v"
  by (simp add: load_score_def str_to_int64_str_i64 clock_range_def)

lemma fold_add_member:
  assumes "sset_ok f" "\<forall>x \<in> set xs. clock_range (fst x)"
  shows "sset_ok (fold add_member xs f) \<and>
    sset_get (fold add_member xs f) = sset_get f ++ map_of (rev (map prod.swap xs))"
  using assms
proof (induction xs arbitrary: f)
  case (Cons x xs)
  have "add_member x f = sset_step (WPut (snd x) (fst x)) f"
    using Cons.prems(2) by (simp add: add_member_def load_score_clock)
  then have "sset_ok (add_member x f)" "sset_get (add_member x f) = (sset_get f)(snd x \<mapsto> fst x)"
    using sset_get_step [of "WPut (snd x) (fst x)" f] sset_ok_add [OF Cons.prems(1), of "snd x" "fst x"]
    by simp_all
  with Cons.IH [of "add_member x f"] Cons.prems(2) show ?case by (cases x) simp
qed simp

lemma map_of_rev_distinct: "distinct (map fst xs) \<Longrightarrow> map_of (rev xs) = map_of xs"
proof
  fix k assume d: "distinct (map fst xs)"
  then have d': "distinct (map fst (rev xs))" by (simp add: rev_map [symmetric])
  show "map_of (rev xs) k = map_of xs k"
  proof (cases "map_of xs k")
    case None
    then have "map_of (rev xs) k = None" by (simp add: map_of_eq_None_iff)
    with None show ?thesis by simp
  next
    case (Some v)
    then have "(k, v) \<in> set (rev xs)" by (simp add: map_of_SomeD)
    then show ?thesis using d' Some by (simp only: map_of_is_SomeI)
  qed
qed

text \<open>What the scan of the list yields, when every deadline is in the range of the clock.\<close>

lemma scan_deadlines:
  assumes s: "zset_inv s" and clock: "\<And>k t. zset_map s EXPIRATION_LIST_KEY k = Some t \<Longrightarrow> clock_range t"
    and num: "num < 2 ^ 64"
  shows "zyields (zscan s EXPIRATION_LIST_KEY [] [] [] (of_nat num))
    (take num (zset_entries (tbl (db s)) EXPIRATION_LIST_KEY))"
    "x \<in> set (zset_entries (tbl (db s)) EXPIRATION_LIST_KEY) \<Longrightarrow> clock_range (fst x)"
proof -
  let ?n = "EXPIRATION_LIST_KEY" and ?D = "zset_map s EXPIRATION_LIST_KEY"
  let ?es = "zset_entries (tbl (db s)) ?n"
  have n: "length ?n \<le> 255" by simp
  have l: "zset_listing ?D ?es" by (rule zset_listing_entries [OF s n])
  have in_clock: "clock_range (fst x)" if "x \<in> set ?es" for x
  proof -
    have "?D (snd x) = Some (fst x)" using l that by (cases x) (simp add: zset_listing_def)
    then show ?thesis by (rule clock)
  qed
  then have "fst x \<noteq> 9223372036854775807" if "x \<in> set ?es" for x
    using that by (fastforce simp: clock_range_def)
  then have "zreach FORWARD ?es = ?es"
    unfolding zreach_def direction.case filter_id_conv by blast
  then show "zyields (zscan s ?n [] [] [] (of_nat num)) (take num ?es)"
    using ziterator_all [OF s n, of "of_nat num" FORWARD] num
      take_bit_nat_eq_self [of num 64] by (simp add: zscan_def unsigned_of_nat)
  show "x \<in> set ?es \<Longrightarrow> clock_range (fst x)" by (rule in_clock)
qed

lemma load_covers:
  assumes s: "zset_inv s" and clock: "\<And>k t. zset_map s EXPIRATION_LIST_KEY k = Some t \<Longrightarrow> clock_range t"
    and f: "sset_ok f" "items f = []" and num: "num < 2 ^ 64"
  defines "f' \<equiv> load_fast (zscan s EXPIRATION_LIST_KEY [] [] [] (of_nat num)) f"
  shows "fast.covers f' (zset_map s EXPIRATION_LIST_KEY)" "length (items f') \<le> num"
    "0 < num \<Longrightarrow> items f' = [] \<Longrightarrow> zset_map s EXPIRATION_LIST_KEY = Map.empty"
proof -
  let ?n = "EXPIRATION_LIST_KEY" and ?D = "zset_map s EXPIRATION_LIST_KEY"
  let ?es = "zset_entries (tbl (db s)) ?n"
  have n: "length ?n \<le> 255" by simp
  have l: "zset_listing ?D ?es" by (rule zset_listing_entries [OF s n])
  note y = scan_deadlines(1) [OF s clock num] and in_clock = scan_deadlines(2) [OF s clock num]
  define xs where "xs = map prod.swap ?es"
  have inj: "distinct (map fst xs)"
    using zset_listing_distinct [OF l] by (simp add: xs_def distinct_map comp_def)
  have xsD: "map_of xs = ?D"
  proof
    fix k
    show "map_of xs k = ?D k"
    proof (cases "?D k")
      case None
      then have "k \<notin> fst ` set xs" using l by (force simp: xs_def zset_listing_def)
      with None show ?thesis by (simp add: map_of_eq_None_iff)
    next
      case (Some v)
      then have "(v, k) \<in> set ?es" using l by (simp add: zset_listing_def)
      then have "(k, v) \<in> set xs" by (force simp: xs_def)
      with Some inj show ?thesis by simp
    qed
  qed
  have f': "f' = fold add_member (take num ?es) f" unfolding f'_def by (rule load_fast_fold [OF y])
  have "sset_get f = Map.empty" using sset_get_empty [OF f(1)] f(2) by simp
  moreover have "\<forall>x \<in> set (take num ?es). clock_range (fst x)" using in_clock by (auto dest: in_set_takeD)
  ultimately have ok: "sset_ok f'" and get: "sset_get f' = map_of (rev (map prod.swap (take num ?es)))"
    using fold_add_member [OF f(1)] by (simp_all add: f')
  have dt: "distinct (map fst (take num xs))" using inj by (simp flip: take_map)
  then have get: "sset_get f' = map_of (take num xs)"
    unfolding get xs_def by (subst map_of_rev_distinct) (simp_all add: take_map)
  have "sorted_wrt zless ?es" using l by (simp add: zset_listing_def)
  then have srt: "sorted_wrt (\<lambda>a b. sint (snd a) \<le> sint (snd b)) xs"
    unfolding xs_def sorted_wrt_map by (rule sorted_wrt_mono_rel [rotated]) (auto simp: zless_def)
  show "fast.covers f' ?D" by (rule fast.covers_load [OF ok srt inj xsD get])
  have "length (items f') = length (take num xs)"
    unfolding length_items [OF ok] get dom_map_of_conv_image_fst using dt
    by (metis distinct_card length_map set_map)
  then show "length (items f') \<le> num" by simp
  show "?D = Map.empty" if "0 < num" "items f' = []"
    using \<open>length (items f') = length (take num xs)\<close> that xsD by (cases xs) auto
qed

section \<open>The operations keep the invariant\<close>

text \<open>There is room for one more deadline.\<close>

definition ttl_room :: "handler \<Rightarrow> bool" where
  "ttl_room h \<longleftrightarrow> card (dom (deadlines h)) + 1 < 2 ^ 63"

lemma ttl_roomD: "ttl_room h \<Longrightarrow> zset_count (srv h) EXPIRATION_LIST_KEY + 1 < 2 ^ 63"
  by (simp add: ttl_room_def deadlines_def zset_count_def)

lemma ttl_okI:
  assumes "zset_inv (srv h)" "reliable (db (srv h))" "fast.covers (fast_keys h) (deadlines h)"
    "length (items (fast_keys h)) \<le> 1000" "\<And>k t. deadlines h k = Some t \<Longrightarrow> clock_range t"
    "\<And>k t. deadlines h k = Some t \<Longrightarrow> sint (first_timeout h) \<le> sint t"
  shows "ttl_ok h"
  using assms by (simp add: ttl_ok_def)

lemma length_items_step:
  assumes "sset_ok f"
  shows "length (items (snd (sset_add k v f))) \<le> length (items f) + 1"
    "length (items (snd (sset_del k f))) \<le> length (items f)"
    "length (items (snd (sset_pop_back f))) = length (items f) - 1"
    "length (items (snd (sset_pop_front f))) = length (items f) - 1"
proof -
  have fin: "finite (dom (sset_get f))" by (rule sset.inv_finite [OF assms])
  show "length (items (snd (sset_add k v f))) \<le> length (items f) + 1"
    using sset_get_step [of "WPut k v" f] fin
    by (simp add: length_items [OF assms] length_items [OF sset_ok_add [OF assms]] card_insert_if)
  show "length (items (snd (sset_del k f))) \<le> length (items f)"
    using sset_get_step [of "WDel k" f] fin
    by (simp add: length_items [OF assms] length_items [OF sset_ok_del [OF assms]] card_mono)
  show "length (items (snd (sset_pop_back f))) = length (items f) - 1"
    by (simp add: sset_pop_back_def)
  show "length (items (snd (sset_pop_front f))) = length (items f) - 1"
    by (simp add: sset_pop_front_def split: list.split)
qed

lemma fast_set:
  fixes k :: bytes and e :: i64
  assumes c: "fast.covers f D" and len: "length (items f) \<le> 1000"
  defines "f' \<equiv> (if sset_size f \<noteq> 0 \<and> sint e \<le> sint (sset_max_score f)
      then let f1 = snd (sset_add k e f)
           in if sset_size f1 > int BATCH_SIZE then snd (sset_pop_back f1) else f1
      else snd (sset_del k f))"
  shows "fast.covers f' (D(k \<mapsto> e))" "length (items f') \<le> 1000"
proof -
  have ok: "sset_ok f" by (rule fast.coversD(1) [OF c])
  let ?f1 = "snd (sset_add k e f)"
  have f1: "?f1 = sset_step (WPut k e) f" by simp
  have len1: "length (items ?f1) \<le> 1001" using length_items_step(1) [OF ok, of k e] len by simp
  have size: "sset_size f = 0 \<longleftrightarrow> items f = []" by (rule sset_size_0) (use len in simp)
  have size1: "sset_size ?f1 > int BATCH_SIZE \<longleftrightarrow> length (items ?f1) > 1000"
    using sset_size_small [OF len1] by simp
  have "fast.covers f' (D(k \<mapsto> e)) \<and> length (items f') \<le> 1000"
  proof (cases "sset_size f \<noteq> 0 \<and> sint e \<le> sint (sset_max_score f)")
    case True
    then have "sset_back f \<noteq> None" using size by (simp add: sset_back_def Let_def)
    then obtain m u where b: "sset_back f = Some (m, u)" by auto
    then have "sint e \<le> sint u" using True by (simp add: sset_max_score_def)
    from fast.covers_put [OF c b this, of k] have c1: "fast.covers ?f1 (D(k \<mapsto> e))" by simp
    show ?thesis
    proof (cases "length (items ?f1) > 1000")
      case False
      then show ?thesis using True c1 size1 by (simp add: f'_def)
    next
      case long: True
      then have "items ?f1 \<noteq> []" by auto
      then have "sset_back ?f1 \<noteq> None" by (simp add: sset_back_def Let_def)
      then obtain m' u' where "sset_back ?f1 = Some (m', u')" by auto
      from fast.covers_pop_back [OF c1 this] show ?thesis
        using True long size1 len1 length_items_step(3) [OF fast.coversD(1) [OF c1]]
        by (simp add: f'_def)
    qed
  next
    case False
    have "sint u < sint e" if "sset_back f = Some (m, u)" for m u
    proof -
      have "items f \<noteq> []" using that by (auto simp: sset_back_def)
      with False size that show ?thesis by (simp add: sset_max_score_def)
    qed
    from fast.covers_skip [OF c this, where k = k] have "fast.covers (snd (sset_del k f)) (D(k \<mapsto> e))"
      by simp
    then show ?thesis
      using False length_items_step(2) [OF ok, of k] len by (auto simp: f'_def)
  qed
  then show "fast.covers f' (D(k \<mapsto> e))" "length (items f') \<le> 1000" by simp_all
qed

lemma set_ttl_spec:
  assumes h: "ttl_ok h" "ttl_room h" and k: "k \<noteq> []" "length k \<le> 255"
    and e: "clock_range (now + ttl * 1000)" and s: "set_ttl now k ttl h = (r, h')"
  shows "r = 0" "deadlines h' = (deadlines h)(k \<mapsto> now + ttl * 1000)" "values_of h' = values_of h"
    "ttl_ok h'"
proof -
  note ok = ttl_okD [OF h(1)]
  let ?e = "now + ttl * 1000"
  obtain r1 s1 where z: "zset EXPIRATION_LIST_KEY k (str_i64 ?e) BT_SYNC (srv h) = (r1, s1)" by fastforce
  have mem: "member_ok EXPIRATION_LIST_KEY k" using k by (simp add: member_ok_def)
  note p = put_deadline [OF ok(1,2) ttl_roomD [OF h(2)] mem z]
  let ?f = "if sset_size (fast_keys h) \<noteq> 0 \<and> sint ?e \<le> sint (sset_max_score (fast_keys h))
      then let f1 = snd (sset_add k ?e (fast_keys h))
           in if sset_size f1 > int BATCH_SIZE then snd (sset_pop_back f1) else f1
      else snd (sset_del k (fast_keys h))"
  note f = fast_set [OF ok(3,4), where e = ?e and k = k]
  have h': "r = 0" "srv h' = s1" "fast_keys h' = ?f"
    "first_timeout h' = (if sint ?e < sint (first_timeout h) then ?e else first_timeout h)"
    using s p(1) unfolding set_ttl_def Let_def z by (auto split: if_splits)
  show "r = 0" by (rule h')
  show D: "deadlines h' = (deadlines h)(k \<mapsto> ?e)"
    using p(4) by (simp add: deadlines_def h'(2))
  show "values_of h' = values_of h" using p(5) by (simp add: values_of_def h'(2))
  show "ttl_ok h'"
  proof (rule ttl_okI)
    show "zset_inv (srv h')" "reliable (db (srv h'))" using p(2,3) by (simp_all add: h')
    show "fast.covers (fast_keys h') (deadlines h')" "length (items (fast_keys h')) \<le> 1000"
      unfolding D h'(3) by (rule f)+
    show "clock_range t" if "deadlines h' x = Some t" for x t
      using that ok(6) e by (auto simp: D split: if_splits)
    show "sint (first_timeout h') \<le> sint t" if "deadlines h' x = Some t" for x t
      using that ok(7) [of x t] by (auto simp: D h'(4) split: if_splits)
  qed
qed

lemma del_ttl_spec:
  assumes h: "ttl_ok h" "ttl_room h" and k: "length k \<le> 255" and s: "del_ttl k h = (r, h')"
  shows "r = 0" "deadlines h' = (deadlines h)(k := None)" "values_of h' = values_of h" "ttl_ok h'"
proof -
  note ok = ttl_okD [OF h(1)]
  have "r = 0 \<and> deadlines h' = (deadlines h)(k := None) \<and> values_of h' = values_of h \<and> ttl_ok h'"
  proof (cases "first_timeout h = INT64_MAX")
    case True
    have none: "deadlines h x = None" for x
    proof (cases "deadlines h x")
      case (Some t)
      from ok(6,7) [OF this] True show ?thesis by (simp add: clock_range_def)
    qed
    with True s h show ?thesis by (auto simp: del_ttl_def)
  next
    case False
    let ?s1 = "snd (zdel EXPIRATION_LIST_KEY k BT_SYNC (srv h))"
    have h': "r = 0" "srv h' = ?s1" "fast_keys h' = snd (sset_del k (fast_keys h))"
      "first_timeout h' = first_timeout h"
      using s False by (auto simp: del_ttl_def)
    note p = drop_deadline [OF ok(1,2) ttl_roomD [OF h(2)] _ k refl, of BT_SYNC, simplified]
    have D: "deadlines h' = (deadlines h)(k := None)" using p(3) by (simp add: deadlines_def h'(2))
    moreover have "ttl_ok h'"
    proof (rule ttl_okI)
      show "zset_inv (srv h')" "reliable (db (srv h'))" using p(1,2) by (simp_all add: h')
      show "fast.covers (fast_keys h') (deadlines h')"
        using fast.covers_del [OF ok(3), of k] by (simp add: D h'(3))
      show "length (items (fast_keys h')) \<le> 1000"
        using length_items_step(2) [OF ok(5), of k] ok(4) by (simp add: h'(3))
      show "clock_range t" "sint (first_timeout h') \<le> sint t" if "deadlines h' x = Some t" for x t
        using that ok(6,7) by (auto simp: D h'(4) split: if_splits)
    qed
    ultimately show ?thesis using h'(1) p(4) by (simp add: values_of_def h'(2))
  qed
  then show "r = 0" "deadlines h' = (deadlines h)(k := None)" "values_of h' = values_of h" "ttl_ok h'"
    by simp_all
qed

lemma get_ttl_spec:
  assumes "ttl_ok h"
  shows "get_ttl now k h =
    (case deadlines h k of None \<Rightarrow> -1 | Some t \<Rightarrow> c_div (sint (t - now)) 1000)"
proof -
  note ok = ttl_okD [OF assms]
  have "zset_ok (data (srv h))" using ok(1) by (simp add: zset_inv_def)
  from zget_map [OF zset_readable_reliable [OF ok(2)] _ this, of EXPIRATION_LIST_KEY k] show ?thesis
    by (simp add: get_ttl_def deadlines_def str_to_int64_str_i64 split: option.split)
qed

section \<open>The turn of the thread\<close>

text \<open>
  What a turn may do to the deadlines and the values: nothing if no deadline has passed, and else
  one key with a least deadline goes, from both.
\<close>

inductive expiry :: "i64 \<Rightarrow> (bytes \<rightharpoonup> i64) \<Rightarrow> (bytes \<rightharpoonup> bytes) \<Rightarrow> (bytes \<rightharpoonup> i64) \<Rightarrow> (bytes \<rightharpoonup> bytes) \<Rightarrow> bool"
  for now D V where
  idle: "(\<And>k t. D k = Some t \<Longrightarrow> sint now < sint t) \<Longrightarrow> expiry now D V D V"
| fire: "D k = Some t \<Longrightarrow> sint t \<le> sint now \<Longrightarrow>
    (\<And>k' t'. D k' = Some t' \<Longrightarrow> sint t \<le> sint t') \<Longrightarrow> expiry now D V (D(k := None)) (V(k := None))"

inductive_cases expiryE: "expiry now D V D' V'"

lemma load_keeps:
  assumes "ttl_ok h" "sset_size (fast_keys h) = 0"
  defines "h' \<equiv> load_expiration_keys BATCH_SIZE h"
  shows "ttl_ok h'" "srv h' = srv h" "items (fast_keys h') = [] \<Longrightarrow> deadlines h' = Map.empty"
proof -
  note ok = ttl_okD [OF assms(1)]
  have srv: "srv h' = srv h" "first_timeout h' = first_timeout h"
    by (simp_all add: h'_def load_expiration_keys_def)
  have nil: "items (fast_keys h) = []" using assms(2) ok(4) by (simp add: sset_size_0)
  have clock: "zset_map (srv h) EXPIRATION_LIST_KEY k = Some t \<Longrightarrow> clock_range t" for k t
    using ok(6) by (simp add: deadlines_def)
  have f: "fast_keys h' = load_fast (zscan (srv h) EXPIRATION_LIST_KEY [] [] [] (of_nat 1000)) (fast_keys h)"
    by (simp add: h'_def load_expiration_keys_def)
  have D: "deadlines h' = deadlines h" by (simp add: deadlines_def srv)
  have l: "fast.covers (fast_keys h') (zset_map (srv h) EXPIRATION_LIST_KEY)"
      "length (items (fast_keys h')) \<le> 1000"
    unfolding f by (rule load_covers(1,2) [OF ok(1) _ ok(5) nil]; simp add: clock)+
  have empty: "zset_map (srv h) EXPIRATION_LIST_KEY = Map.empty" if "items (fast_keys h') = []"
    using that unfolding f by (intro load_covers(3) [OF ok(1) _ ok(5) nil, of 1000]) (simp_all add: clock)
  show "srv h' = srv h" by (rule srv)
  show "ttl_ok h'"
    using ok l(1,2) by (intro ttl_okI) (simp_all add: srv D, simp add: deadlines_def)
  show "items (fast_keys h') = [] \<Longrightarrow> deadlines h' = Map.empty"
    unfolding D unfolding deadlines_def by (rule empty)
qed

lemma expire_front_spec:
  fixes now :: i64
  assumes h: "ttl_ok h" "ttl_room h" and e: "items (fast_keys h) = [] \<Longrightarrow> deadlines h = Map.empty"
  defines "h' \<equiv> expire_front now h"
  shows "expiry now (deadlines h) (values_of h) (deadlines h') (values_of h') \<and> ttl_ok h'"
proof -
  note ok = ttl_okD [OF h(1)]
  have size: "sset_size (fast_keys h) = 0 \<longleftrightarrow> items (fast_keys h) = []"
    by (rule sset_size_0) (use ok(4) in simp)
  show ?thesis
  proof (cases "sset_front (fast_keys h)")
    case None
    then have nil: "items (fast_keys h) = []" by (simp add: sset_front_def split: list.splits)
    have h': "h' = h\<lparr>first_timeout := INT64_MAX\<rparr>" using size nil by (simp add: h'_def expire_front_def)
    have D: "deadlines h' = deadlines h" "values_of h' = values_of h" "deadlines h = Map.empty"
      using e nil by (simp_all add: h' deadlines_def values_of_def)
    moreover have "ttl_ok h'"
      by (rule ttl_okI) (use ok D in \<open>simp_all add: h' deadlines_def\<close>)
    ultimately show ?thesis using expiry.idle [of "deadlines h" now "values_of h"] by simp
  next
    case (Some kt)
    obtain k t where front: "sset_front (fast_keys h) = Some (k, t)" using Some by (cases kt) simp
    have ne: "sset_size (fast_keys h) \<noteq> 0" using front size by (auto simp: sset_front_def)
    note least = fast.covers_front [OF ok(3) front]
    show ?thesis
    proof (cases "sint t \<le> sint now")
      case False
      have h': "h' = h\<lparr>first_timeout := t\<rparr>"
        using ne front False by (simp add: h'_def expire_front_def)
      have D: "deadlines h' = deadlines h" "values_of h' = values_of h"
        by (simp_all add: h' deadlines_def values_of_def)
      have "ttl_ok h'"
        by (rule ttl_okI) (use ok least D in \<open>simp_all add: h'\<close>)
      moreover have "expiry now (deadlines h) (values_of h) (deadlines h) (values_of h)"
        by (rule expiry.idle) (use least(2) False in force)
      ultimately show ?thesis by (simp add: D)
    next
      case True
      let ?s1 = "snd (kv_del k BT_SYNC (srv h))"
      let ?s2 = "snd (zdel EXPIRATION_LIST_KEY k BT_SYNC ?s1)"
      have h': "h' = h\<lparr>first_timeout := t, srv := ?s2, fast_keys := snd (sset_pop_front (fast_keys h))\<rparr>"
        using ne front True by (simp add: h'_def expire_front_def Let_def)
      have k: "length k \<le> 255" by (rule deadline_key(2) [OF ok(1) least(1)])
      note v = del_value [OF ok(1,2) k refl, of BT_SYNC]
      have room: "zset_count ?s1 EXPIRATION_LIST_KEY + 1 < 2 ^ 63"
        using ttl_roomD [OF h(2)] by (simp only: zset_count_def v(3))
      note d = drop_deadline [OF v(1,2) room _ k refl, of BT_SYNC, simplified list_name_length, simplified]
      have D: "deadlines h' = (deadlines h)(k := None)" "values_of h' = (values_of h)(k := None)"
        using d(3,4) v(3,4) by (simp_all add: h' deadlines_def values_of_def)
      have cov: "fast.covers (fast_keys h') (deadlines h')"
      proof -
        have "fast_keys h' = sset_step (WDel k) (fast_keys h)"
          using sset.pop_front_step [OF ok(5) front] by (simp add: h')
        then show ?thesis unfolding D(1) using fast.covers_del [OF ok(3), of k] by simp
      qed
      have "ttl_ok h'"
      proof (rule ttl_okI)
        show "zset_inv (srv h')" "reliable (db (srv h'))" using d(1,2) by (simp_all add: h')
        show "fast.covers (fast_keys h') (deadlines h')" by (rule cov)
        show "length (items (fast_keys h')) \<le> 1000"
          using length_items_step(4) [OF ok(5)] ok(4) by (simp add: h')
        show "clock_range u" "sint (first_timeout h') \<le> sint u" if "deadlines h' x = Some u" for x u
        proof -
          have x: "deadlines h x = Some u" using that by (simp add: D(1) split: if_splits)
          show "clock_range u" by (rule ok(6) [OF x])
          show "sint (first_timeout h') \<le> sint u" using least(2) [OF x] by (simp add: h')
        qed
      qed
      moreover have "expiry now (deadlines h) (values_of h) (deadlines h') (values_of h')"
        unfolding D by (rule expiry.fire [of "deadlines h" k t, OF least(1) True least(2)])
      ultimately show ?thesis by simp
    qed
  qed
qed

lemma turn_spec:
  fixes now :: i64
  assumes h: "ttl_ok h" "ttl_room h"
  defines "h' \<equiv> snd (ttl_turn now h)"
  shows "expiry now (deadlines h) (values_of h) (deadlines h') (values_of h')" "ttl_ok h'"
proof -
  note ok = ttl_okD [OF h(1)]
  have "expiry now (deadlines h) (values_of h) (deadlines h') (values_of h') \<and> ttl_ok h'"
  proof (cases "sint (first_timeout h) > sint now")
    case True
    have "expiry now (deadlines h) (values_of h) (deadlines h) (values_of h)"
      by (rule expiry.idle) (use ok(7) True in force)
    with True h(1) show ?thesis by (simp add: h'_def ttl_turn_def)
  next
    case False
    then have h': "h' = expire_loop now h" by (simp add: h'_def ttl_turn_def)
    show ?thesis
    proof (cases "sset_size (fast_keys h) = 0")
      case True
      let ?h1 = "load_expiration_keys BATCH_SIZE h"
      note l = load_keeps [OF h(1) True]
      have eq: "deadlines ?h1 = deadlines h" "values_of ?h1 = values_of h"
        by (simp_all only: deadlines_def values_of_def l(2))
      have "ttl_room ?h1" using h(2) by (simp only: ttl_room_def eq)
      moreover have "h' = expire_front now ?h1" using True by (simp add: h' expire_loop_def)
      ultimately show ?thesis
        using expire_front_spec [OF l(1) _ l(3), of now] unfolding eq by simp
    next
      case False
      have "items (fast_keys h) \<noteq> []" using False ok(4) by (simp add: sset_size_0)
      with expire_front_spec [OF h, of now] show ?thesis
        using False by (simp add: h' expire_loop_def)
    qed
  qed
  then show "expiry now (deadlines h) (values_of h) (deadlines h') (values_of h')" "ttl_ok h'"
    by simp_all
qed

section \<open>Runs\<close>

lemma ttl_ok_new:
  assumes "zset_inv s" "reliable (db s)"
    "\<And>k t. zset_map s EXPIRATION_LIST_KEY k = Some t \<Longrightarrow> clock_range t"
  shows "ttl_ok (handler_new s)"
proof (rule ttl_okI)
  show "fast.covers (fast_keys (handler_new s)) (deadlines (handler_new s))"
    by (rule fast.covers_empty) (simp_all add: handler_new_def)
  show "length (items (fast_keys (handler_new s))) \<le> 1000"
    by (simp add: handler_new_def sset_empty_def)
  show "clock_range t" "sint (first_timeout (handler_new s)) \<le> sint t"
    if "deadlines (handler_new s) k = Some t" for k t
    using assms(3) [of k t] that by (simp_all add: handler_new_def deadlines_def clock_range_def)
qed (simp_all add: assms handler_new_def)

text \<open>The commands that change deadlines: the clients' two and a turn of the thread, each with its time.\<close>

datatype ttl_cmd = TSet i64 bytes i64 | TDel bytes | TTurn i64

fun ttl_exec :: "ttl_cmd \<Rightarrow> handler \<Rightarrow> handler" where
  "ttl_exec (TSet now k ttl) h = snd (set_ttl now k ttl h)"
| "ttl_exec (TDel k) h = snd (del_ttl k h)"
| "ttl_exec (TTurn now) h = snd (ttl_turn now h)"

fun ttl_cmd_ok :: "ttl_cmd \<Rightarrow> bool" where
  "ttl_cmd_ok (TSet now k ttl) \<longleftrightarrow> k \<noteq> [] \<and> length k \<le> 255 \<and> clock_range (now + ttl * 1000)"
| "ttl_cmd_ok (TDel k) \<longleftrightarrow> length k \<le> 255"
| "ttl_cmd_ok (TTurn now) \<longleftrightarrow> True"

text \<open>Their meaning for the deadlines and the values.\<close>

fun ttl_step :: "ttl_cmd \<Rightarrow> (bytes \<rightharpoonup> i64) \<times> (bytes \<rightharpoonup> bytes) \<Rightarrow>
    (bytes \<rightharpoonup> i64) \<times> (bytes \<rightharpoonup> bytes) \<Rightarrow> bool" where
  "ttl_step (TSet now k ttl) (D, V) (D', V') \<longleftrightarrow> D' = D(k \<mapsto> now + ttl * 1000) \<and> V' = V"
| "ttl_step (TDel k) (D, V) (D', V') \<longleftrightarrow> D' = D(k := None) \<and> V' = V"
| "ttl_step (TTurn now) (D, V) (D', V') \<longleftrightarrow> expiry now D V D' V'"

fun ttl_path :: "ttl_cmd list \<Rightarrow> (bytes \<rightharpoonup> i64) \<times> (bytes \<rightharpoonup> bytes) \<Rightarrow>
    (bytes \<rightharpoonup> i64) \<times> (bytes \<rightharpoonup> bytes) \<Rightarrow> bool" where
  "ttl_path [] a b \<longleftrightarrow> a = b"
| "ttl_path (c # cs) a b \<longleftrightarrow> (\<exists>a'. ttl_step c a a' \<and> ttl_path cs a' b)"

lemma finite_deadlines: "ttl_ok h \<Longrightarrow> finite (dom (deadlines h))"
  using zset_map_finite [of "srv h"] by (simp add: ttl_ok_def zset_inv_def deadlines_def)

lemma ttl_exec_step:
  assumes "ttl_ok h" "ttl_room h" "ttl_cmd_ok c"
  shows "ttl_step c (deadlines h, values_of h) (deadlines (ttl_exec c h), values_of (ttl_exec c h))"
    "ttl_ok (ttl_exec c h)"
    "card (dom (deadlines (ttl_exec c h))) \<le> card (dom (deadlines h)) + 1"
proof -
  note specs = set_ttl_spec [OF assms(1,2) _ _ _ prod.collapse [symmetric]]
    del_ttl_spec [OF assms(1,2) _ prod.collapse [symmetric]] turn_spec [OF assms(1,2)]
  show step: "ttl_step c (deadlines h, values_of h) (deadlines (ttl_exec c h), values_of (ttl_exec c h))"
    using assms(3) specs by (cases c) simp_all
  show "ttl_ok (ttl_exec c h)" using assms(3) specs by (cases c) simp_all
  have "\<exists>k. dom (deadlines (ttl_exec c h)) \<subseteq> insert k (dom (deadlines h))"
    using step by (cases c) (auto elim!: expiryE)
  then obtain k where "dom (deadlines (ttl_exec c h)) \<subseteq> insert k (dom (deadlines h))" ..
  then have "card (dom (deadlines (ttl_exec c h))) \<le> card (insert k (dom (deadlines h)))"
    using finite_deadlines [OF assms(1)] by (intro card_mono) simp_all
  also have "\<dots> \<le> card (dom (deadlines h)) + 1"
    using finite_deadlines [OF assms(1)] by (simp add: card_insert_if)
  finally show "card (dom (deadlines (ttl_exec c h))) \<le> card (dom (deadlines h)) + 1" .
qed

lemma ttl_run_path:
  assumes "ttl_ok h" "\<forall>c \<in> set cs. ttl_cmd_ok c" "card (dom (deadlines h)) + length cs < 2 ^ 63"
  shows "ttl_ok (fold ttl_exec cs h) \<and> ttl_path cs (deadlines h, values_of h)
    (deadlines (fold ttl_exec cs h), values_of (fold ttl_exec cs h))"
  using assms
proof (induction cs arbitrary: h)
  case (Cons c cs)
  have "ttl_room h" using Cons.prems(3) by (simp add: ttl_room_def)
  note step = ttl_exec_step [OF Cons.prems(1) this, of c]
  have "ttl_cmd_ok c" using Cons.prems(2) by simp
  with Cons.IH [of "ttl_exec c h"] step Cons.prems show ?case by auto
qed simp

text \<open>The keys whose deadline has passed.\<close>

definition due :: "i64 \<Rightarrow> (bytes \<rightharpoonup> i64) \<Rightarrow> bytes set" where
  "due now D = {k. \<exists>t. D k = Some t \<and> sint t \<le> sint now}"

lemma expiry_due:
  assumes "expiry now D V D' V'" "finite (dom D)"
  shows "due now D = {} \<and> D' = D \<and> V' = V \<or>
    (\<exists>k \<in> due now D. D' = D(k := None) \<and> V' = V(k := None))"
  using assms(1)
proof cases
  case idle
  then have "due now D = {}" by (force simp: due_def)
  with idle show ?thesis by simp
next
  case (fire k t)
  then have "k \<in> due now D" by (simp add: due_def)
  with fire show ?thesis by blast
qed

definition remaining :: "i64 \<Rightarrow> (bytes \<rightharpoonup> i64) \<Rightarrow> (bytes \<rightharpoonup> 'v) \<Rightarrow> bytes \<rightharpoonup> 'v" where
  "remaining now D m = (\<lambda>k. if k \<in> due now D then None else m k)"

lemma turns_drain:
  assumes "ttl_ok h" "ttl_room h" "card (due now (deadlines h)) \<le> n"
  defines "h' \<equiv> ((\<lambda>h. snd (ttl_turn now h)) ^^ n) h"
  shows "deadlines h' = remaining now (deadlines h) (deadlines h) \<and>
    values_of h' = remaining now (deadlines h) (values_of h) \<and> ttl_ok h'"
  using assms(1-3) unfolding h'_def
proof (induction n arbitrary: h)
  case 0
  have "due now (deadlines h) \<subseteq> dom (deadlines h)" by (auto simp: due_def)
  then have "due now (deadlines h) = {}"
    using 0(3) finite_subset [OF _ finite_deadlines [OF 0(1)]] by auto
  then show ?case using 0(1) by (simp add: remaining_def)
next
  case (Suc n)
  let ?h1 = "snd (ttl_turn now h)" and ?D = "deadlines h"
  have fin: "finite (dom ?D)" by (rule finite_deadlines [OF Suc.prems(1)])
  note turn = turn_spec [OF Suc.prems(1,2), of now]
  have sub: "due now ?D \<subseteq> dom ?D" by (auto simp: due_def)
  have *: "ttl_room ?h1 \<and> card (due now (deadlines ?h1)) \<le> n \<and>
      remaining now (deadlines ?h1) (deadlines ?h1) = remaining now ?D ?D \<and>
      remaining now (deadlines ?h1) (values_of ?h1) = remaining now ?D (values_of h)"
    using expiry_due [OF turn(1) fin]
  proof (elim disjE bexE conjE)
    assume "due now ?D = {}" "deadlines ?h1 = ?D" "values_of ?h1 = values_of h"
    then show ?thesis using Suc.prems(2) by (simp add: ttl_room_def)
  next
    fix k assume k: "k \<in> due now ?D" "deadlines ?h1 = ?D(k := None)" "values_of ?h1 = (values_of h)(k := None)"
    then have due: "due now (deadlines ?h1) = due now ?D - {k}" by (auto simp: due_def)
    have "finite (due now ?D)" using sub fin by (rule finite_subset)
    then have "card (due now (deadlines ?h1)) \<le> n" using k(1) Suc.prems(3) by (simp add: due)
    moreover have "card (dom ?D - {k}) \<le> card (dom ?D)" using fin by (intro card_mono) auto
    then have "ttl_room ?h1" using Suc.prems(2) by (simp add: ttl_room_def k(2))
    ultimately show ?thesis unfolding remaining_def due using k by (auto simp: fun_eq_iff)
  qed
  then show ?case using Suc.IH [OF turn(2)] unfolding funpow_Suc_right comp_apply by simp
qed

section \<open>Correctness\<close>

text \<open>
  C9: the handler over the database keeps one map of deadlines: on storage that does not fail,
  with times in the range of the clock and keys of 1 to 255 bytes, any run of \<open>set_ttl\<close>, \<open>del_ttl\<close> and turns of the
  thread is a run of the specification. In it a turn deletes one key of least deadline, with its
  deadline, once that deadline has passed, and nothing before; the invariant that ties
  \<open>fast_keys\<close> and \<open>first_timeout\<close> to the deadlines holds again at the end.
\<close>

theorem ttl_run_refines:
  assumes "ttl_ok h" "\<forall>c \<in> set cs. ttl_cmd_ok c" "card (dom (deadlines h)) + length cs < 2 ^ 63"
  shows "ttl_ok (fold ttl_exec cs h) \<and> ttl_path cs (deadlines h, values_of h)
    (deadlines (fold ttl_exec cs h), values_of (fold ttl_exec cs h))"
  using ttl_run_path [OF assms] .

lemma ttl_new_empty: "ttl_ok (handler_new empty_ssdb)" "deadlines (handler_new empty_ssdb) = Map.empty"
  by (rule ttl_ok_new; simp) (simp add: deadlines_def handler_new_def fun_eq_iff)

lemma ttl_run_refines_witness:
  "deadlines (fold ttl_exec [TSet 3000000000 [7] 60, TTurn 3000059999] (handler_new empty_ssdb)) =
     [[7] \<mapsto> 3000060000]"
proof -
  let ?cs = "[TSet 3000000000 [7] 60, TTurn 3000059999]"
  have "\<forall>c \<in> set ?cs. ttl_cmd_ok c" by (simp add: clock_range_def)
  from ttl_run_refines [OF ttl_new_empty(1) this] ttl_new_empty(2) show ?thesis
    by (auto elim!: expiryE split: if_splits)
qed

text \<open>
  After \<open>set_ttl\<close> has returned 0, \<open>get_ttl\<close> of the key is the time left in whole seconds,
  rounded towards zero, and at the same millisecond the very time that was set; the other keys
  keep theirs, and no value changes.
\<close>

theorem ttl_set_get:
  assumes "ttl_ok h" "ttl_room h" "ttl_cmd_ok (TSet now k ttl)"
    and "0 \<le> sint ttl" "sint ttl * 1000 < 2 ^ 63"
  defines "h' \<equiv> snd (set_ttl now k ttl h)"
  shows "fst (set_ttl now k ttl h) = 0 \<and> get_ttl now k h' = sint ttl \<and>
    get_ttl now' k h' = c_div (sint (now + ttl * 1000 - now')) 1000 \<and>
    (k' \<noteq> k \<longrightarrow> get_ttl now' k' h' = get_ttl now' k' h) \<and> values_of h' = values_of h"
proof -
  have k: "k \<noteq> []" "length k \<le> 255" "clock_range (now + ttl * 1000)" using assms(3) by simp_all
  note s = set_ttl_spec [OF assms(1,2) k prod.collapse [symmetric], folded h'_def]
  have "sint (ttl * 1000) = sint ttl * 1000"
    using assms(4,5) by (simp add: sint_word_ariths signed_take_bit_int_eq_self)
  then have "c_div (sint (now + ttl * 1000 - now)) 1000 = sint ttl"
    using assms(4) by (simp add: c_div_nonneg)
  then show ?thesis
    using s by (simp add: get_ttl_spec [OF s(4)] get_ttl_spec [OF assms(1)])
qed

lemma ttl_set_get_witness:
  "get_ttl 3000000001 [7] (snd (set_ttl 3000000000 [7] 60 (handler_new empty_ssdb))) = 59"
proof -
  have "ttl_room (handler_new empty_ssdb)" by (simp add: ttl_room_def ttl_new_empty(2))
  from ttl_set_get [OF ttl_new_empty(1) this, of 3000000000 "[7]" 60 3000000001] show ?thesis
    by (simp add: clock_range_def c_div_nonneg)
qed

text \<open>
  C14: expiration is live: with the clock at rest, as many turns as there are due keys delete all
  of them and their deadlines, and leave every other key and deadline. As in C9 the storage does not
  fail, the handler is in order, and the deadlines are in the range of the clock.
\<close>

theorem ttl_drains:
  assumes "ttl_ok h" "ttl_room h" "card (due now (deadlines h)) \<le> n"
  defines "h' \<equiv> ((\<lambda>h. snd (ttl_turn now h)) ^^ n) h"
  shows "deadlines h' = remaining now (deadlines h) (deadlines h) \<and>
    values_of h' = remaining now (deadlines h) (values_of h)"
  using turns_drain [OF assms(1-3)] unfolding h'_def by simp

lemma ttl_drains_witness:
  "deadlines (snd (ttl_turn 3000060000 (snd (set_ttl 3000000000 [7] 60 (handler_new empty_ssdb))))) =
     Map.empty"
proof -
  let ?h = "snd (set_ttl 3000000000 [7] 60 (handler_new empty_ssdb))"
  have "ttl_room (handler_new empty_ssdb)" by (simp add: ttl_room_def ttl_new_empty(2))
  note s = set_ttl_spec [OF ttl_new_empty(1) this _ _ _ prod.collapse [symmetric], of "[7]" 3000000000 60]
  have h: "ttl_ok ?h" "deadlines ?h = [[7] \<mapsto> 3000060000]"
    using s by (simp_all add: clock_range_def ttl_new_empty(2))
  have due: "due 3000060000 [[7] \<mapsto> 3000060000] = {[7]}" by (auto simp: due_def)
  have "ttl_room ?h" "card (due 3000060000 (deadlines ?h)) \<le> 1"
    unfolding ttl_room_def h(2) due by simp_all
  from ttl_drains [OF h(1) this] have "deadlines (snd (ttl_turn 3000060000 ?h)) =
      remaining 3000060000 (deadlines ?h) (deadlines ?h)" by simp
  also have "\<dots> = Map.empty" unfolding h(2) remaining_def due by (simp add: fun_eq_iff)
  finally show ?thesis .
qed

end
