(* ===== verification/Ttl_Race.thy ===== *)
theory Ttl_Race
  imports Ttl
begin

text \<open>
  The expiration thread with clients between its steps. A step of the thread is what it does under
  one hold of the mutex, or without it: \<open>load_expiration_keys_from_db\<close> takes its snapshot of the
  database without the mutex and locks it for each key on its own. The steps compose to the turn
  of \<open>Ttl\<close> when no client comes between, and lose a \<open>del_ttl\<close> when one does.
\<close>

section \<open>Steps\<close>

datatype tpc = Check | Awake | Load | Loading ziter | Expire

record world =
  handler_of :: handler
  pc :: tpc

definition thread_step :: "i64 \<Rightarrow> world \<Rightarrow> world" where
  "thread_step now w =
     (let h = handler_of w in
      case pc w of
        Check \<Rightarrow> if sint (first_timeout h) > sint now then w else w\<lparr>pc := Awake\<rparr>
      | Awake \<Rightarrow> if sset_size (fast_keys h) = 0 then w\<lparr>pc := Load\<rparr> else w\<lparr>pc := Expire\<rparr>
      | Load \<Rightarrow> w\<lparr>pc := Loading (zscan (srv h) EXPIRATION_LIST_KEY [] [] [] (of_nat BATCH_SIZE))\<rparr>
      | Loading z \<Rightarrow>
          (case ziter_next z of
             (False, z') \<Rightarrow> w\<lparr>pc := Expire\<rparr>
           | (True, z') \<Rightarrow>
               w\<lparr>handler_of := h\<lparr>fast_keys := snd (sset_add (zkey z') (load_score (zscore z')) (fast_keys h))\<rparr>,
                 pc := Loading z'\<rparr>)
      | Expire \<Rightarrow> w\<lparr>handler_of := expire_front now h, pc := Check\<rparr>)"

lemma thread_step_loading:
  "ziter_next z = (True, z') \<Longrightarrow> thread_step now \<lparr>handler_of = h, pc = Loading z\<rparr> =
     \<lparr>handler_of = h\<lparr>fast_keys := snd (sset_add (zkey z') (load_score (zscore z')) (fast_keys h))\<rparr>,
      pc = Loading z'\<rparr>"
  "ziter_next z = (False, z') \<Longrightarrow> thread_step now \<lparr>handler_of = h, pc = Loading z\<rparr> =
     \<lparr>handler_of = h, pc = Expire\<rparr>"
  by (simp_all add: thread_step_def)

text \<open>The clients, each call at a time of its own.\<close>

inductive world_step :: "world \<Rightarrow> world \<Rightarrow> bool" where
  thread: "world_step w (thread_step now w)"
| set_call: "world_step w (w\<lparr>handler_of := snd (set_ttl now k ttl (handler_of w))\<rparr>)"
| del_call: "world_step w (w\<lparr>handler_of := snd (del_ttl k (handler_of w))\<rparr>)"
| value_call: "world_step w (w\<lparr>handler_of := (handler_of w)\<lparr>srv := snd (kv_set k v BT_SYNC (srv (handler_of w)))\<rparr>\<rparr>)"

inductive reachable :: "world \<Rightarrow> bool" where
  start: "reachable \<lparr>handler_of = handler_new empty_ssdb, pc = Check\<rparr>"
| step: "reachable w \<Longrightarrow> world_step w w' \<Longrightarrow> reachable w'"

text \<open>The steps of the thread alone.\<close>

fun thread_steps :: "nat \<Rightarrow> i64 \<Rightarrow> world \<Rightarrow> world" where
  "thread_steps 0 now w = w"
| "thread_steps (Suc n) now w = thread_steps n now (thread_step now w)"

lemma thread_steps_add: "thread_steps (m + n) now w = thread_steps n now (thread_steps m now w)"
  by (induction m arbitrary: w) simp_all

lemma loading_steps:
  "\<exists>n. thread_steps n now \<lparr>handler_of = h, pc = Loading z\<rparr> =
     \<lparr>handler_of = h\<lparr>fast_keys := load_fast z (fast_keys h)\<rparr>, pc = Expire\<rparr>"
proof (induction z "fast_keys h" arbitrary: h rule: load_fast.induct)
  case (1 z)
  obtain b z' where z: "ziter_next z = (b, z')" by fastforce
  show ?case
  proof (cases b)
    case False
    have "thread_steps 1 now \<lparr>handler_of = h, pc = Loading z\<rparr> =
        \<lparr>handler_of = h\<lparr>fast_keys := load_fast z (fast_keys h)\<rparr>, pc = Expire\<rparr>"
      using z False by (simp add: thread_step_def load_fast.simps [of z])
    then show ?thesis by blast
  next
    case True
    let ?f = "snd (sset_add (zkey z') (load_score (zscore z')) (fast_keys h))"
    from 1 [of True z' "h\<lparr>fast_keys := ?f\<rparr>"] z True obtain n where
      "thread_steps n now \<lparr>handler_of = h\<lparr>fast_keys := ?f\<rparr>, pc = Loading z'\<rparr> =
        \<lparr>handler_of = h\<lparr>fast_keys := load_fast z' ?f\<rparr>, pc = Expire\<rparr>" by auto
    then have "thread_steps (Suc n) now \<lparr>handler_of = h, pc = Loading z\<rparr> =
        \<lparr>handler_of = h\<lparr>fast_keys := load_fast z (fast_keys h)\<rparr>, pc = Expire\<rparr>"
      using z True by (simp add: thread_step_def load_fast.simps [of z])
    then show ?thesis by blast
  qed
qed

text \<open>
  The set in memory is in order at every moment, whatever the clients do.
\<close>

lemma expire_front_fast: "sset_ok (fast_keys h) \<Longrightarrow> sset_ok (fast_keys (expire_front now h))"
  using sset.inv_pop by (auto simp: expire_front_def Let_def split: option.split)

lemma set_ttl_fast: "sset_ok (fast_keys h) \<Longrightarrow> sset_ok (fast_keys (snd (set_ttl now k ttl h)))"
proof -
  assume ok: "sset_ok (fast_keys h)"
  have "sset_ok (snd (sset_pop_back f))" if "sset_ok f" for f
  proof (cases "sset_back f")
    case None
    then show ?thesis using that by (auto simp: sset_back_def sset_pop_back_def Let_def split: if_splits)
  next
    case (Some e)
    with sset.inv_pop(2) [OF that] show ?thesis .
  qed
  then show ?thesis
    using ok by (auto simp: set_ttl_def Let_def sset_ok_add sset_ok_del split: prod.split)
qed

lemma reachable_fast: "reachable w \<Longrightarrow> sset_ok (fast_keys (handler_of w))"
proof (induction rule: reachable.induct)
  case start
  show ?case by (simp add: handler_new_def)
next
  case (step w w')
  from step.hyps(2) show ?case
  proof cases
    case (thread now)
    then show ?thesis
      using step.IH expire_front_fast
      by (auto simp: thread_step_def Let_def sset_ok_add split: tpc.split prod.split bool.split)
  qed (use step.IH set_ttl_fast sset_ok_del in \<open>auto simp: del_ttl_def\<close>)
qed

section \<open>One deletion lost\<close>

lemma set_ttl_no_fast: "items (fast_keys h) = [] \<Longrightarrow> items (fast_keys (snd (set_ttl now k ttl h))) = []"
  by (auto simp: set_ttl_def Let_def sset_del_def sset_size_def split: prod.split option.split)

lemma thread_start:
  assumes "\<not> sint (first_timeout h) > sint now" "sset_size (fast_keys h) = 0"
  shows "thread_steps 3 now \<lparr>handler_of = h, pc = Check\<rparr> =
    \<lparr>handler_of = h, pc = Loading (zscan (srv h) EXPIRATION_LIST_KEY [] [] [] (of_nat BATCH_SIZE))\<rparr>"
  using assms by (simp add: eval_nat_numeral thread_step_def)

lemma reachable_steps: "reachable w \<Longrightarrow> reachable (thread_steps n now w)"
  by (induction n arbitrary: w) (auto intro: reachable.step world_step.thread)

text \<open>
  The thread has read a deadline into its snapshot, the client takes it back, and the thread goes
  on with what it read.
\<close>

lemma race_run:
  assumes h: "ttl_ok h" "ttl_room h" and D: "deadlines h = [k \<mapsto> t]"
    and now: "\<not> sint (first_timeout h) > sint now" "sint t \<le> sint later"
    and e: "items (fast_keys h) = []"
  defines "w \<equiv> thread_steps 2 now \<lparr>handler_of = snd (del_ttl k h),
    pc = Loading (zscan (srv h) EXPIRATION_LIST_KEY [] [] [] (of_nat BATCH_SIZE))\<rparr>"
  shows "deadlines (handler_of w) = Map.empty \<and> values_of (handler_of w) = values_of h \<and>
    values_of (handler_of (thread_step later w)) = (values_of h)(k := None)"
proof -
  note ok = ttl_okD [OF h(1)]
  let ?h1 = "snd (del_ttl k h)"
  have k: "length k \<le> 255" by (rule deadline_key(2) [OF ok(1)]) (simp add: D)
  note d = del_ttl_spec [OF h k prod.collapse [symmetric]]
  note ok1 = ttl_okD [OF d(4)]
  have D1: "deadlines ?h1 = Map.empty" unfolding d(2) D by simp
  have "zset_listing (zset_map (srv h) EXPIRATION_LIST_KEY) [(t, k)]"
    using D by (auto simp: zset_listing_def deadlines_def)
  then have es: "zset_entries (tbl (db (srv h))) EXPIRATION_LIST_KEY = [(t, k)]"
    by (intro zset_listing_unique [OF zset_listing_entries [OF ok(1)]]) simp_all
  have clock: "zset_map (srv h) EXPIRATION_LIST_KEY x = Some u \<Longrightarrow> clock_range u" for x u
    using ok(6) by (simp add: deadlines_def)
  have t: "clock_range t" by (rule ok(6) [of k]) (simp add: D)
  let ?z = "zscan (srv h) EXPIRATION_LIST_KEY [] [] [] (of_nat BATCH_SIZE)"
  have "zyields ?z [(t, k)]"
    using scan_deadlines(1) [OF ok(1) clock, where num = 1000] by (simp add: es)
  then obtain z1 where z1: "ziter_next ?z = (True, z1)" "zkey z1 = k" "zscore z1 = str_i64 t"
    "zyields z1 []" using zyields_Cons by (metis fst_conv snd_conv)
  then obtain z2 where z2: "ziter_next z1 = (False, z2)" using zyields_Nil by metis
  let ?f = "snd (sset_add k t (fast_keys ?h1))" and ?h2 = "?h1\<lparr>fast_keys := snd (sset_add k t (fast_keys ?h1))\<rparr>"
  have w: "w = \<lparr>handler_of = ?h2, pc = Expire\<rparr>"
    unfolding w_def numeral_2_eq_2 thread_steps.simps thread_step_loading(1) [OF z1(1)]
      thread_step_loading(2) [OF z2] z1(2,3) load_score_clock [OF t] ..
  have "sset_get (fast_keys ?h1) x = None" for x
  proof (cases "sset_get (fast_keys ?h1) x")
    case (Some u)
    from fast.coversD(2) [OF ok1(3) this] show ?thesis by (simp add: D1)
  qed
  then have get: "sset_get ?f = [k \<mapsto> t]" using sset_get_step [of "WPut k t" "fast_keys ?h1"] by auto
  have fok: "sset_ok ?f" by (rule sset_ok_add [OF ok1(5)])
  have len: "length (items ?f) = 1" unfolding length_items [OF fok] get by simp
  then have size: "sset_size ?f \<noteq> 0" by (simp add: sset_size_small)
  have "sset_front ?f \<noteq> None" using sset.front_None [OF fok] get by simp
  then obtain k' t' where front: "sset_front ?f = Some (k', t')" by auto
  from sset.front_least [OF fok this] have "k' = k \<and> t' = t" by (simp add: get split: if_splits)
  with front have front: "sset_front ?f = Some (k, t)" by simp
  let ?s1 = "snd (kv_del k BT_SYNC (srv ?h1))"
  have step: "srv (expire_front later ?h2) = snd (zdel EXPIRATION_LIST_KEY k BT_SYNC ?s1)"
    using size front now(2) by (simp add: expire_front_def Let_def)
  note v = del_value [OF ok1(1,2) k refl, of BT_SYNC]
  have room: "zset_count ?s1 EXPIRATION_LIST_KEY + 1 < 2 ^ 63"
    using D1 by (simp only: zset_count_def v(3)) (simp add: deadlines_def)
  have "kv_map (snd (zdel EXPIRATION_LIST_KEY k BT_SYNC ?s1)) = kv_map ?s1"
    by (rule drop_deadline(4) [OF v(1,2) room _ k refl]) simp
  then have "values_of (expire_front later ?h2) = (values_of h)(k := None)"
    using v(4) d(3) unfolding values_of_def step by simp
  moreover have "deadlines ?h2 = Map.empty" "values_of ?h2 = values_of h"
    using D1 d(3) by (simp_all add: deadlines_def values_of_def)
  ultimately show ?thesis by (simp add: w thread_step_def)
qed

section \<open>Correctness\<close>

text \<open>
  The steps of the thread, when nothing comes between them, are the turn: from the start of the
  loop they reach the start again with the handler the turn computes.
\<close>

lemma thread_turn:
  "\<exists>n. 0 < n \<and> thread_steps n now \<lparr>handler_of = h, pc = Check\<rparr> =
     \<lparr>handler_of = snd (ttl_turn now h), pc = Check\<rparr>"
proof (cases "sint (first_timeout h) > sint now")
  case True
  then have "thread_steps 1 now \<lparr>handler_of = h, pc = Check\<rparr> =
      \<lparr>handler_of = snd (ttl_turn now h), pc = Check\<rparr>"
    by (simp add: thread_step_def ttl_turn_def)
  then show ?thesis by (metis zero_less_one)
next
  case awake: False
  show ?thesis
  proof (cases "sset_size (fast_keys h) = 0")
    case False
    then have "thread_steps 3 now \<lparr>handler_of = h, pc = Check\<rparr> =
        \<lparr>handler_of = snd (ttl_turn now h), pc = Check\<rparr>"
      using awake by (simp add: eval_nat_numeral thread_step_def ttl_turn_def expire_loop_def)
    then show ?thesis by (metis zero_less_numeral)
  next
    case True
    let ?z = "zscan (srv h) EXPIRATION_LIST_KEY [] [] [] (of_nat BATCH_SIZE)"
    obtain n where n: "thread_steps n now \<lparr>handler_of = h, pc = Loading ?z\<rparr> =
        \<lparr>handler_of = h\<lparr>fast_keys := load_fast ?z (fast_keys h)\<rparr>, pc = Expire\<rparr>"
      using loading_steps by blast
    have "thread_steps (3 + (n + 1)) now \<lparr>handler_of = h, pc = Check\<rparr> =
        \<lparr>handler_of = snd (ttl_turn now h), pc = Check\<rparr>"
      unfolding thread_steps_add thread_start [OF awake True] n
      using awake True
      by (simp add: thread_step_def ttl_turn_def expire_loop_def load_expiration_keys_def)
    then show ?thesis by (metis add_gr_0 zero_less_numeral)
  qed
qed

text \<open>The start of the race: one value on the server, then a deadline for it.\<close>

definition one_value :: ssdb where
  "one_value = snd (kv_set [7] [1] BT_SYNC empty_ssdb)"

definition one_deadline :: handler where
  "one_deadline = snd (set_ttl 3000000000 [7] 60 (handler_new one_value))"

lemma one_value_facts:
  "zset_inv one_value" "reliable (db one_value)"
  "zset_map one_value EXPIRATION_LIST_KEY = Map.empty" "kv_map one_value = [[7] \<mapsto> [1]]"
proof -
  have kok: "key_ok [7]" by (simp add: key_ok_def)
  have s0: "one_value = snd (act_tran BT_SYNC (kv_put_acts [7] [1]) 1 empty_ssdb)"
    by (simp add: one_value_def kv_set_tran [OF kok])
  have dm: "data one_value = (data empty_ssdb)(encode_kv_key [7] \<mapsto> [1])"
    unfolding s0 by (subst act_tran_data) simp_all
  have "zset_ok (data empty_ssdb)" using zset_inv_empty unfolding zset_inv_def by blast
  moreover have "data one_value y = data empty_ssdb y" if "\<not> prefix [107] y" for y
  proof -
    have "prefix [107] (encode_kv_key [7])" by (simp add: key_heads)
    then have "y \<noteq> encode_kv_key [7]" using that by blast
    then show ?thesis unfolding dm by simp
  qed
  ultimately have zok: "zset_ok (data one_value)" by (rule zset_ok_frame)
  have "sorted_keys (tbl (db one_value))" unfolding s0 by (rule act_tran_sorted) simp
  with zok show "zset_inv one_value" by (simp only: zset_inv_def)
  show "reliable (db one_value)" unfolding s0 by simp
  show "zset_map one_value EXPIRATION_LIST_KEY = Map.empty"
    unfolding zset_map_def dm by (simp add: fun_eq_iff data_map_def)
  show "kv_map one_value = [[7] \<mapsto> [1]]"
    unfolding s0 by (simp add: kv_map_act_tran) (simp add: kv_map_def fun_eq_iff data_map_def)
qed

lemma one_deadline_facts:
  "ttl_ok one_deadline" "ttl_room one_deadline" "deadlines one_deadline = [[7] \<mapsto> 3000060000]"
  "values_of one_deadline = [[7] \<mapsto> [1]]" "items (fast_keys one_deadline) = []"
  "\<not> sint (first_timeout one_deadline) > sint (3000060000 :: i64)"
proof -
  let ?new = "handler_new one_value"
  have h0: "ttl_ok ?new"
    by (rule ttl_ok_new [OF one_value_facts(1,2)]) (simp only: one_value_facts(3) option.distinct)
  have D0: "deadlines ?new = Map.empty" "values_of ?new = [[7] \<mapsto> [1]]"
    using one_value_facts(3,4) by (simp_all add: deadlines_def values_of_def handler_new_def)
  have "ttl_room ?new" unfolding ttl_room_def D0 by simp
  note s = set_ttl_spec [OF h0 this _ _ _ prod.collapse [symmetric], of "[7]" 3000000000 60]
  show h: "ttl_ok one_deadline" and D: "deadlines one_deadline = [[7] \<mapsto> 3000060000]"
    and "values_of one_deadline = [[7] \<mapsto> [1]]"
    unfolding one_deadline_def using s unfolding D0 by (simp_all add: clock_range_def)
  show "ttl_room one_deadline" unfolding ttl_room_def D by simp
  show "items (fast_keys one_deadline) = []"
    unfolding one_deadline_def by (rule set_ttl_no_fast) (simp add: handler_new_def sset_empty_def)
  show "\<not> sint (first_timeout one_deadline) > sint (3000060000 :: i64)"
    using ttl_okD(7) [OF h, of "[7]" 3000060000] unfolding D by simp
qed

lemma one_deadline_loading:
  "reachable \<lparr>handler_of = one_deadline,
     pc = Loading (zscan (srv one_deadline) EXPIRATION_LIST_KEY [] [] [] (of_nat BATCH_SIZE))\<rparr>"
proof -
  have "reachable \<lparr>handler_of = handler_new one_value, pc = Check\<rparr>"
    using reachable.step [OF reachable.start world_step.value_call, of "[7]" "[1]"]
    by (simp add: handler_new_def one_value_def)
  from reachable.step [OF this world_step.set_call, of 3000000000 "[7]" 60]
  have "reachable \<lparr>handler_of = one_deadline, pc = Check\<rparr>" by (simp add: one_deadline_def)
  moreover have "sset_size (fast_keys one_deadline) = 0"
    using one_deadline_facts(5) by (simp add: sset_size_def)
  ultimately show ?thesis using reachable_steps thread_start [OF one_deadline_facts(6)] by metis
qed

text \<open>
  C15: a reachable run loses a deletion of a deadline: a client has taken the deadline of a key back
  while the thread was loading, no deadline is left, and the next step of the thread deletes the
  value of the key all the same.
\<close>

theorem ttl_race:
  "\<exists>w now. reachable w \<and> deadlines (handler_of w) = Map.empty \<and>
     values_of (handler_of w) [7] = Some [1] \<and>
     values_of (handler_of (thread_step now w)) [7] = None"
proof -
  note f = one_deadline_facts
  obtain w where w: "w = thread_steps 2 3000060000 \<lparr>handler_of = snd (del_ttl [7] one_deadline),
      pc = Loading (zscan (srv one_deadline) EXPIRATION_LIST_KEY [] [] [] (of_nat BATCH_SIZE))\<rparr>"
    "deadlines (handler_of w) = Map.empty" "values_of (handler_of w) = [[7] \<mapsto> [1]]"
    "values_of (handler_of (thread_step 3000060000 w)) = Map.empty"
    using race_run [OF f(1-3,6) _ f(5), of 3000060000] unfolding f(4) by auto
  from reachable.step [OF one_deadline_loading world_step.del_call, of "[7]"] have "reachable w"
    unfolding w(1) by (intro reachable_steps) simp
  with w(2-4) show ?thesis by (intro exI [of _ w] exI [of _ 3000060000]) simp
qed

end
