(* ===== verification/Ttl_Stop.thy ===== *)
theory Ttl_Stop
  imports Ttl_Race
begin

text \<open>
  The life of the expiration thread: \<open>start\<close>, \<open>thread_func\<close> with its flag \<open>thread_quit\<close>, and the
  destructor, which sets the flag and waits for the thread to reset it. The steps of the thread are
  those of \<open>Ttl_Race\<close>; a step that takes the mutex is not possible while the destructor holds it.
\<close>

section \<open>Starting and stopping\<close>

text \<open>
  Where the thread is: at the test of the flag (or asleep before it), at the start of \<open>expire_loop\<close>,
  elsewhere in the loop, behind the loop, gone. The destructor counts its looks at the flag.
\<close>

datatype place = Testing | Entering | Running | Leaving | Left

datatype dtor = Idle | Polling nat | Gone nat

record shutdown =
  wld :: world
  quit :: bool
  has_ssdb :: bool
  place :: place
  dtor :: dtor

text \<open>\<open>start\<close>: when the thread cannot be created the process exits.\<close>

definition ttl_start :: "bool \<Rightarrow> handler \<Rightarrow> shutdown option" where
  "ttl_start created h =
     (if \<not> created then None
      else Some \<lparr>wld = \<lparr>handler_of = h, pc = Check\<rparr>, quit = False, has_ssdb = True,
        place = Testing, dtor = Idle\<rparr>)"

text \<open>Loading reads its snapshot, and finds its end, without the mutex.\<close>

definition needs_mutex :: "world \<Rightarrow> bool" where
  "needs_mutex w = (case pc w of Load \<Rightarrow> False | Loading z \<Rightarrow> fst (ziter_next z) | _ \<Rightarrow> True)"

definition func_step :: "i64 \<Rightarrow> shutdown \<Rightarrow> shutdown option" where
  "func_step now w =
     (case dtor w of
        Gone i \<Rightarrow> None
      | _ \<Rightarrow>
          (case place w of
             Testing \<Rightarrow> Some (w\<lparr>place := (if quit w then Leaving else Running)\<rparr>)
           | Entering \<Rightarrow>
               Some (if has_ssdb w then w\<lparr>place := Running\<rparr>
                     else w\<lparr>wld := (wld w)\<lparr>pc := Check\<rparr>, place := Testing\<rparr>)
           | Running \<Rightarrow>
               if needs_mutex (wld w) \<and> dtor w \<noteq> Idle then None
               else let w1 = thread_step now (wld w)
                    in Some (w\<lparr>wld := w1,
                         place := (case pc w1 of Check \<Rightarrow> Testing | Awake \<Rightarrow> Entering | _ \<Rightarrow> Running)\<rparr>)
           | Leaving \<Rightarrow> Some (w\<lparr>quit := False, place := Left\<rparr>)
           | Left \<Rightarrow> None))"

text \<open>The destructor: it takes the mutex, and keeps it while \<open>stop\<close> looks at the flag 100 times.\<close>

definition dtor_step :: "shutdown \<Rightarrow> shutdown option" where
  "dtor_step w =
     (case dtor w of
        Idle \<Rightarrow> Some (w\<lparr>quit := True, dtor := Polling 0\<rparr>)
      | Polling i \<Rightarrow>
          Some (if i < 100 \<and> quit w then w\<lparr>dtor := Polling (i + 1)\<rparr>
                else w\<lparr>has_ssdb := False, dtor := Gone i\<rparr>)
      | Gone i \<Rightarrow> None)"

inductive shut_step :: "shutdown \<Rightarrow> shutdown \<Rightarrow> bool" where
  func: "func_step now w = Some w' \<Longrightarrow> shut_step w w'"
| dtor: "dtor_step w = Some w' \<Longrightarrow> shut_step w w'"

section \<open>Before and after the destructor has begun\<close>

definition working :: "shutdown \<Rightarrow> bool" where
  "working w \<longleftrightarrow> \<not> quit w \<and> has_ssdb w \<and> place w \<in> {Testing, Entering, Running}"

text \<open>
  Once the destructor has begun: a thread that was in the loop stays there, one that was at the test
  leaves. The flag stays set until the thread has left.
\<close>

definition stuck :: "shutdown \<Rightarrow> bool" where
  "stuck w \<longleftrightarrow> quit w \<and> place w \<in> {Entering, Running} \<and>
     (case dtor w of Idle \<Rightarrow> False | Polling i \<Rightarrow> i \<le> 100 \<and> has_ssdb w | Gone i \<Rightarrow> i = 100)"

definition leaving :: "shutdown \<Rightarrow> bool" where
  "leaving w \<longleftrightarrow> place w \<in> {Testing, Leaving, Left} \<and> (quit w \<longleftrightarrow> place w \<noteq> Left) \<and>
     (case dtor w of Idle \<Rightarrow> False | Polling i \<Rightarrow> i \<le> 100 | Gone i \<Rightarrow> place w = Left \<or> i = 100)"

lemma free_step: "\<not> needs_mutex w \<Longrightarrow> pc (thread_step now w) \<notin> {Check, Awake}"
  by (auto simp: needs_mutex_def thread_step_def Let_def split: tpc.splits prod.splits bool.splits)

lemma working_step:
  assumes "working w" "dtor w = Idle" "shut_step w w'" "dtor w' = Idle"
  shows "working w'"
  using assms(3)
proof cases
  case (func now)
  then show ?thesis
    using assms(1,2) by (auto simp: func_step_def working_def Let_def split: place.splits tpc.splits)
next
  case dtor
  then show ?thesis using assms(2,4) by (auto simp: dtor_step_def)
qed

lemma stuck_step: "stuck w \<Longrightarrow> shut_step w w' \<Longrightarrow> stuck w'"
proof (erule shut_step.cases)
  fix now u u' assume s: "stuck w" "w = u" "w' = u'" "func_step now u = Some u'"
  then show "stuck w'"
    using free_step [of "wld w" now]
    by (auto simp: func_step_def stuck_def Let_def split: place.splits tpc.splits dtor.splits if_splits)
next
  fix u u' assume "stuck w" "w = u" "w' = u'" "dtor_step u = Some u'"
  then show "stuck w'" by (auto simp: dtor_step_def stuck_def split: dtor.splits if_splits)
qed

lemma leaving_step: "leaving w \<Longrightarrow> shut_step w w' \<Longrightarrow> leaving w'"
proof (erule shut_step.cases)
  fix now u u' assume s: "leaving w" "w = u" "w' = u'" "func_step now u = Some u'"
  then show "leaving w'"
    by (auto simp: func_step_def leaving_def split: place.splits dtor.splits if_splits)
next
  fix u u' assume "leaving w" "w = u" "w' = u'" "dtor_step u = Some u'"
  then show "leaving w'" by (auto simp: dtor_step_def leaving_def split: dtor.splits if_splits)
qed

lemma idle_back: "shut_step w w' \<Longrightarrow> dtor w' = Idle \<Longrightarrow> dtor w = Idle"
  by (erule shut_step.cases)
    (auto simp: func_step_def dtor_step_def Let_def split: place.splits dtor.splits if_splits)

lemma working_run: "shut_step\<^sup>*\<^sup>* w w' \<Longrightarrow> working w \<Longrightarrow> dtor w' = Idle \<Longrightarrow> working w'"
  by (induction rule: rtranclp_induct) (use idle_back working_step in blast)+

lemma stuck_run: "shut_step\<^sup>*\<^sup>* w w' \<Longrightarrow> stuck w \<Longrightarrow> stuck w'"
  by (induction rule: rtranclp_induct) (use stuck_step in blast)+

lemma leaving_run: "shut_step\<^sup>*\<^sup>* w w' \<Longrightarrow> leaving w \<Longrightarrow> leaving w'"
  by (induction rule: rtranclp_induct) (use leaving_step in blast)+

text \<open>The destructor ends on its own, after at most 100 looks, with the thread where it was.\<close>

lemma stop_returns:
  "dtor w = Polling i \<Longrightarrow> i \<le> 100 \<Longrightarrow>
     \<exists>w' j. shut_step\<^sup>*\<^sup>* w w' \<and> dtor w' = Gone j \<and> i \<le> j \<and> j \<le> 100 \<and> place w' = place w"
proof (induction "100 - i" arbitrary: i w rule: less_induct)
  case less
  show ?case
  proof (cases "i < 100 \<and> quit w")
    case True
    let ?w = "w\<lparr>dtor := Polling (i + 1)\<rparr>"
    have lt: "100 - (i + 1) < 100 - i" using True by linarith
    have "shut_step w ?w" using less.prems True by (intro shut_step.dtor) (simp add: dtor_step_def)
    moreover have "\<exists>w' j. shut_step\<^sup>*\<^sup>* ?w w' \<and> dtor w' = Gone j \<and> i + 1 \<le> j \<and> j \<le> 100 \<and> place w' = place w"
      using less.hyps [OF lt, of ?w] True by simp
    ultimately show ?thesis by (meson add_leD1 converse_rtranclp_into_rtranclp)
  next
    case False
    let ?w = "w\<lparr>has_ssdb := False, dtor := Gone i\<rparr>"
    have "shut_step w ?w" using less.prems False by (intro shut_step.dtor) (auto simp: dtor_step_def)
    then have "shut_step\<^sup>*\<^sup>* w ?w" "dtor ?w = Gone i" "place ?w = place w" by simp_all
    then show ?thesis using less.prems(2) by blast
  qed
qed

section \<open>Correctness\<close>

text \<open>
  C16: the destructor of the expiration handler, begun at any moment of any run, ends in one of two
  ways. If the thread was at the test of its flag, it leaves the loop, or has not had its turn in
  100 looks. If the thread was anywhere else, it needs the mutex that the destructor holds: it never
  gets to the test, the destructor gives up after 100 looks, and the handler is destroyed under a
  thread that still runs.
\<close>

theorem stop_outcome:
  assumes "ttl_start True h = Some w0" "shut_step\<^sup>*\<^sup>* w0 w" "dtor w = Idle"
    and "dtor_step w = Some w1" "shut_step\<^sup>*\<^sup>* w1 w2" "dtor w2 = Gone i"
  shows "place w = Testing \<and> (place w2 = Left \<or> i = 100 \<and> place w2 \<in> {Testing, Leaving}) \<or>
    place w \<in> {Entering, Running} \<and> i = 100 \<and> place w2 \<in> {Entering, Running}"
proof -
  have "working w0" using assms(1) by (auto simp: ttl_start_def working_def)
  from working_run [OF assms(2) this assms(3)] have w: "working w" .
  have w1: "w1 = w\<lparr>quit := True, dtor := Polling 0\<rparr>" using assms(3,4) by (simp add: dtor_step_def)
  show ?thesis
  proof (cases "place w = Testing")
    case True
    then have "leaving w1" by (simp add: w1 leaving_def)
    from leaving_run [OF assms(5) this] show ?thesis
      using True assms(6) by (auto simp: leaving_def)
  next
    case False
    then have "stuck w1" using w by (auto simp: w1 stuck_def working_def)
    from stuck_run [OF assms(5) this] show ?thesis
      using False w assms(6) by (auto simp: stuck_def working_def)
  qed
qed

lemma stop_outcome_witness:
  "\<exists>w w1 w2. dtor_step w = Some w1 \<and> shut_step\<^sup>*\<^sup>* w1 w2 \<and> dtor w2 = Gone 100 \<and> place w2 = Running"
proof -
  let ?h = "handler_new empty_ssdb"
  obtain w0 where w0: "ttl_start True ?h = Some w0" by (simp add: ttl_start_def)
  let ?w = "w0\<lparr>place := Running\<rparr>"
  have "func_step 0 w0 = Some ?w" using w0 by (auto simp: ttl_start_def func_step_def)
  then have run: "shut_step\<^sup>*\<^sup>* w0 ?w" by (blast intro: shut_step.func)
  have idle: "dtor ?w = Idle" using w0 by (auto simp: ttl_start_def)
  then obtain w1 where w1: "dtor_step ?w = Some w1" "dtor w1 = Polling 0" "place w1 = Running"
    by (simp add: dtor_step_def)
  obtain w2 j where w2: "shut_step\<^sup>*\<^sup>* w1 w2" "dtor w2 = Gone j" "place w2 = place w1"
    using stop_returns [OF w1(2)] by auto
  from stop_outcome [OF w0 run idle w1(1) w2(1,2)] have "j = 100" by simp
  then show ?thesis using w1 w2 by auto
qed

end
