(* ===== verification/Ip_Filter.thy ===== *)
theory Ip_Filter
  imports Prelude
begin

text \<open>
  \<open>ssdb/util/ip_filter.h\<close>: allow and deny rules on the text of an address. A rule is the text an
  address begins with, or a whole address; the filter keeps the rules in two ordered sets and
  looks at one candidate of each.
\<close>

section \<open>Operations\<close>

text \<open>
  A \<open>std::set<std::string>\<close> is the ascending list of its elements; \<open>upper_bound\<close> is the first
  one greater than its argument.
\<close>

definition upper_bound :: "bytes list \<Rightarrow> bytes \<Rightarrow> bytes option" where
  "upper_bound m x = (case dropWhile (\<lambda>y. y \<le> x) m of [] \<Rightarrow> None | y # ys \<Rightarrow> Some y)"

definition check_hit :: "bytes list \<Rightarrow> bytes \<Rightarrow> bool" where
  "check_hit m ip =
     (if m = [] then False
      else case upper_bound m ip of
             None \<Rightarrow> False
           | Some pre \<Rightarrow>
               let len = length pre - 1
               in if pre ! len = 61 then take len pre = ip
                  else if length ip > len then take len ip = take len pre
                  else False)"

definition is_full_ip :: "bytes \<Rightarrow> bool" where
  "is_full_ip ip_prefix \<longleftrightarrow> length (filter (\<lambda>c. c = 46) ip_prefix) = 3"

record ip_filter =
  allow_all :: bool
  deny_all :: bool
  deny :: "bytes list"
  allow :: "bytes list"

definition ip_filter_new :: ip_filter where
  "ip_filter_new = \<lparr>allow_all = True, deny_all = False, deny = [], allow = []\<rparr>"

definition add_allow :: "bytes \<Rightarrow> ip_filter \<Rightarrow> ip_filter" where
  "add_allow ip_prefix f =
     (if ip_prefix = lit ''all'' \<or> ip_prefix = lit ''*'' then f\<lparr>allow_all := True\<rparr>
      else let f = f\<lparr>allow_all := False\<rparr>;
               pre = ip_prefix @ [if is_full_ip ip_prefix then 61 else 64]
           in f\<lparr>allow := insort_insert pre (allow f)\<rparr>)"

definition del_allow :: "bytes \<Rightarrow> ip_filter \<Rightarrow> ip_filter" where
  "del_allow ip_prefix f =
     (if ip_prefix = lit ''all'' \<or> ip_prefix = lit ''*'' then f\<lparr>allow_all := False\<rparr>
      else let pre = ip_prefix @ [if is_full_ip ip_prefix then 61 else 64]
           in f\<lparr>allow := remove1 pre (allow f)\<rparr>)"

definition add_deny :: "bytes \<Rightarrow> ip_filter \<Rightarrow> ip_filter" where
  "add_deny ip_prefix f =
     (if ip_prefix = lit ''all'' \<or> ip_prefix = lit ''*'' then f\<lparr>deny_all := True\<rparr>
      else let pre = ip_prefix @ [if is_full_ip ip_prefix then 61 else 64]
           in f\<lparr>deny := insort_insert pre (deny f)\<rparr>)"

definition del_deny :: "bytes \<Rightarrow> ip_filter \<Rightarrow> ip_filter" where
  "del_deny ip_prefix f =
     (if ip_prefix = lit ''all'' \<or> ip_prefix = lit ''*'' then f\<lparr>deny_all := False\<rparr>
      else let pre = ip_prefix @ [if is_full_ip ip_prefix then 61 else 64]
           in f\<lparr>deny := remove1 pre (deny f)\<rparr>)"

definition check_pass :: "bytes \<Rightarrow> ip_filter \<Rightarrow> bool" where
  "check_pass ip f =
     (if check_hit (deny f) ip then False
      else if check_hit (allow f) ip then True
      else if deny_all f then False
      else if allow_all f then True
      else False)"

section \<open>What a rule means\<close>

definition stored :: "bytes \<Rightarrow> bytes" where
  "stored p = p @ [if is_full_ip p then 61 else 64]"

definition matches :: "bytes \<Rightarrow> bytes \<Rightarrow> bool" where
  "matches p ip \<longleftrightarrow> (if is_full_ip p then ip = p else strict_prefix p ip)"

text \<open>No rule begins with another rule.\<close>

definition unnested :: "bytes set \<Rightarrow> bool" where
  "unnested R \<longleftrightarrow> (\<forall>p \<in> R. \<forall>q \<in> R. prefix p q \<longrightarrow> p = q)"

lemma stored_inject [simp]: "stored p = stored q \<longleftrightarrow> p = q"
  by (auto simp: stored_def)

lemma upper_bound_Some:
  assumes "sorted m" "upper_bound m x = Some y"
  shows "y \<in> set m" "x < y" "z \<in> set m \<Longrightarrow> x < z \<Longrightarrow> y \<le> z"
proof -
  obtain ys where d: "dropWhile (\<lambda>y. y \<le> x) m = y # ys"
    using assms(2) by (auto simp: upper_bound_def split: list.splits)
  show "y \<in> set m" using d by (metis list.set_intros(1) set_dropWhileD)
  show "x < y" using d by (metis dropWhile_eq_Cons_conv not_le)
  have m: "m = takeWhile (\<lambda>y. y \<le> x) m @ y # ys" using d by (metis takeWhile_dropWhile_id)
  show "y \<le> z" if "z \<in> set m" "x < z"
  proof -
    have "z \<notin> set (takeWhile (\<lambda>y. y \<le> x) m)" using that(2) by (meson leD set_takeWhileD)
    then have "z \<in> set (y # ys)" using that(1) m by (metis Un_iff set_append)
    then show ?thesis using assms(1) m by (metis sorted_append sorted_simps(2) order_refl set_ConsD)
  qed
qed

lemma upper_bound_None: "upper_bound m x = None \<Longrightarrow> z \<in> set m \<Longrightarrow> z \<le> x"
  by (auto simp: upper_bound_def dropWhile_eq_Nil_conv split: list.splits)

text \<open>The test of the candidate is the meaning of its rule.\<close>

lemma candidate_matches:
  "(let len = length (stored p) - 1
    in if stored p ! len = 61 then take len (stored p) = ip
       else if length ip > len then take len ip = take len (stored p) else False) \<longleftrightarrow> matches p ip"
proof (cases "is_full_ip p")
  case True
  then show ?thesis by (auto simp: stored_def matches_def nth_append)
next
  case False
  have "strict_prefix p ip \<longleftrightarrow> length p < length ip \<and> take (length p) ip = p"
    by (metis append_eq_conv_conj prefix_def prefix_length_less strict_prefix_def nat_less_le)
  with False show ?thesis by (auto simp: stored_def matches_def nth_append)
qed

text \<open>A matching rule hides behind no other, unless one begins with the other.\<close>

lemma matching_candidate:
  assumes "unnested R" "p \<in> R" "matches p ip" "q \<in> R" "ip < stored q" "stored q \<le> stored p"
  shows "q = p"
proof -
  have pip: "prefix p ip" using assms(3) by (auto simp: matches_def strict_prefix_def split: if_splits)
  then have le: "p \<le> ip" by (rule prefix_le)
  have "prefix p (stored p)" by (simp add: stored_def)
  moreover have "p \<le> stored q" using le assms(5) by simp
  ultimately have "prefix p (stored q)"
    using assms(6) by (meson prefix_interval prefix_order.refl)
  moreover have "p \<noteq> stored q" using le assms(5) by auto
  ultimately have "prefix p q" by (simp add: stored_def)
  with assms(1,2,4) show ?thesis by (auto simp: unnested_def)
qed

lemma matching_below:
  assumes "matches p ip" "\<forall>c \<in> set ip. c < 64"
  shows "ip < stored p"
proof (cases "is_full_ip p")
  case True
  then show ?thesis
    using assms(1) append_less_append [of p "[]" "[61]"] by (simp add: matches_def stored_def)
next
  case False
  then obtain zs where zs: "ip = p @ zs" "zs \<noteq> []"
    using assms(1) by (auto simp: matches_def strict_prefix_def prefix_def)
  with assms(2) False show ?thesis by (cases zs) (simp_all add: stored_def)
qed

lemma check_hit_exact:
  assumes "sorted m" "set m = stored ` R" "unnested R" "\<forall>c \<in> set ip. c < 64"
  shows "check_hit m ip \<longleftrightarrow> (\<exists>p \<in> R. matches p ip)"
proof (cases "upper_bound m ip")
  case None
  have "\<not> matches p ip" if "p \<in> R" for p
    using upper_bound_None [OF None, of "stored p"] matching_below [OF _ assms(4), of p] that assms(2) by fastforce
  with None show ?thesis by (auto simp: check_hit_def)
next
  case (Some y)
  note ub = upper_bound_Some [OF assms(1) Some]
  obtain q where q: "q \<in> R" "y = stored q" using ub(1) assms(2) by auto
  have ne: "m \<noteq> []" using ub(1) by auto
  have "check_hit m ip \<longleftrightarrow> matches q ip"
    using candidate_matches [of q ip] ne by (simp add: check_hit_def Some q(2))
  moreover have "p = q" if "p \<in> R" "matches p ip" for p
    using matching_candidate [OF assms(3) that q(1)] ub(2) ub(3) [of "stored p"] matching_below [OF that(2) assms(4)]
      that(1) assms(2) q(2) by auto
  ultimately show ?thesis using q(1) by blast
qed


section \<open>Rules that come and go\<close>

datatype rule_cmd = AddAllow bytes | DelAllow bytes | AddDeny bytes | DelDeny bytes

fun filter_exec :: "rule_cmd \<Rightarrow> ip_filter \<Rightarrow> ip_filter" where
  "filter_exec (AddAllow p) f = add_allow p f"
| "filter_exec (DelAllow p) f = del_allow p f"
| "filter_exec (AddDeny p) f = add_deny p f"
| "filter_exec (DelDeny p) f = del_deny p f"

text \<open>The rules as sets of texts, and what to do with an address no rule matches.\<close>

record policy =
  allowed :: "bytes set"
  denied :: "bytes set"
  allow_rest :: bool
  deny_rest :: bool

definition everyone :: "bytes \<Rightarrow> bool" where
  "everyone p \<longleftrightarrow> p = lit ''all'' \<or> p = lit ''*''"

fun policy_exec :: "rule_cmd \<Rightarrow> policy \<Rightarrow> policy" where
  "policy_exec (AddAllow p) P =
     (if everyone p then P\<lparr>allow_rest := True\<rparr>
      else P\<lparr>allow_rest := False, allowed := insert p (allowed P)\<rparr>)"
| "policy_exec (DelAllow p) P =
     (if everyone p then P\<lparr>allow_rest := False\<rparr> else P\<lparr>allowed := allowed P - {p}\<rparr>)"
| "policy_exec (AddDeny p) P =
     (if everyone p then P\<lparr>deny_rest := True\<rparr> else P\<lparr>denied := insert p (denied P)\<rparr>)"
| "policy_exec (DelDeny p) P =
     (if everyone p then P\<lparr>deny_rest := False\<rparr> else P\<lparr>denied := denied P - {p}\<rparr>)"

definition admits :: "policy \<Rightarrow> bytes \<Rightarrow> bool" where
  "admits P ip \<longleftrightarrow>
     \<not> (\<exists>p \<in> denied P. matches p ip) \<and>
     ((\<exists>p \<in> allowed P. matches p ip) \<or> \<not> deny_rest P \<and> allow_rest P)"

definition policy_new :: policy where
  "policy_new = \<lparr>allowed = {}, denied = {}, allow_rest = True, deny_rest = False\<rparr>"

text \<open>The two ordered sets of the filter hold the rules of the policy.\<close>

definition keeps :: "bytes list \<Rightarrow> bytes set \<Rightarrow> bool" where
  "keeps m R \<longleftrightarrow> sorted m \<and> distinct m \<and> set m = stored ` R"

lemma keeps_insert: "keeps m R \<Longrightarrow> keeps (insort_insert (stored p) m) (insert p R)"
  by (simp add: keeps_def sorted_insort_insert distinct_insort_insert set_insort_insert)

lemma keeps_remove: "keeps m R \<Longrightarrow> keeps (remove1 (stored p) m) (R - {p})"
  by (auto simp: keeps_def sorted_remove1)

definition implements :: "ip_filter \<Rightarrow> policy \<Rightarrow> bool" where
  "implements f P \<longleftrightarrow>
     keeps (allow f) (allowed P) \<and> keeps (deny f) (denied P) \<and>
     allow_all f = allow_rest P \<and> deny_all f = deny_rest P"

lemma filter_step: "implements f P \<Longrightarrow> implements (filter_exec c f) (policy_exec c P)"
  by (cases c)
    (simp_all add: implements_def add_allow_def del_allow_def add_deny_def del_deny_def everyone_def
      keeps_insert [unfolded stored_def] keeps_remove [unfolded stored_def] Let_def)

lemma filter_run: "implements f P \<Longrightarrow> implements (fold filter_exec cs f) (fold policy_exec cs P)"
  by (induction cs arbitrary: f P) (simp_all add: filter_step)

lemma implements_new: "implements ip_filter_new policy_new"
  by (simp add: implements_def ip_filter_new_def policy_new_def keeps_def)

text \<open>
  C34: after any sequence of calls that add and delete rules, the filter passes an address exactly
  when the policy these calls describe admits it: a deny rule wins over an allow rule, and those
  over the default. Required is that no rule of a set begins with another rule of the set and
  that the bytes of the address are less than \<open>@\<close>, as those of a dotted address are.
\<close>

theorem ip_filter_decides:
  assumes "unnested (denied (fold policy_exec cs policy_new))"
    and "unnested (allowed (fold policy_exec cs policy_new))" and "\<forall>c \<in> set ip. c < 64"
  shows "check_pass ip (fold filter_exec cs ip_filter_new) = admits (fold policy_exec cs policy_new) ip"
proof -
  let ?f = "fold filter_exec cs ip_filter_new" and ?P = "fold policy_exec cs policy_new"
  have i: "implements ?f ?P" by (rule filter_run [OF implements_new])
  then have "check_hit (deny ?f) ip \<longleftrightarrow> (\<exists>p \<in> denied ?P. matches p ip)"
    "check_hit (allow ?f) ip \<longleftrightarrow> (\<exists>p \<in> allowed ?P. matches p ip)"
    using check_hit_exact [OF _ _ assms(1,3)] check_hit_exact [OF _ _ assms(2,3)]
    by (simp_all add: implements_def keeps_def)
  with i show ?thesis by (auto simp: check_pass_def admits_def implements_def)
qed

text \<open>Rules on 10.1 and the address 10.2.0.1, and an address of the range 10.1.\<close>

lemma ip_filter_decides_witness:
  "\<not> check_pass (lit ''10.1.0.9'') (fold filter_exec
     [AddDeny (lit ''10.1''), AddDeny (lit ''10.2.0.1''), AddAllow (lit ''all'')] ip_filter_new)"
proof -
  let ?cs = "[AddDeny (lit ''10.1''), AddDeny (lit ''10.2.0.1''), AddAllow (lit ''all'')]"
  have "unnested (denied (fold policy_exec ?cs policy_new))" "unnested (allowed (fold policy_exec ?cs policy_new))"
    "\<forall>c \<in> set (lit ''10.1.0.9''). c < 64"
    by (simp_all add: unnested_def policy_new_def lit_def everyone_def of_char_def)
  from ip_filter_decides [OF this] show ?thesis
    by (simp add: admits_def policy_new_def lit_def everyone_def matches_def is_full_ip_def of_char_def
        strict_prefix_def)
qed

text \<open>
  nested rules defeat the filter: with the ranges 10.1 and 10.1.2 denied, the address
  10.1.1.1 of the denied range 10.1 passes, and so it does after the range 10.1.2 alone was
  added to a filter that stopped the address.
\<close>

theorem nested_rules_leak:
  "check_pass (lit ''10.1.1.1'') (add_deny (lit ''10.1.2'') (add_deny (lit ''10.1'') ip_filter_new)) \<and>
   \<not> check_pass (lit ''10.1.1.1'') (add_deny (lit ''10.1'') ip_filter_new)"
  by (simp add: check_pass_def check_hit_def upper_bound_def add_deny_def ip_filter_new_def lit_def
      is_full_ip_def of_char_def insort_insert_key_def Let_def)

end
