(* ===== verification/Linked_List.thy ===== *)
theory Linked_List
  imports Prelude
begin

text \<open>
  \<open>ssdb/util/list.h\<close>: the intrusive doubly linked list. The items carry the two pointers
  themselves, so the list works on the heap of its items; the heap is explicit here. A pointer is
  \<open>None\<close> for \<open>NULL\<close>, and an operation that dereferences \<open>NULL\<close> has no result.
\<close>

section \<open>Operations\<close>

type_synonym addr = nat

record list_item =
  i_prev :: "addr option"
  i_next :: "addr option"

type_synonym heap = "addr \<Rightarrow> list_item"

text \<open>The size is an \<open>int\<close> of the code, without its limit of 2^31 items.\<close>

record linked_list =
  ll_size :: int
  ll_head :: "addr option"
  ll_tail :: "addr option"

definition ll_new :: linked_list where
  "ll_new = \<lparr>ll_size = 0, ll_head = None, ll_tail = None\<rparr>"

definition set_prev :: "addr \<Rightarrow> addr option \<Rightarrow> heap \<Rightarrow> heap" where
  "set_prev a p h = h(a := (h a)\<lparr>i_prev := p\<rparr>)"

definition set_next :: "addr \<Rightarrow> addr option \<Rightarrow> heap \<Rightarrow> heap" where
  "set_next a p h = h(a := (h a)\<lparr>i_next := p\<rparr>)"

definition ll_empty :: "linked_list \<Rightarrow> bool" where
  "ll_empty l \<longleftrightarrow> ll_size l = 0"

definition ll_remove :: "addr option \<Rightarrow> heap \<times> linked_list \<Rightarrow> (heap \<times> linked_list) option" where
  "ll_remove ptr hl =
     (let (h, l) = hl; l = l\<lparr>ll_size := ll_size l - 1\<rparr>
      in case ptr of
           None \<Rightarrow> None
         | Some t \<Rightarrow>
             let h = (case i_prev (h t) of None \<Rightarrow> h | Some p \<Rightarrow> set_next p (i_next (h t)) h);
                 h = (case i_next (h t) of None \<Rightarrow> h | Some n \<Rightarrow> set_prev n (i_prev (h t)) h);
                 l = (if ll_head l = Some t then l\<lparr>ll_head := i_next (h t)\<rparr> else l);
                 l = (if ll_tail l = Some t then l\<lparr>ll_tail := i_prev (h t)\<rparr> else l)
             in Some (h, l))"

definition ll_pop_front :: "heap \<times> linked_list \<Rightarrow> (addr option \<times> (heap \<times> linked_list)) option" where
  "ll_pop_front hl =
     (let t = ll_head (snd hl) in map_option (\<lambda>hl'. (t, hl')) (ll_remove t hl))"

definition ll_push_back :: "addr \<Rightarrow> heap \<times> linked_list \<Rightarrow> heap \<times> linked_list" where
  "ll_push_back t hl =
     (let (h, l) = hl;
          l = l\<lparr>ll_size := ll_size l + 1\<rparr>;
          h = set_prev t (ll_tail l) h;
          h = set_next t None h;
          (h, l) = (case ll_tail l of
                      Some u \<Rightarrow> (set_next u (Some t) h, l)
                    | None \<Rightarrow> (h, l\<lparr>ll_head := Some t\<rparr>))
      in (h, l\<lparr>ll_tail := Some t\<rparr>))"

text \<open>The iterator is the pointer to the item it hands out next.\<close>

definition ll_iterator :: "linked_list \<Rightarrow> addr option" where
  "ll_iterator l = ll_head l"

definition ll_next :: "heap \<Rightarrow> addr option \<Rightarrow> addr option \<times> addr option" where
  "ll_next h it = (case it of None \<Rightarrow> (None, None) | Some p \<Rightarrow> (it, i_next (h p)))"

section \<open>The chain of items\<close>

definition first_of :: "addr list \<Rightarrow> addr option \<Rightarrow> addr option" where
  "first_of xs q = (case xs of [] \<Rightarrow> q | x # _ \<Rightarrow> Some x)"

definition last_of :: "addr option \<Rightarrow> addr list \<Rightarrow> addr option" where
  "last_of p xs = (if xs = [] then p else Some (last xs))"

text \<open>The items \<open>xs\<close> are linked in this order, between \<open>p\<close> and \<open>q\<close>.\<close>

fun chain :: "heap \<Rightarrow> addr option \<Rightarrow> addr list \<Rightarrow> addr option \<Rightarrow> bool" where
  "chain h p [] q = True"
| "chain h p (x # xs) q =
     (i_prev (h x) = p \<and> i_next (h x) = first_of xs q \<and> chain h (Some x) xs q)"

lemma ends_simps [simp]:
  "first_of [] q = q" "first_of (x # xs) q = Some x" "last_of p [] = p" "last_of p (x # xs) = last_of (Some x) xs"
  "first_of (xs @ ys) q = first_of xs (first_of ys q)" "last_of p (xs @ ys) = last_of (last_of p xs) ys"
  by (simp_all add: first_of_def last_of_def split: list.split)

lemma chain_append [simp]:
  "chain h p (xs @ ys) q \<longleftrightarrow> chain h p xs (first_of ys q) \<and> chain h (last_of p xs) ys q"
  by (induction xs arbitrary: p) auto

lemma chain_other:
  "(\<And>x. x \<in> set xs \<Longrightarrow> h' x = h x) \<Longrightarrow> chain h' p xs q = chain h p xs q"
  by (induction xs arbitrary: p) simp_all

lemma set_fields [simp]:
  "i_prev (set_prev a p h x) = (if x = a then p else i_prev (h x))" "i_next (set_prev a p h x) = i_next (h x)"
  "i_next (set_next a p h x) = (if x = a then p else i_next (h x))" "i_prev (set_next a p h x) = i_prev (h x)"
  by (simp_all add: set_prev_def set_next_def)

lemma chain_set_other [simp]:
  "a \<notin> set xs \<Longrightarrow> chain (set_prev a v h) p xs q = chain h p xs q"
  "a \<notin> set xs \<Longrightarrow> chain (set_next a v h) p xs q = chain h p xs q"
  by (rule chain_other, fastforce simp: set_prev_def set_next_def)+

text \<open>The two ends of a chain can be linked to something else.\<close>

definition relink_left :: "addr list \<Rightarrow> addr option \<Rightarrow> heap \<Rightarrow> heap" where
  "relink_left us q h = (case last_of None us of None \<Rightarrow> h | Some u \<Rightarrow> set_next u q h)"

definition relink_right :: "addr list \<Rightarrow> addr option \<Rightarrow> heap \<Rightarrow> heap" where
  "relink_right vs p h = (case first_of vs None of None \<Rightarrow> h | Some v \<Rightarrow> set_prev v p h)"

lemma relink_left:
  assumes "chain h p us q" "distinct us"
  shows "chain (relink_left us q' h) p us q'" and "x \<notin> set us \<Longrightarrow> relink_left us q' h x = h x"
proof -
  show "chain (relink_left us q' h) p us q'"
    using assms by (cases us rule: rev_cases) (simp_all add: relink_left_def)
  show "relink_left us q' h x = h x" if "x \<notin> set us"
    using that by (cases us rule: rev_cases) (simp_all add: relink_left_def set_next_def)
qed

lemma relink_right:
  assumes "chain h p vs q" "distinct vs"
  shows "chain (relink_right vs p' h) p' vs q" and "x \<notin> set vs \<Longrightarrow> relink_right vs p' h x = h x"
proof -
  show "chain (relink_right vs p' h) p' vs q"
    using assms by (cases vs) (simp_all add: relink_right_def)
  show "relink_right vs p' h x = h x" if "x \<notin> set vs"
    using that by (cases vs) (simp_all add: relink_right_def set_prev_def)
qed

lemma relink_Nil [simp]: "relink_left [] q h = h" "relink_right [] p h = h"
  by (simp_all add: relink_left_def relink_right_def)

definition holds_items :: "heap \<times> linked_list \<Rightarrow> addr list \<Rightarrow> bool" where
  "holds_items hl xs \<longleftrightarrow>
     distinct xs \<and> chain (fst hl) None xs None \<and> ll_size (snd hl) = int (length xs) \<and>
     ll_head (snd hl) = first_of xs None \<and> ll_tail (snd hl) = last_of None xs"

lemma holds_new: "holds_items (h, ll_new) []"
  by (simp add: holds_items_def ll_new_def)

lemma holds_push_back:
  assumes "holds_items hl xs" "t \<notin> set xs"
  shows "holds_items (ll_push_back t hl) (xs @ [t])"
proof (cases xs rule: rev_cases)
  case Nil
  then show ?thesis
    using assms by (simp add: holds_items_def ll_push_back_def split_beta Let_def)
next
  case (snoc us u)
  with assms have "t \<noteq> u" "t \<notin> set us" "u \<notin> set us" "u \<noteq> t" by (auto simp: holds_items_def)
  with assms snoc show ?thesis
    by (simp add: holds_items_def ll_push_back_def split_beta Let_def)
qed

lemma holds_remove:
  assumes "holds_items hl (us @ t # vs)"
  shows "\<exists>hl'. ll_remove (Some t) hl = Some hl' \<and> holds_items hl' (us @ vs)"
proof -
  obtain h l where hl: "hl = (h, l)" by fastforce
  have d: "distinct us" "distinct vs" "t \<notin> set us" "t \<notin> set vs" "set us \<inter> set vs = {}"
    and c: "chain h None us (Some t)" "chain h (Some t) vs None"
    and t: "i_prev (h t) = last_of None us" "i_next (h t) = first_of vs None"
    and l: "ll_size l = int (length us) + int (length vs) + 1" "ll_head l = first_of us (Some t)"
      "ll_tail l = last_of (Some t) vs"
    using assms by (simp_all add: hl holds_items_def)
  let ?h1 = "relink_left us (first_of vs None) h"
  let ?h2 = "relink_right vs (last_of None us) ?h1"
  let ?l = "\<lparr>ll_size = ll_size l - 1, ll_head = first_of us (first_of vs None), ll_tail = last_of (last_of None us) vs\<rparr>"
  note left = relink_left [OF c(1) d(1), where q' = "first_of vs None"]
  have c2: "chain ?h1 (Some t) vs None"
    using c(2) left(2) d(5) by (subst chain_other [where h = h]) auto
  note right = relink_right [OF c2 d(2), where p' = "last_of None us"]
  have same: "?h1 t = h t" "?h2 t = h t" using left(2) right(2) d by simp_all
  have "chain ?h2 None us (first_of vs None)"
    using left(1) right(2) d(5) by (subst chain_other [where h = ?h1]) auto
  with right(1) have "holds_items (?h2, ?l) (us @ vs)"
    using d l by (simp add: holds_items_def)
  moreover have "ll_head l = Some t \<longleftrightarrow> us = []" "ll_tail l = Some t \<longleftrightarrow> vs = []"
    using l(2,3) d(3,4) by (auto simp: first_of_def last_of_def split: list.splits)
  then have "ll_remove (Some t) hl = Some (?h2, ?l)"
    using l same t unfolding ll_remove_def hl
    by (simp add: Let_def flip: relink_left_def relink_right_def) (cases l; cases us; cases vs; simp)
  ultimately show ?thesis by blast
qed


section \<open>The list as a sequence\<close>

text \<open>
  The calls of a client, and what they do to a sequence of items. A sequence has no result where
  the client breaks the rules of the header: an item is in the list once, only an item of the list
  is removed, and only a list with items is popped.
\<close>

datatype list_cmd = PushBack addr | Remove addr | PopFront

fun ll_exec :: "list_cmd \<Rightarrow> heap \<times> linked_list \<Rightarrow> (addr option \<times> (heap \<times> linked_list)) option" where
  "ll_exec (PushBack t) hl = Some (None, ll_push_back t hl)"
| "ll_exec (Remove t) hl = map_option (Pair None) (ll_remove (Some t) hl)"
| "ll_exec PopFront hl = ll_pop_front hl"

fun seq_exec :: "list_cmd \<Rightarrow> addr list \<Rightarrow> (addr option \<times> addr list) option" where
  "seq_exec (PushBack t) xs = (if t \<in> set xs then None else Some (None, xs @ [t]))"
| "seq_exec (Remove t) xs = (if t \<in> set xs then Some (None, remove1 t xs) else None)"
| "seq_exec PopFront xs = (case xs of [] \<Rightarrow> None | x # ys \<Rightarrow> Some (Some x, ys))"

fun run_opt :: "('c \<Rightarrow> 's \<Rightarrow> ('r \<times> 's) option) \<Rightarrow> 'c list \<Rightarrow> 's \<Rightarrow> ('r list \<times> 's) option" where
  "run_opt exec [] s = Some ([], s)"
| "run_opt exec (c # cs) s =
     (case exec c s of
        None \<Rightarrow> None
      | Some (a, s1) \<Rightarrow> map_option (\<lambda>(as, s2). (a # as, s2)) (run_opt exec cs s1))"

fun ll_walk :: "nat \<Rightarrow> heap \<Rightarrow> addr option \<Rightarrow> addr option list" where
  "ll_walk 0 h it = []"
| "ll_walk (Suc n) h it = (let (x, it') = ll_next h it in x # ll_walk n h it')"

lemma ll_exec_refines:
  assumes "holds_items hl xs" "seq_exec c xs = Some (a, ys)"
  shows "\<exists>hl'. ll_exec c hl = Some (a, hl') \<and> holds_items hl' ys"
proof (cases c)
  case (PushBack t)
  then show ?thesis using assms holds_push_back [OF assms(1), of t] by (auto split: if_splits)
next
  case (Remove t)
  then have "t \<in> set xs" using assms(2) by (auto split: if_splits)
  then obtain us vs where "xs = us @ t # vs" "t \<notin> set us" by (meson split_list_first)
  then show ?thesis
    using assms Remove holds_remove [of hl us t vs] by (fastforce simp: remove1_append)
next
  case PopFront
  then obtain x where x: "xs = x # ys" "a = Some x" using assms(2) by (auto split: list.splits)
  then have "ll_head (snd hl) = Some x" using assms(1) by (simp add: holds_items_def)
  with x PopFront show ?thesis using assms(1) holds_remove [of hl "[]" x ys] by (auto simp: ll_pop_front_def)
qed

lemma ll_run_refines:
  "holds_items hl xs \<Longrightarrow> run_opt seq_exec cs xs = Some (as, ys) \<Longrightarrow>
     \<exists>hl'. run_opt ll_exec cs hl = Some (as, hl') \<and> holds_items hl' ys"
proof (induction cs arbitrary: hl xs as)
  case (Cons c cs)
  then obtain a zs bs where c: "seq_exec c xs = Some (a, zs)" "run_opt seq_exec cs zs = Some (bs, ys)" "as = a # bs"
    by (auto split: option.splits)
  from ll_exec_refines [OF Cons.prems(1) c(1)] obtain hl1 where
    "ll_exec c hl = Some (a, hl1)" "holds_items hl1 zs" by blast
  with Cons.IH [OF this(2) c(2)] c(3) show ?case by auto
qed simp

lemma ll_walk_end: "ll_walk k h None = replicate k None"
  by (induction k) (simp_all add: ll_next_def)

lemma ll_walk_chain:
  "chain h p xs None \<Longrightarrow> ll_walk (length xs + k) h (first_of xs None) = map Some xs @ replicate k None"
  by (induction xs arbitrary: p) (auto simp: ll_walk_end ll_next_def)

text \<open>
  C27: as long as its client keeps to the rules, the linked list answers every call as a sequence
  does; afterwards its counter is the number of items, and the iterator yields them in order and
  then \<open>NULL\<close> for ever.
\<close>

theorem linked_list_refines:
  assumes "run_opt seq_exec cs [] = Some (as, ys)"
  shows "\<exists>h' l'. run_opt ll_exec cs (h, ll_new) = Some (as, (h', l')) \<and>
    ll_size l' = int (length ys) \<and> (ll_empty l' \<longleftrightarrow> ys = []) \<and>
    ll_walk (length ys + k) h' (ll_iterator l') = map Some ys @ replicate k None"
proof -
  from ll_run_refines [OF holds_new assms] obtain h' l' where
    "run_opt ll_exec cs (h, ll_new) = Some (as, (h', l'))" and i: "holds_items (h', l') ys" by fastforce
  moreover have "ll_walk (length ys + k) h' (ll_iterator l') = map Some ys @ replicate k None"
    using i ll_walk_chain [of h' None ys k] by (simp add: holds_items_def ll_iterator_def)
  ultimately show ?thesis by (auto simp: holds_items_def ll_empty_def)
qed

lemma linked_list_refines_witness:
  "\<exists>h' l'. run_opt ll_exec [PushBack 5, PushBack 7, PushBack 9, Remove 7, PopFront]
      (\<lambda>_. \<lparr>i_prev = None, i_next = None\<rparr>, ll_new) = Some ([None, None, None, None, Some 5], (h', l')) \<and>
    ll_size l' = 1 \<and> ll_walk 2 h' (ll_iterator l') = [Some 9, None]"
proof -
  have "run_opt seq_exec [PushBack 5, PushBack 7, PushBack 9, Remove 7, PopFront] [] =
      Some ([None, None, None, None, Some 5], [9])" by simp
  from linked_list_refines [OF this, where k = 1] show ?thesis
    by (fastforce simp: numeral_2_eq_2)
qed

text \<open>\<open>pop_front\<close> on an empty list dereferences \<open>NULL\<close>, after it has made the counter negative.\<close>

lemma pop_front_empty: "ll_pop_front (h, ll_new) = None"
  by (simp add: ll_pop_front_def ll_new_def ll_remove_def)

end
