(* ===== verification/Thread_Pool.thy ===== *)
theory Thread_Pool
  imports Prelude "HOL-Library.Multiset"
begin

text \<open>
  \<open>ssdb/util/thread.h\<close>: the blocking queue, the queue with a pipe that a reader can wait on with
  \<open>select\<close>, and the pool of workers between the two. Code that runs under a mutex is one step;
  what happens between two such sections of different threads is an interleaving of their steps.
  The calls of the pthread library that the code checks are given by their outcomes.
\<close>

section \<open>The queues\<close>

text \<open>
  \<open>Queue\<close>. The first argument of the methods says whether \<open>pthread_mutex_lock\<close> succeeds. The
  result type of \<open>empty\<close> is \<open>bool\<close>, so that its error -1 is \<open>true\<close>.
\<close>

definition queue_empty :: "bool \<Rightarrow> 't list \<Rightarrow> bool" where
  "queue_empty lock_ok q = (if \<not> lock_ok then True else q = [])"

definition queue_size :: "bool \<Rightarrow> 't list \<Rightarrow> int" where
  "queue_size lock_ok q = (if \<not> lock_ok then -1 else sint (of_nat (length q) :: 32 word))"

definition queue_push :: "bool \<Rightarrow> 't \<Rightarrow> 't list \<Rightarrow> int \<times> 't list" where
  "queue_push lock_ok x q = (if \<not> lock_ok then (-1, q) else (1, q @ [x]))"

text \<open>
  \<open>pop\<close> between two waits: the caller waits while there is nothing, and each time it has the
  mutex again it looks again. \<open>wait_ok\<close> is the outcome of a wait that ends. A failed wait
  returns with the mutex still locked.
\<close>

datatype 't pop_result = Popped 't | Waits | Failed_locked | Failed

definition queue_pop_turn :: "bool \<Rightarrow> bool \<Rightarrow> 't list \<Rightarrow> 't pop_result \<times> 't list" where
  "queue_pop_turn lock_ok wait_ok q =
     (if \<not> lock_ok then (Failed, q)
      else case q of
             [] \<Rightarrow> (if \<not> wait_ok then Failed_locked else Waits, q)
           | x # xs \<Rightarrow> (Popped x, xs))"

text \<open>
  \<open>SelectableQueue\<close>: the items, the bytes in the pipe and the room of the pipe, which the system
  sets. A push adds its item and writes its byte under the mutex; a full pipe makes it wait there.
\<close>

record 't sel_queue =
  sq_items :: "'t list"
  sq_pipe :: nat
  sq_locked :: bool

definition sq_new :: "'t sel_queue" where
  "sq_new = \<lparr>sq_items = [], sq_pipe = 0, sq_locked = False\<rparr>"

definition sq_size :: "'t sel_queue \<Rightarrow> int" where
  "sq_size q = sint (of_nat (length (sq_items q)) :: 32 word)"

text \<open>The two parts of \<open>push\<close>: with the mutex, add; then write the byte and unlock.\<close>

definition sq_push_item :: "'t \<Rightarrow> 't sel_queue \<Rightarrow> 't sel_queue option" where
  "sq_push_item x q =
     (if sq_locked q then None else Some (q\<lparr>sq_locked := True, sq_items := sq_items q @ [x]\<rparr>))"

definition sq_push_byte :: "nat \<Rightarrow> 't sel_queue \<Rightarrow> 't sel_queue option" where
  "sq_push_byte room q =
     (if sq_pipe q < room then Some (q\<lparr>sq_pipe := sq_pipe q + 1, sq_locked := False\<rparr>) else None)"

text \<open>
  The two parts of \<open>pop\<close>: read a byte, which waits for one; then, with the mutex, take the
  first item. The second part reports an error when there is none.
\<close>

definition sq_pop_byte :: "'t sel_queue \<Rightarrow> 't sel_queue option" where
  "sq_pop_byte q = (if sq_pipe q > 0 then Some (q\<lparr>sq_pipe := sq_pipe q - 1\<rparr>) else None)"

definition sq_pop_item :: "'t sel_queue \<Rightarrow> ((int \<times> 't option) \<times> 't sel_queue) option" where
  "sq_pop_item q =
     (if sq_locked q then None
      else case sq_items q of
             [] \<Rightarrow> Some ((-1, None), q)
           | x # xs \<Rightarrow> Some ((1, Some x), q\<lparr>sq_items := xs\<rparr>))"

section \<open>The pool\<close>

text \<open>Where a worker is in its loop, and where the reader of the results is in \<open>pop\<close>.\<close>

datatype 'j worker = Fetching | Working 'j | Writing

record 'j pool =
  jobs :: "'j list"
  results :: "'j sel_queue"
  workers :: "'j worker list"
  reading :: bool
  started :: bool
  submitted :: "'j list"
  delivered :: "'j list"
  failed :: bool

definition pool_new :: "'j pool" where
  "pool_new = \<lparr>jobs = [], results = sq_new, workers = [], reading = False, started = False,
     submitted = [], delivered = [], failed = False\<rparr>"

text \<open>\<open>start\<close>: \<open>created\<close> lists for which workers \<open>pthread_create\<close> succeeds.\<close>

definition pool_start :: "bool list \<Rightarrow> 'j pool \<Rightarrow> 'j pool" where
  "pool_start created p =
     (if started p then p
      else p\<lparr>workers := workers p @ replicate (length (filter id created)) Fetching, started := True\<rparr>)"

definition pool_push :: "'j \<Rightarrow> 'j pool \<Rightarrow> 'j pool" where
  "pool_push j p =
     p\<lparr>jobs := snd (queue_push True j (jobs p)), submitted := submitted p @ [j]\<rparr>"

text \<open>
  One turn of the loop of \<open>_run_worker\<close>, worker \<open>i\<close>: fetch a job, work on it and add it to the
  results, write the byte. \<open>proc\<close> gets the job by value, so the result is the job itself.
\<close>

definition worker_turn :: "nat \<Rightarrow> nat \<Rightarrow> 'j pool \<Rightarrow> 'j pool option" where
  "worker_turn room i p =
     (if i \<ge> length (workers p) then None
      else case workers p ! i of
             Fetching \<Rightarrow>
               (case queue_pop_turn True True (jobs p) of
                  (Popped j, js) \<Rightarrow> Some (p\<lparr>jobs := js, workers := (workers p)[i := Working j]\<rparr>)
                | _ \<Rightarrow> None)
           | Working j \<Rightarrow>
               map_option (\<lambda>q. p\<lparr>results := q, workers := (workers p)[i := Writing]\<rparr>)
                 (sq_push_item j (results p))
           | Writing \<Rightarrow>
               map_option (\<lambda>q. p\<lparr>results := q, workers := (workers p)[i := Fetching]\<rparr>)
                 (sq_push_byte room (results p)))"

text \<open>A turn of the one thread that pops results.\<close>

definition reader_turn :: "'j pool \<Rightarrow> 'j pool option" where
  "reader_turn p =
     (if \<not> reading p
      then map_option (\<lambda>q. p\<lparr>results := q, reading := True\<rparr>) (sq_pop_byte (results p))
      else map_option
             (\<lambda>((r, x), q). case x of
                None \<Rightarrow> p\<lparr>results := q, reading := False, failed := True\<rparr>
              | Some j \<Rightarrow> p\<lparr>results := q, reading := False, delivered := delivered p @ [j]\<rparr>)
             (sq_pop_item (results p)))"

text \<open>
  The turns of the threads of the pool, all steps, and the states they lead to. The pipe has room
  for \<open>room\<close> bytes.
\<close>

inductive pool_turn :: "nat \<Rightarrow> 'j pool \<Rightarrow> 'j pool \<Rightarrow> bool" for room :: nat where
  Worker: "worker_turn room i p = Some p' \<Longrightarrow> pool_turn room p p'"
| Reader: "reader_turn p = Some p' \<Longrightarrow> pool_turn room p p'"

inductive pool_step :: "nat \<Rightarrow> 'j pool \<Rightarrow> 'j pool \<Rightarrow> bool" for room :: nat where
  Start: "pool_step room p (pool_start created p)"
| Push: "pool_step room p (pool_push j p)"
| Turn: "pool_turn room p p' \<Longrightarrow> pool_step room p p'"

inductive pool_reachable :: "nat \<Rightarrow> 'j pool \<Rightarrow> bool" for room :: nat where
  New: "pool_reachable room pool_new"
| Step: "pool_reachable room p \<Longrightarrow> pool_step room p p' \<Longrightarrow> pool_reachable room p'"

text \<open>A turn in terms of the lists and counters it changes.\<close>

lemma worker_turn_cases [consumes 1, case_names fetch add notify]:
  assumes "worker_turn room i p = Some p'"
  obtains (fetch) j js where "i < length (workers p)" "workers p ! i = Fetching" "jobs p = j # js"
      "p' = p\<lparr>jobs := js, workers := (workers p)[i := Working j]\<rparr>"
  | (add) j where "i < length (workers p)" "workers p ! i = Working j" "\<not> sq_locked (results p)"
      "p' = p\<lparr>results := (results p)\<lparr>sq_locked := True, sq_items := sq_items (results p) @ [j]\<rparr>,
        workers := (workers p)[i := Writing]\<rparr>"
  | (notify) "i < length (workers p)" "workers p ! i = Writing" "sq_pipe (results p) < room"
      "p' = p\<lparr>results := (results p)\<lparr>sq_pipe := sq_pipe (results p) + 1, sq_locked := False\<rparr>,
        workers := (workers p)[i := Fetching]\<rparr>"
proof (cases "workers p ! i")
  case Fetching
  with assms fetch show thesis
    by (cases "jobs p") (auto simp: worker_turn_def queue_pop_turn_def split: if_splits)
next
  case (Working j)
  with assms add show thesis by (auto simp: worker_turn_def sq_push_item_def split: if_splits)
next
  case Writing
  with assms notify show thesis by (auto simp: worker_turn_def sq_push_byte_def split: if_splits)
qed

lemma reader_turn_cases [consumes 1, case_names byte none one]:
  assumes "reader_turn p = Some p'"
  obtains (byte) "\<not> reading p" "sq_pipe (results p) > 0"
      "p' = p\<lparr>results := (results p)\<lparr>sq_pipe := sq_pipe (results p) - 1\<rparr>, reading := True\<rparr>"
  | (none) "reading p" "\<not> sq_locked (results p)" "sq_items (results p) = []"
      "p' = p\<lparr>reading := False, failed := True\<rparr>"
  | (one) j js where "reading p" "\<not> sq_locked (results p)" "sq_items (results p) = j # js"
      "p' = p\<lparr>results := (results p)\<lparr>sq_items := js\<rparr>, reading := False, delivered := delivered p @ [j]\<rparr>"
proof (cases "reading p")
  case False
  with assms byte show thesis by (auto simp: reader_turn_def sq_pop_byte_def split: if_splits)
next
  case True
  with assms none one show thesis
    by (cases "sq_items (results p)") (auto simp: reader_turn_def sq_pop_item_def split: if_splits)
qed

section \<open>The invariant\<close>

fun in_hand :: "'j worker \<Rightarrow> 'j list" where
  "in_hand (Working j) = [j]" | "in_hand _ = []"

definition hands :: "'j worker list \<Rightarrow> 'j list" where
  "hands ws = concat (map in_hand ws)"

definition writers :: "'j worker list \<Rightarrow> nat" where
  "writers ws = length (filter (\<lambda>w. w = Writing) ws)"

lemma hands_fetching: "\<forall>w \<in> set ws. w = Fetching \<Longrightarrow> hands ws = []"
  by (induction ws) (auto simp: hands_def)

text \<open>A worker that changes its place.\<close>

lemma hands_update:
  assumes "i < length ws"
  shows "mset (hands (ws[i := w])) + mset (in_hand (ws ! i)) = mset (hands ws) + mset (in_hand w)"
  using assms
proof (induction ws arbitrary: i)
  case (Cons v ws)
  then show ?case by (cases i) (auto simp: hands_def algebra_simps)
qed simp

lemma writers_update:
  assumes "i < length ws"
  shows "writers (ws[i := w]) + (if ws ! i = Writing then 1 else 0) = writers ws + (if w = Writing then 1 else 0)"
  using assms
proof (induction ws arbitrary: i)
  case (Cons v ws)
  show ?case
  proof (cases i)
    case (Suc n)
    then show ?thesis using Cons.IH [of n] Cons.prems by (simp add: writers_def split: if_splits)
  qed (use Cons.prems in \<open>simp add: writers_def\<close>)
qed simp

text \<open>
  Every job is in one place; each result in the queue has its byte in the pipe, in the hand of the
  reader, or still to be written by the worker with the mutex; and the reader has not failed.
\<close>

definition pool_ok :: "'j pool \<Rightarrow> bool" where
  "pool_ok p \<longleftrightarrow>
     mset (submitted p) =
       mset (jobs p) + mset (hands (workers p)) + mset (sq_items (results p)) + mset (delivered p) \<and>
     length (sq_items (results p)) =
       sq_pipe (results p) + (if reading p then 1 else 0) + (if sq_locked (results p) then 1 else 0) \<and>
     writers (workers p) = (if sq_locked (results p) then 1 else 0) \<and>
     \<not> failed p \<and> (\<not> started p \<longrightarrow> workers p = [])"

lemma pool_ok_new: "pool_ok pool_new"
  by (simp add: pool_ok_def pool_new_def sq_new_def hands_def writers_def)

lemma pool_ok_worker:
  assumes "worker_turn room i p = Some p'" and ok: "pool_ok p"
  shows "pool_ok p'"
  using assms(1)
proof (cases rule: worker_turn_cases)
  case (fetch j js)
  with ok hands_update [OF fetch(1), of "Working j"] writers_update [OF fetch(1), of "Working j"]
  show ?thesis by (auto simp: pool_ok_def)
next
  case (add j)
  with ok hands_update [OF add(1), of Writing] writers_update [OF add(1), of Writing]
  show ?thesis by (auto simp: pool_ok_def)
next
  case notify
  have "writers (workers p) > 0"
    using writers_update [OF notify(1), of Fetching] notify(2) by simp
  then have "sq_locked (results p)" using ok by (auto simp: pool_ok_def split: if_splits)
  with ok notify hands_update [OF notify(1), of Fetching] writers_update [OF notify(1), of Fetching]
  show ?thesis by (auto simp: pool_ok_def)
qed

lemma pool_ok_reader:
  assumes "reader_turn p = Some p'" "pool_ok p"
  shows "pool_ok p'"
  using assms by (cases rule: reader_turn_cases) (auto simp: pool_ok_def)

lemma pool_ok_turn: "pool_turn room p p' \<Longrightarrow> pool_ok p \<Longrightarrow> pool_ok p'"
  by (induction rule: pool_turn.induct) (auto intro: pool_ok_worker pool_ok_reader)

lemma pool_ok_start: "pool_ok p \<Longrightarrow> pool_ok (pool_start created p)"
  by (auto simp: pool_ok_def pool_start_def hands_def writers_def)

lemma pool_ok_push: "pool_ok p \<Longrightarrow> pool_ok (pool_push j p)"
  by (simp add: pool_ok_def pool_push_def queue_push_def)

lemma pool_ok_step: "pool_step room p p' \<Longrightarrow> pool_ok p \<Longrightarrow> pool_ok p'"
  by (induction rule: pool_step.induct) (auto intro: pool_ok_turn pool_ok_start pool_ok_push)

lemma pool_ok_reachable: "pool_reachable room p \<Longrightarrow> pool_ok p"
  by (induction rule: pool_reachable.induct) (auto intro: pool_ok_step simp: pool_ok_new)


text \<open>With one worker the results come out in the order of the jobs.\<close>

definition pool_queue :: "'j pool \<Rightarrow> 'j list" where
  "pool_queue p = delivered p @ sq_items (results p) @ hands (workers p) @ jobs p"

lemma pool_queue_worker:
  assumes "worker_turn room i p = Some p'" "length (workers p) \<le> 1"
  shows "pool_queue p' = pool_queue p \<and> submitted p' = submitted p \<and> length (workers p') \<le> 1"
proof -
  have one: "workers p = [workers p ! i]" if "i < length (workers p)"
    using that assms(2) by (cases "workers p") auto
  then have i: "i = 0" if "i < length (workers p)" using that assms(2) by simp
  from assms(1) show ?thesis
  proof (cases rule: worker_turn_cases)
    case (fetch j js)
    with one i show ?thesis by (cases "workers p") (auto simp: pool_queue_def hands_def)
  next
    case (add j)
    with one i show ?thesis by (cases "workers p") (auto simp: pool_queue_def hands_def)
  next
    case notify
    with one i show ?thesis by (cases "workers p") (auto simp: pool_queue_def hands_def)
  qed
qed

lemma pool_queue_reader:
  assumes "reader_turn p = Some p'" "pool_ok p"
  shows "pool_queue p' = pool_queue p \<and> submitted p' = submitted p \<and> workers p' = workers p"
  using assms by (cases rule: reader_turn_cases) (auto simp: pool_queue_def)

lemma pool_turn_workers:
  assumes "pool_turn room p p'"
  shows "length (workers p') = length (workers p) \<and> submitted p' = submitted p \<and> started p' = started p \<and>
    length (delivered p) \<le> length (delivered p')"
  using assms
proof cases
  case (Worker i)
  then show ?thesis by (cases rule: worker_turn_cases) simp_all
next
  case Reader
  then show ?thesis by (cases rule: reader_turn_cases) simp_all
qed

lemma pool_queue_reachable:
  "pool_reachable room p \<Longrightarrow> length (workers p) \<le> 1 \<Longrightarrow> pool_queue p = submitted p"
proof (induction rule: pool_reachable.induct)
  case New
  show ?case by (simp add: pool_queue_def pool_new_def sq_new_def hands_def)
next
  case (Step p p')
  note ok = pool_ok_reachable [OF Step.hyps(1)]
  from Step.hyps(2) show ?case
  proof cases
    case (Start created)
    with Step ok show ?thesis
      by (auto simp: pool_start_def pool_queue_def hands_def pool_ok_def split: if_splits)
  next
    case (Push j)
    with Step show ?thesis by (auto simp: pool_push_def queue_push_def pool_queue_def)
  next
    case Turn
    note same = pool_turn_workers [OF Turn]
    then have q: "length (workers p) \<le> 1" "pool_queue p = submitted p" using Step by simp_all
    from Turn show ?thesis
    proof cases
      case (Worker i)
      with pool_queue_worker [OF this q(1)] q(2) show ?thesis by simp
    next
      case Reader
      with pool_queue_reader [OF this ok] q(2) show ?thesis by simp
    qed
  qed
qed

text \<open>
  C19: however the threads interleave, no job is lost or doubled: the jobs handed in are those
  still queued, those in the hands of workers, the results in the queue and those delivered. Results
  and bytes correspond one to one: each result in the queue has its byte in the pipe, in the hand of
  the reader that has read it, or about to be written by the one worker that holds the mutex. So the
  reader that was woken never reports the error of an empty queue.
\<close>

theorem pool_conserves_jobs:
  assumes "pool_reachable room p"
  shows "mset (submitted p) =
      mset (jobs p) + mset (hands (workers p)) + mset (sq_items (results p)) + mset (delivered p) \<and>
    length (sq_items (results p)) = sq_pipe (results p) + (if reading p then 1 else 0) + writers (workers p) \<and>
    writers (workers p) = (if sq_locked (results p) then 1 else 0) \<and> \<not> failed p"
  using pool_ok_reachable [OF assms] by (simp add: pool_ok_def)

lemma pool_step_worker: "pool_reachable room p \<Longrightarrow> worker_turn room i p = Some p' \<Longrightarrow> pool_reachable room p'"
  and pool_step_reader: "pool_reachable room p \<Longrightarrow> reader_turn p = Some p' \<Longrightarrow> pool_reachable room p'"
  by (blast intro: pool_reachable.Step pool_step.Turn pool_turn.intros)+

lemma pool_step_push: "pool_reachable room p \<Longrightarrow> pool_reachable room (pool_push j p)"
  and pool_step_start: "pool_reachable room p \<Longrightarrow> pool_reachable room (pool_start created p)"
  by (blast intro: pool_reachable.Step pool_step.intros)+

text \<open>A schedule that can be run.\<close>

datatype 'j event = Begin "bool list" | Submit 'j | TurnOf nat | Reads

fun pool_run :: "nat \<Rightarrow> 'j event list \<Rightarrow> 'j pool \<Rightarrow> 'j pool option" where
  "pool_run room [] p = Some p"
| "pool_run room (Begin created # es) p = pool_run room es (pool_start created p)"
| "pool_run room (Submit j # es) p = pool_run room es (pool_push j p)"
| "pool_run room (TurnOf i # es) p =
     (case worker_turn room i p of None \<Rightarrow> None | Some q \<Rightarrow> pool_run room es q)"
| "pool_run room (Reads # es) p =
     (case reader_turn p of None \<Rightarrow> None | Some q \<Rightarrow> pool_run room es q)"

lemma pool_run_reachable:
  "pool_run room es p = Some q \<Longrightarrow> pool_reachable room p \<Longrightarrow> pool_reachable room q"
proof (induction room es p rule: pool_run.induct)
  case (4 room i es p)
  then show ?case by (auto intro: pool_step_worker split: option.splits)
next
  case (5 room es p)
  then show ?case by (auto intro: pool_step_reader split: option.splits)
qed (auto intro: pool_step_push pool_step_start)

lemmas pool_eval = pool_new_def pool_start_def pool_push_def queue_push_def worker_turn_def
  queue_pop_turn_def sq_new_def sq_push_item_def sq_push_byte_def reader_turn_def sq_pop_byte_def
  sq_pop_item_def

lemma pool_conserves_jobs_witness:
  "\<exists>p. pool_reachable 4 p \<and> jobs p = [8 :: nat] \<and> delivered p = [7] \<and> mset (submitted p) = {#7, 8#}"
proof -
  obtain p where run: "pool_run 4 [Begin [True, False], Submit 7, Submit 8, TurnOf 0, TurnOf 0, TurnOf 0, Reads, Reads]
      (pool_new :: nat pool) = Some p" and p: "jobs p = [8]" "delivered p = [7]" "workers p = [Fetching]"
      "results p = sq_new"
    by (simp add: pool_eval)
  then have r: "pool_reachable 4 p" by (meson pool_run_reachable pool_reachable.New)
  from pool_conserves_jobs [OF r] p r show ?thesis
    by (intro exI [of _ p]) (simp add: sq_new_def hands_def add.commute)
qed

text \<open>
  a pool with one worker is a queue: the results are delivered in the order the jobs were
  handed in.
\<close>

theorem pool_fifo:
  assumes "pool_reachable room p" "length (workers p) \<le> 1"
  shows "prefix (delivered p) (submitted p)"
  using pool_queue_reachable [OF assms] unfolding pool_queue_def by (metis prefixI)

lemma pool_fifo_witness:
  "\<exists>p. pool_reachable 4 p \<and> delivered p = [7 :: nat] \<and> prefix (delivered p) (submitted p)"
proof -
  obtain p where run: "pool_run 4 [Begin [True], Submit 7, Submit 8, TurnOf 0, TurnOf 0, TurnOf 0, Reads, Reads]
      (pool_new :: nat pool) = Some p" and p: "delivered p = [7]" "workers p = [Fetching]"
    by (simp add: pool_eval)
  then have r: "pool_reachable 4 p" by (meson pool_run_reachable pool_reachable.New)
  from pool_fifo [OF r] p r show ?thesis by auto
qed

section \<open>Delivery\<close>

text \<open>The work left: every turn of a thread uses some of it.\<close>

fun effort :: "'j worker \<Rightarrow> nat" where
  "effort Fetching = 0" | "effort (Working j) = 4" | "effort Writing = 1"

definition pool_work :: "'j pool \<Rightarrow> nat" where
  "pool_work p =
     5 * length (jobs p) + sum_list (map effort (workers p)) + 2 * length (sq_items (results p)) +
     (if reading p then 0 else 1)"

lemma effort_update:
  assumes "i < length ws"
  shows "sum_list (map effort (ws[i := w])) + effort (ws ! i) = sum_list (map effort ws) + effort w"
  using assms
proof (induction ws arbitrary: i)
  case (Cons v ws)
  show ?case
  proof (cases i)
    case (Suc n)
    then show ?thesis using Cons.IH [of n] Cons.prems by simp
  qed simp
qed simp

lemma pool_turn_work:
  assumes "pool_turn room p p'" "pool_ok p"
  shows "pool_work p' < pool_work p"
  using assms(1)
proof cases
  case (Worker i)
  then show ?thesis
  proof (cases rule: worker_turn_cases)
    case (fetch j js)
    with effort_update [OF fetch(1), of "Working j"] show ?thesis by (simp add: pool_work_def)
  next
    case (add j)
    with effort_update [OF add(1), of Writing] show ?thesis by (simp add: pool_work_def)
  next
    case notify
    with effort_update [OF notify(1), of Fetching] show ?thesis by (simp add: pool_work_def)
  qed
next
  case Reader
  then show ?thesis
  proof (cases rule: reader_turn_cases)
    case none
    with assms(2) show ?thesis by (simp add: pool_ok_def)
  qed (simp_all add: pool_work_def)
qed

lemma pool_turns_bound:
  "(pool_turn room ^^ n) p p' \<Longrightarrow> pool_ok p \<Longrightarrow> pool_ok p' \<and> n + pool_work p' \<le> pool_work p"
proof (induction n arbitrary: p')
  case (Suc n)
  then obtain q where q: "(pool_turn room ^^ n) p q" "pool_turn room q p'" by auto
  with Suc.IH [OF q(1) Suc.prems(2)] pool_turn_work [OF q(2)] pool_ok_turn [OF q(2)] show ?case by simp
qed simp

text \<open>A pool whose threads all wait has nothing left to do, as long as the pipe cannot fill up.\<close>

lemma pool_quiet:
  assumes ok: "pool_ok p" and small: "length (submitted p) \<le> length (delivered p) + room" "0 < room" and w: "workers p \<noteq> []"
    and quiet: "\<nexists>p'. pool_turn room p p'"
  shows "jobs p = [] \<and> sq_items (results p) = [] \<and> mset (delivered p) = mset (submitted p)"
proof -
  have wt: "worker_turn room i p = None" for i using quiet pool_turn.Worker by (metis not_None_eq)
  have rt: "reader_turn p = None" using quiet pool_turn.Reader by (metis not_None_eq)
  have "size (mset (submitted p)) = size (mset (jobs p) + mset (hands (workers p)) +
      mset (sq_items (results p)) + mset (delivered p))" using ok by (simp add: pool_ok_def)
  then have "length (sq_items (results p)) + length (delivered p) \<le> length (submitted p)" by simp
  moreover have "sq_pipe (results p) < length (sq_items (results p))" if "sq_locked (results p)"
    using ok that by (simp add: pool_ok_def)
  ultimately have pipe: "sq_locked (results p) \<Longrightarrow> sq_pipe (results p) < room" using small by linarith
  have unlocked: "\<not> sq_locked (results p)"
  proof
    assume l: "sq_locked (results p)"
    then have "filter (\<lambda>w. w = Writing) (workers p) \<noteq> []" using ok by (auto simp: pool_ok_def writers_def)
    then obtain i where "i < length (workers p)" "workers p ! i = Writing"
      by (auto simp: filter_empty_conv in_set_conv_nth)
    with wt [of i] pipe [OF l] show False by (simp add: worker_turn_def sq_push_byte_def)
  qed
  have r: "\<not> reading p" "sq_pipe (results p) = 0"
    using rt unlocked by (auto simp: reader_turn_def sq_pop_item_def sq_pop_byte_def split: if_splits list.splits)
  have fetching: "w = Fetching \<and> jobs p = []" if "w \<in> set (workers p)" for w
  proof -
    obtain i where i: "i < length (workers p)" "workers p ! i = w" using \<open>w \<in> set (workers p)\<close> by (auto simp: in_set_conv_nth)
    have "writers (workers p) = 0" using ok unlocked by (simp add: pool_ok_def)
    then have "w \<noteq> Writing" using \<open>w \<in> set (workers p)\<close> by (auto simp: writers_def filter_empty_conv)
    with i wt [of i] unlocked show ?thesis
      by (cases w) (auto simp: worker_turn_def sq_push_item_def queue_pop_turn_def split: list.splits)
  qed
  have "hands (workers p) = []"
    by (rule hands_fetching) (use fetching in blast)
  moreover obtain v where "v \<in> set (workers p)" using w by (cases "workers p") auto
  then have "jobs p = []" using fetching by blast
  moreover have "sq_items (results p) = []" using ok unlocked r by (simp add: pool_ok_def)
  ultimately show ?thesis using ok by (simp add: pool_ok_def)
qed

text \<open>
  C18: when no more jobs are in the pool, handed in and not yet delivered, than the pipe has room
  for, the threads deliver all of them. From any reachable state of a pool with a worker, however
  many jobs it has delivered before, they can take only a bounded number of turns, and once none of
  them can take another, every job handed in has been delivered.
\<close>

theorem pool_delivers:
  assumes "pool_reachable room p" "workers p \<noteq> []" "length (submitted p) \<le> length (delivered p) + room" "0 < room"
    and "(pool_turn room ^^ n) p p'"
  shows "n \<le> pool_work p \<and> ((\<nexists>q. pool_turn room p' q) \<longrightarrow> mset (delivered p') = mset (submitted p))"
proof -
  note b = pool_turns_bound [OF assms(5) pool_ok_reachable [OF assms(1)]]
  have "length (workers p') = length (workers p) \<and> submitted p' = submitted p \<and>
      length (delivered p) \<le> length (delivered p')"
    using assms(5)
  proof (induction n arbitrary: p')
    case (Suc n)
    then obtain q where "(pool_turn room ^^ n) p q" "pool_turn room q p'" by auto
    with Suc.IH pool_turn_workers show ?case by fastforce
  qed simp
  then have "workers p' \<noteq> []" "submitted p' = submitted p" "length (submitted p') \<le> length (delivered p') + room"
    using assms(2,3) by auto
  then show ?thesis using b pool_quiet [of p' room] assms(4) by simp
qed


lemma pool_delivers_witness:
  "\<exists>p p' :: nat pool. pool_reachable 4 p \<and> delivered p = [] \<and> (pool_turn 4 ^^ 5) p p' \<and> 5 \<le> pool_work p \<and>
     mset (delivered p') = {#7#}"
proof -
  let ?start = "[Begin [True], Submit 7] :: nat event list"
  obtain p0 p1 p2 p3 p4 p5 :: "nat pool" where
    run: "pool_run 4 ?start pool_new = Some p0"
    and t: "worker_turn 4 0 p0 = Some p1" "worker_turn 4 0 p1 = Some p2" "worker_turn 4 0 p2 = Some p3"
      "reader_turn p3 = Some p4" "reader_turn p4 = Some p5"
    and p: "workers p0 \<noteq> []" "submitted p0 = [7]" "delivered p0 = []" "jobs p5 = []" "workers p5 = [Fetching]"
      "results p5 = sq_new" "\<not> reading p5"
    by (simp add: pool_eval)
  have r: "pool_reachable 4 p0" using run by (meson pool_run_reachable pool_reachable.New)
  have turns: "(pool_turn 4 ^^ 5) p0 p5"
    using t pool_turn.intros by (simp add: numeral_eq_Suc) blast
  have quiet: "\<nexists>q. pool_turn 4 p5 q"
  proof
    assume "\<exists>q. pool_turn 4 p5 q"
    then obtain q where "pool_turn 4 p5 q" ..
    then show False
    proof cases
      case (Worker i)
      with p show False by (cases i) (simp_all add: pool_eval)
    next
      case Reader
      with p show False by (simp add: pool_eval)
    qed
  qed
  have "length (submitted p0) \<le> length (delivered p0) + 4" "(0::nat) < 4" using p by simp_all
  from pool_delivers [OF r p(1) this turns] quiet p turns r show ?thesis by fastforce
qed

section \<open>A full pipe\<close>

text \<open>The pool with one worker when \<open>k\<close> results wait and nothing else is left.\<close>

definition backlog :: "'j \<Rightarrow> nat \<Rightarrow> 'j pool" where
  "backlog j k = \<lparr>jobs = [], results = \<lparr>sq_items = replicate k j, sq_pipe = k, sq_locked = False\<rparr>,
     workers = [Fetching], reading = False, started = True, submitted = replicate k j, delivered = [],
     failed = False\<rparr>"

lemma backlog_Suc:
  "k < room \<Longrightarrow> pool_run room [Submit j, TurnOf 0, TurnOf 0, TurnOf 0] (backlog j k) = Some (backlog j (Suc k))"
  by (simp add: backlog_def pool_eval replicate_append_same)

lemma backlog_reachable: "k \<le> room \<Longrightarrow> pool_reachable room (backlog j k)"
proof (induction k)
  case 0
  have "pool_run room [Begin [True]] pool_new = Some (backlog j 0)"
    by (simp add: backlog_def pool_eval)
  then show ?case by (rule pool_run_reachable) (rule pool_reachable.New)
next
  case (Suc k)
  then show ?case using pool_run_reachable [OF backlog_Suc [of k room j]] by simp
qed

text \<open>
  C36: the pool can block for ever: when the results not yet read fill the pipe and one more waits
  to be written, the reader takes a byte, a worker fills the pipe again, takes the mutex for its
  next result and waits for room in the pipe, while the reader waits for the mutex. No thread can
  take a turn, and jobs have not been delivered. The jobs needed are the room of the pipe and two.
\<close>

theorem pool_deadlock:
  "\<exists>p. pool_reachable (Suc r) p \<and> (\<nexists>p'. pool_turn (Suc r) p p') \<and>
     submitted p = replicate (r + 3) j \<and> delivered p = [] \<and> workers p \<noteq> []"
proof -
  let ?es = "[Submit j, Submit j, TurnOf 0, TurnOf 0, Reads, TurnOf 0, TurnOf 0, TurnOf 0]"
  obtain p where run: "pool_run (Suc r) ?es (backlog j (Suc r)) = Some p"
    and p: "workers p = [Writing]" "sq_locked (results p)" "sq_pipe (results p) = Suc r" "reading p"
      "submitted p = replicate (r + 3) j" "delivered p = []"
    by (simp add: backlog_def pool_eval numeral_3_eq_3 replicate_append_same)
  have "pool_reachable (Suc r) p"
    by (rule pool_run_reachable [OF run backlog_reachable]) simp
  moreover have "\<not> pool_turn (Suc r) p q" for q
  proof
    assume "pool_turn (Suc r) p q"
    then show False
    proof cases
      case (Worker i)
      with p show False by (cases i) (simp_all add: worker_turn_def sq_push_byte_def)
    next
      case Reader
      with p show False by (simp add: reader_turn_def sq_pop_item_def)
    qed
  qed
  ultimately show ?thesis using p by auto
qed

end
