(* ===== verification/Log.thy ===== *)
theory Log
  imports Util_Strings
begin

text \<open>
  \<open>ssdb/util/log.h\<close> and \<open>log.cpp\<close>: the logger. Its state is the fields of the class; the file
  it writes to is part of an explicit world: the contents under the name of the log, the files it
  has been renamed to, and whether the descriptor is open. The time stamp and the formatted
  message are what \<open>sprintf\<close> and \<open>vsnprintf\<close> would print; the outcomes of \<open>rename\<close> and \<open>open\<close>
  are arguments.
\<close>

section \<open>Levels\<close>

definition LEVEL_NONE :: int where "LEVEL_NONE = -1"
definition LEVEL_FATAL :: int where "LEVEL_FATAL = 0"
definition LEVEL_ERROR :: int where "LEVEL_ERROR = 1"
definition LEVEL_WARN :: int where "LEVEL_WARN = 2"
definition LEVEL_INFO :: int where "LEVEL_INFO = 3"
definition LEVEL_DEBUG :: int where "LEVEL_DEBUG = 4"
definition LEVEL_TRACE :: int where "LEVEL_TRACE = 5"

lemmas levels = LEVEL_NONE_def LEVEL_FATAL_def LEVEL_ERROR_def LEVEL_WARN_def LEVEL_INFO_def
  LEVEL_DEBUG_def LEVEL_TRACE_def

definition get_level :: "bytes \<Rightarrow> int" where
  "get_level name =
     (if name = lit ''trace'' then LEVEL_TRACE
      else if name = lit ''debug'' then LEVEL_DEBUG
      else if name = lit ''info'' then LEVEL_INFO
      else if name = lit ''warn'' then LEVEL_WARN
      else if name = lit ''error'' then LEVEL_ERROR
      else if name = lit ''fatal'' then LEVEL_FATAL
      else if name = lit ''none'' then LEVEL_NONE
      else LEVEL_DEBUG)"

definition level_name :: "int \<Rightarrow> bytes" where
  "level_name level =
     (if level = LEVEL_FATAL then lit ''fatal''
      else if level = LEVEL_ERROR then lit ''error''
      else if level = LEVEL_WARN then lit ''warn''
      else if level = LEVEL_INFO then lit ''info''
      else if level = LEVEL_DEBUG then lit ''debug''
      else if level = LEVEL_TRACE then lit ''trace''
      else [])"

text \<open>The tag of a line; eight bytes are copied of it, also of the empty string.\<close>

definition get_level_name :: "int \<Rightarrow> bytes" where
  "get_level_name level =
     (if level = LEVEL_FATAL then lit ''[FATAL] ''
      else if level = LEVEL_ERROR then lit ''[ERROR] ''
      else if level = LEVEL_WARN then lit ''[WARN ] ''
      else if level = LEVEL_INFO then lit ''[INFO ] ''
      else if level = LEVEL_DEBUG then lit ''[DEBUG] ''
      else if level = LEVEL_TRACE then lit ''[TRACE] ''
      else [])"

definition level_of_setting :: "bytes \<Rightarrow> int" where
  "level_of_setting s =
     (let ss = strtolower s; level = LEVEL_DEBUG
      in if ss = lit ''fatal'' then LEVEL_FATAL
         else if ss = lit ''error'' then LEVEL_ERROR
         else if ss = lit ''warn'' then LEVEL_WARN
         else if ss = lit ''info'' then LEVEL_INFO
         else if ss = lit ''debug'' then LEVEL_DEBUG
         else if ss = lit ''trace'' then LEVEL_TRACE
         else level)"

section \<open>The logger and its file\<close>

record logger =
  lg_name :: bytes
  lg_level :: int
  lg_mutex :: bool
  lg_rotate_size :: u64
  w_curr :: u64
  w_total :: u64

definition logger_new :: logger where
  "logger_new = \<lparr>lg_name = [], lg_level = LEVEL_DEBUG, lg_mutex = False, lg_rotate_size = 0,
     w_curr = 0, w_total = 0\<rparr>"

text \<open>
  The rotated files with their names, in the order of their rotation, the file being written, and
  whether the descriptor is open on it.
\<close>

record log_files =
  older :: "(bytes \<times> bytes) list"
  current :: bytes
  writable :: bool

definition set_level :: "int \<Rightarrow> logger \<Rightarrow> logger" where
  "set_level level l = l\<lparr>lg_level := level\<rparr>"

definition threadsafe :: "logger \<Rightarrow> logger" where
  "threadsafe l = l\<lparr>lg_mutex := True\<rparr>"

text \<open>
  \<open>open\<close>: \<open>opened\<close> is the size of the file as \<open>fstat\<close> reports it, \<open>None\<close> when \<open>open\<close> or
  \<open>fstat\<close> fails. \<open>PATH_MAX\<close> is 1024 on iOS.
\<close>

definition PATH_MAX :: nat where "PATH_MAX = 1024"

definition logger_open :: "bytes \<Rightarrow> int \<Rightarrow> bool \<Rightarrow> u64 \<Rightarrow> u64 option \<Rightarrow> logger \<Rightarrow> int \<times> logger" where
  "logger_open filename level is_threadsafe rotate_size opened l =
     (if length filename > PATH_MAX - 20 then (-1, l)
      else let l = l\<lparr>lg_level := level\<rparr>;
               l = l\<lparr>lg_rotate_size := rotate_size\<rparr>;
               l = (if is_threadsafe then threadsafe l else l);
               l = l\<lparr>lg_name := filename\<rparr>
           in if filename = lit ''stdout'' then (0, l)
              else if filename = lit ''stderr'' then (0, l)
              else case opened of
                     None \<Rightarrow> (-1, l)
                   | Some n \<Rightarrow> (0, l\<lparr>w_curr := n\<rparr>))"

text \<open>
  \<open>rotate\<close>: the new name is the old one with the local time \<open>second\<close>, printed as \<open>%04d%02d%02d-%02d%02d%02d\<close>;
  \<open>rename\<close> replaces a file that has that name. After a failed \<open>rename\<close> or \<open>open\<close> it returns, with the
  descriptor closed.
\<close>

definition rename_file :: "bytes \<Rightarrow> bytes \<Rightarrow> (bytes \<times> bytes) list \<Rightarrow> (bytes \<times> bytes) list" where
  "rename_file newpath text fs = filter (\<lambda>g. fst g \<noteq> newpath) fs @ [(newpath, text)]"

definition log_rotate :: "bytes \<Rightarrow> bool \<Rightarrow> bool \<Rightarrow> logger \<times> log_files \<Rightarrow> logger \<times> log_files" where
  "log_rotate second renamed opened lf =
     (let (l, f) = lf; f = f\<lparr>writable := False\<rparr>;
          newpath = lg_name l @ [46] @ second
      in if \<not> renamed then (l, f)
         else let f = f\<lparr>older := rename_file newpath (current f) (older f), current := []\<rparr>
         in if \<not> opened then (l, f)
            else (l\<lparr>w_curr := 0\<rparr>, f\<lparr>writable := True\<rparr>))"

definition LEVEL_NAME_LEN :: nat where "LEVEL_NAME_LEN = 8"
definition LOG_BUF_LEN :: nat where "LOG_BUF_LEN = 4096"

text \<open>
  The buffer after \<open>vsnprintf(ptr, space, fmt, ap)\<close>, which prints at most \<open>space - 1\<close> bytes and a
  zero, and returns the length of the whole message; the code goes on behind the length it
  returned, or behind the space. The bytes that are then written to the file, and no result when
  more than the literal would be copied for an unknown level.
\<close>

definition log_line :: "bytes \<Rightarrow> int \<Rightarrow> bytes \<Rightarrow> bytes option" where
  "log_line stamp level msg =
     (if length (get_level_name level) < LEVEL_NAME_LEN then None
      else let head = stamp @ take LEVEL_NAME_LEN (get_level_name level);
               space = LOG_BUF_LEN - length head - 10;
               printed = take (space - 1) msg @ [0];
               len = length msg
           in Some (head @ take (if len > space then space else len) printed @ [10]))"

text \<open>
  \<open>logv\<close>: \<open>glevel\<close> is the level of the global logger, which the method asks whatever object it
  is called on. The time of a rotation is read after the line is written. The result is the length of
  the line, 0 for a message that is not logged.
\<close>

definition logv :: "int \<Rightarrow> bytes \<Rightarrow> bytes \<Rightarrow> bool \<Rightarrow> bool \<Rightarrow> int \<Rightarrow> bytes \<Rightarrow> logger \<times> log_files \<Rightarrow>
    (nat \<times> (logger \<times> log_files)) option" where
  "logv glevel stamp second renamed opened level msg lf =
     (if glevel < level then Some (0, lf)
      else case log_line stamp level msg of
             None \<Rightarrow> None
           | Some line \<Rightarrow>
               let (l, f) = lf; len = length line;
                   f = (if writable f then f\<lparr>current := current f @ line\<rparr> else f);
                   l = l\<lparr>w_curr := w_curr l + of_nat len\<rparr>;
                   l = l\<lparr>w_total := w_total l + of_nat len\<rparr>;
                   lf = (if lg_rotate_size l > 0 \<and> w_curr l > lg_rotate_size l
                         then log_rotate second renamed opened (l, f) else (l, f))
               in Some (len, lf))"

text \<open>
  The functions of the header work on the one global logger, whose level decides; so do the methods
  \<open>trace\<close> to \<open>fatal\<close>.
\<close>

definition log_open :: "bytes \<Rightarrow> int \<Rightarrow> bool \<Rightarrow> u64 \<Rightarrow> u64 option \<Rightarrow> logger \<times> log_files \<Rightarrow> int \<times> logger \<times> log_files" where
  "log_open filename level is_threadsafe rotate_size opened lf =
     (let (ret, l) = logger_open filename level is_threadsafe rotate_size opened (fst lf)
      in (ret, l, snd lf))"

definition log_write :: "int \<Rightarrow> bytes \<Rightarrow> bytes \<Rightarrow> bool \<Rightarrow> bool \<Rightarrow> bytes \<Rightarrow> logger \<times> log_files \<Rightarrow>
    (nat \<times> (logger \<times> log_files)) option" where
  "log_write level stamp second renamed opened msg lf =
     logv (lg_level (fst lf)) stamp second renamed opened level msg lf"

definition log_trace where
  "log_trace stamp second renamed opened msg lf = logv (lg_level (fst lf)) stamp second renamed opened LEVEL_TRACE msg lf"
definition log_debug where
  "log_debug stamp second renamed opened msg lf = logv (lg_level (fst lf)) stamp second renamed opened LEVEL_DEBUG msg lf"
definition log_info where
  "log_info stamp second renamed opened msg lf = logv (lg_level (fst lf)) stamp second renamed opened LEVEL_INFO msg lf"
definition log_warn where
  "log_warn stamp second renamed opened msg lf = logv (lg_level (fst lf)) stamp second renamed opened LEVEL_WARN msg lf"
definition log_error where
  "log_error stamp second renamed opened msg lf = logv (lg_level (fst lf)) stamp second renamed opened LEVEL_ERROR msg lf"
definition log_fatal where
  "log_fatal stamp second renamed opened msg lf = logv (lg_level (fst lf)) stamp second renamed opened LEVEL_FATAL msg lf"

text \<open>Below the level of the global logger all of them leave the files alone.\<close>

lemma log_silent:
  "lg_level (fst lf) < level \<Longrightarrow> log_write level st sec rn op msg lf = Some (0, lf)"
  "lg_level (fst lf) < LEVEL_TRACE \<Longrightarrow> log_trace st sec rn op msg lf = Some (0, lf)"
  "lg_level (fst lf) < LEVEL_DEBUG \<Longrightarrow> log_debug st sec rn op msg lf = Some (0, lf)"
  "lg_level (fst lf) < LEVEL_INFO \<Longrightarrow> log_info st sec rn op msg lf = Some (0, lf)"
  "lg_level (fst lf) < LEVEL_WARN \<Longrightarrow> log_warn st sec rn op msg lf = Some (0, lf)"
  "lg_level (fst lf) < LEVEL_ERROR \<Longrightarrow> log_error st sec rn op msg lf = Some (0, lf)"
  "lg_level (fst lf) < LEVEL_FATAL \<Longrightarrow> log_fatal st sec rn op msg lf = Some (0, lf)"
  by (simp_all add: log_write_def log_trace_def log_debug_def log_info_def log_warn_def log_error_def
      log_fatal_def logv_def)

section \<open>Level names\<close>

text \<open>
  the name of each level is read back as that level by \<open>get_level\<close> and, in either case of its
  letters, by the setter of the level.
\<close>

theorem level_names_roundtrip:
  "level \<in> {LEVEL_FATAL .. LEVEL_TRACE} \<Longrightarrow>
     get_level (level_name level) = level \<and> level_of_setting (strtoupper (level_name level)) = level"
proof -
  assume "level \<in> {LEVEL_FATAL .. LEVEL_TRACE}"
  then have "level = 0 \<or> level = 1 \<or> level = 2 \<or> level = 3 \<or> level = 4 \<or> level = 5"
    by (auto simp: levels)
  then show ?thesis
    by (auto simp: get_level_def level_name_def level_of_setting_def levels lit_def of_char_def
        strtolower_def strtoupper_def tolower_def toupper_def)
qed

lemma level_names_roundtrip_witness: "get_level (level_name 2) = 2"
  using level_names_roundtrip [of 2] by (simp add: levels)

section \<open>Lines\<close>

lemma level_name_length: "length (get_level_name level) = (if 0 \<le> level \<and> level \<le> 5 then 8 else 0)"
  by (auto simp: get_level_name_def levels lit_def)

lemma log_line_bounds_aux:
  assumes "length stamp \<le> 4000" "log_line stamp level msg = Some line"
  shows "length line \<le> LOG_BUF_LEN"
  using assms by (auto simp: log_line_def LEVEL_NAME_LEN_def LOG_BUF_LEN_def Let_def split: if_splits)

text \<open>
  a line fits the buffer with its terminating zero, whatever the length of the message. A
  message that fits is written as it is; a longer one is cut, and its line ends with a zero byte
  before the newline.
\<close>

theorem log_line_bounds:
  assumes "length stamp \<le> 4000" "log_line stamp level msg = Some line"
  shows "length line + 1 \<le> LOG_BUF_LEN - 8 \<and>
    (length msg < 4078 - length stamp \<longrightarrow>
       line = stamp @ get_level_name level @ msg @ [10]) \<and>
    (4078 - length stamp \<le> length msg \<longrightarrow>
       line = stamp @ get_level_name level @ take (4077 - length stamp) msg @ [0, 10])"
proof -
  have n: "length (get_level_name level) = 8"
    using assms(2) level_name_length [of level] by (auto simp: log_line_def LEVEL_NAME_LEN_def split: if_splits)
  define space where "space = 4078 - length stamp"
  have sp: "LOG_BUF_LEN - length (stamp @ take LEVEL_NAME_LEN (get_level_name level)) - 10 = space" "0 < space"
    using n assms(1) by (simp_all add: space_def LOG_BUF_LEN_def LEVEL_NAME_LEN_def)
  have line: "line = stamp @ get_level_name level @
      take (if length msg > space then space else length msg) (take (space - 1) msg @ [0]) @ [10]"
    using assms(2) n unfolding log_line_def Let_def sp by (simp add: LEVEL_NAME_LEN_def)
  show ?thesis
  proof (cases "length msg < space")
    case True
    then show ?thesis using line n assms(1) by (auto simp: space_def LOG_BUF_LEN_def)
  next
    case False
    then have "take (if length msg > space then space else length msg) (take (space - 1) msg @ [0]) =
        take (space - 1) msg @ [0]" using sp(2) by auto
    with False show ?thesis using line n assms(1) sp(2) by (auto simp: space_def LOG_BUF_LEN_def)
  qed
qed

lemma log_line_bounds_witness: "\<exists>line. log_line (replicate 24 48) 3 [104, 105] = Some line \<and> length line = 35"
proof -
  obtain line where l: "log_line (replicate 24 48) 3 [104, 105] = Some line"
    using level_name_length [of 3] by (auto simp: log_line_def LEVEL_NAME_LEN_def Let_def)
  have "length (replicate 24 (48 :: u8)) \<le> 4000" by simp
  from log_line_bounds [OF this l] show ?thesis using l level_name_length [of 3] by simp
qed


section \<open>Rotation\<close>

text \<open>The messages of a client, with the outcomes of the system calls, one after the other.\<close>

record message =
  m_stamp :: bytes
  m_second :: bytes
  m_level :: int
  m_text :: bytes

definition message_ok :: "message \<Rightarrow> bool" where
  "message_ok m \<longleftrightarrow> length (m_stamp m) \<le> 4000 \<and> 0 \<le> m_level m \<and> m_level m \<le> 5"

fun log_run :: "int \<Rightarrow> bool \<Rightarrow> message list \<Rightarrow> logger \<times> log_files \<Rightarrow> (logger \<times> log_files) option" where
  "log_run glevel works [] lf = Some lf"
| "log_run glevel works (m # ms) lf =
     (case logv glevel (m_stamp m) (m_second m) works works (m_level m) (m_text m) lf of
        None \<Rightarrow> None
      | Some (n, lf') \<Rightarrow> log_run glevel works ms lf')"

definition text_of :: "int \<Rightarrow> message \<Rightarrow> bytes" where
  "text_of glevel m =
     (if glevel < m_level m then []
      else case log_line (m_stamp m) (m_level m) (m_text m) of None \<Rightarrow> [] | Some line \<Rightarrow> line)"

definition all_text :: "log_files \<Rightarrow> bytes" where
  "all_text f = concat (map snd (older f)) @ current f"

text \<open>The rotations of a run, each with the name it gives and the file it moves there.\<close>

definition rename_all :: "(bytes \<times> bytes) list \<Rightarrow> (bytes \<times> bytes) list \<Rightarrow> (bytes \<times> bytes) list" where
  "rename_all rs fs = fold (\<lambda>(newpath, text). rename_file newpath text) rs fs"

lemma rename_all_Nil [simp]: "rename_all [] fs = fs"
  and rename_all_append: "rename_all (rs @ [(n, c)]) fs = rename_file n c (rename_all rs fs)"
  and rename_all_Cons: "rename_all ((n, c) # rs) fs = rename_all rs (rename_file n c fs)"
  by (simp_all add: rename_all_def)

lemma renamed_names:
  "distinct (map fst fs) \<Longrightarrow> distinct (map fst (rename_file n c fs))"
  "set (map fst (rename_file n c fs)) = insert n (set (map fst fs))"
  by (auto simp: rename_file_def distinct_map_filter)

lemma filtered_text:
  "(\<And>g. g \<in> set fs \<Longrightarrow> snd g \<noteq> []) \<Longrightarrow> n \<in> set (map fst fs) \<Longrightarrow>
     length (concat (map snd (filter (\<lambda>g. fst g \<noteq> n) fs))) < length (concat (map snd fs))"
  "length (concat (map snd (filter (\<lambda>g. fst g \<noteq> n) fs))) \<le> length (concat (map snd fs))"
proof -
  show le: "length (concat (map snd (filter (\<lambda>g. fst g \<noteq> n) fs))) \<le> length (concat (map snd fs))" for fs :: "('a \<times> 'b list) list"
    by (induction fs) auto
  show "(\<And>g. g \<in> set fs \<Longrightarrow> snd g \<noteq> []) \<Longrightarrow> n \<in> set (map fst fs) \<Longrightarrow>
     length (concat (map snd (filter (\<lambda>g. fst g \<noteq> n) fs))) < length (concat (map snd fs))"
  proof (induction fs)
    case (Cons g fs)
    show ?case
    proof (cases "fst g = n")
      case True
      then have "0 < length (snd g)" using Cons.prems(1) [of g] by simp
      with le [of fs] have "length (concat (map snd (filter (\<lambda>g. fst g \<noteq> n) fs))) < length (snd g) + length (concat (map snd fs))"
        by linarith
      with True show ?thesis by simp
    next
      case False
      then show ?thesis using Cons by auto
    qed
  qed simp
qed

text \<open>Renaming keeps all text exactly if no name is given twice.\<close>

lemma renamed_text:
  assumes "distinct (map fst fs)" "\<forall>g \<in> set (fs @ rs). snd g \<noteq> []"
  shows "length (concat (map snd (rename_all rs fs))) \<le> length (concat (map snd (fs @ rs))) \<and>
    (if distinct (map fst (fs @ rs)) then rename_all rs fs = fs @ rs
     else length (concat (map snd (rename_all rs fs))) < length (concat (map snd (fs @ rs))))"
  using assms
proof (induction rs arbitrary: fs)
  case (Cons r rs)
  obtain n c where r: "r = (n, c)" by fastforce
  let ?fs = "rename_file n c fs"
  have dist: "distinct (map fst ?fs)" by (rule renamed_names) (rule Cons.prems(1))
  have full: "\<forall>g \<in> set (?fs @ rs). snd g \<noteq> []" using Cons.prems(2) by (auto simp: r rename_file_def)
  note IH = Cons.IH [OF dist full]
  show ?case
  proof (cases "n \<in> set (map fst fs)")
    case True
    have "length (concat (map snd (filter (\<lambda>g. fst g \<noteq> n) fs))) < length (concat (map snd fs))"
      by (rule filtered_text(1) [OF _ True]) (use Cons.prems(2) in auto)
    then have "length (concat (map snd (?fs @ rs))) < length (concat (map snd (fs @ r # rs)))"
      by (simp add: rename_file_def r)
    moreover have "\<not> distinct (map fst (fs @ r # rs))" using True by (auto simp: r)
    ultimately show ?thesis
      using IH by (simp add: r rename_all_Cons del: map_append)
  next
    case False
    then have "filter (\<lambda>g. fst g \<noteq> n) fs = fs" by (intro filter_True) auto
    then have e: "?fs @ rs = fs @ r # rs" by (simp add: rename_file_def r)
    from IH show ?thesis unfolding e unfolding r rename_all_Cons .
  qed
qed simp

text \<open>The counter is the size of the current file, and rotated files have kept their bounds.\<close>

definition full_size :: "logger \<Rightarrow> bytes \<Rightarrow> bool" where
  "full_size l text \<longleftrightarrow>
     unat (lg_rotate_size l) < length text \<and> length text \<le> unat (lg_rotate_size l) + LOG_BUF_LEN"

definition log_inv :: "logger \<Rightarrow> log_files \<Rightarrow> bool" where
  "log_inv l f \<longleftrightarrow>
     writable f \<and> unat (w_curr l) = length (current f) \<and>
     0 < lg_rotate_size l \<and> unat (lg_rotate_size l) + LOG_BUF_LEN < 2 ^ 64 \<and>
     length (current f) \<le> unat (lg_rotate_size l) \<and> distinct (map fst (older f)) \<and>
     (\<forall>g \<in> set (older f). full_size l (snd g))"

definition rotation_name :: "logger \<Rightarrow> message \<Rightarrow> bytes" where
  "rotation_name l m = lg_name l @ [46] @ m_second m"

text \<open>
  A message in such a state: it may rotate, under the name of its second, what has been written so
  far, which is not less than its own line.
\<close>

lemma logv_step:
  assumes inv: "log_inv l f" and m: "message_ok m"
  shows "\<exists>n l' f' rs. logv glevel (m_stamp m) (m_second m) True True (m_level m) (m_text m) (l, f) = Some (n, (l', f')) \<and>
    n = length (text_of glevel m) \<and> log_inv l' f' \<and> lg_rotate_size l' = lg_rotate_size l \<and> lg_name l' = lg_name l \<and>
    older f' = rename_all rs (older f) \<and> (\<forall>r \<in> set rs. full_size l (snd r) \<and> fst r = rotation_name l m) \<and>
    concat (map snd rs) @ current f' = current f @ text_of glevel m \<and> w_total l' = w_total l + of_nat n"
proof (cases "glevel < m_level m")
  case True
  then show ?thesis using inv by (intro exI [of _ "[]"] exI conjI) (auto simp: logv_def text_of_def)
next
  case False
  have "length (get_level_name (m_level m)) = 8" using m by (simp add: level_name_length message_ok_def)
  then obtain line where line: "log_line (m_stamp m) (m_level m) (m_text m) = Some line"
    by (simp add: log_line_def LEVEL_NAME_LEN_def Let_def)
  have len: "length line \<le> LOG_BUF_LEN"
    using log_line_bounds_aux [OF _ line] m by (simp add: message_ok_def)
  let ?l = "l\<lparr>w_curr := w_curr l + of_nat (length line), w_total := w_total l + of_nat (length line)\<rparr>"
  let ?f = "f\<lparr>current := current f @ line\<rparr>"
  have w: "unat (w_curr l + of_nat (length line)) = length (current f @ line)"
  proof -
    have "length (current f) + length line < 2 ^ 64" using inv len by (auto simp: log_inv_def)
    then show ?thesis using inv by (simp add: log_inv_def unat_word_ariths unat_of_nat)
  qed
  have t: "text_of glevel m = line" using False line by (simp add: text_of_def)
  have rot: "0 < lg_rotate_size l" using inv by (simp add: log_inv_def)
  show ?thesis
  proof (cases "w_curr l + of_nat (length line) > lg_rotate_size l")
    case True
    let ?r = "(rotation_name l m, current f @ line)"
    let ?f' = "f\<lparr>older := rename_file (rotation_name l m) (current f @ line) (older f), current := [], writable := True\<rparr>"
    have "unat (lg_rotate_size l) < length (current f @ line)"
      using True unfolding w [symmetric] by (simp add: word_less_nat_alt)
    then have full: "full_size l (current f @ line)" using inv len by (simp add: full_size_def log_inv_def)
    have run: "logv glevel (m_stamp m) (m_second m) True True (m_level m) (m_text m) (l, f) =
        Some (length line, (?l\<lparr>w_curr := 0\<rparr>, ?f'))"
      using True False rot line inv by (simp add: logv_def Let_def log_inv_def log_rotate_def rotation_name_def)
    moreover have "log_inv (?l\<lparr>w_curr := 0\<rparr>) ?f'"
      using inv full renamed_names(1) by (auto simp: log_inv_def full_size_def rename_file_def distinct_map_filter)
    ultimately show ?thesis
      using full t
      by (intro exI [of _ "length line"] exI [of _ "?l\<lparr>w_curr := 0\<rparr>"] exI [of _ ?f'] exI [of _ "[?r]"])
        (simp add: rename_all_Cons)
  next
    case no: False
    then have "length (current f @ line) \<le> unat (lg_rotate_size l)"
      unfolding w [symmetric] by (simp add: word_less_nat_alt)
    moreover have "logv glevel (m_stamp m) (m_second m) True True (m_level m) (m_text m) (l, f) = Some (length line, (?l, ?f))"
      using no False rot line inv by (simp add: logv_def Let_def log_inv_def)
    moreover have "log_inv ?l ?f" using calculation(1) inv w by (auto simp: log_inv_def full_size_def)
    ultimately show ?thesis
      using t by (intro exI [of _ "length line"] exI [of _ ?l] exI [of _ ?f] exI [of _ "[]"]) simp
  qed
qed

lemma log_run_spec:
  "log_inv l f \<Longrightarrow> \<forall>m \<in> set ms. message_ok m \<Longrightarrow>
     \<exists>l' f' rs. log_run glevel True ms (l, f) = Some (l', f') \<and> log_inv l' f' \<and>
       lg_rotate_size l' = lg_rotate_size l \<and> lg_name l' = lg_name l \<and>
       older f' = rename_all rs (older f) \<and> (\<forall>r \<in> set rs. full_size l (snd r) \<and> fst r \<in> rotation_name l ` set ms) \<and>
       concat (map snd rs) @ current f' = current f @ concat (map (text_of glevel) ms) \<and>
       w_total l' = w_total l + of_nat (length (concat (map (text_of glevel) ms)))"
proof (induction ms arbitrary: l f)
  case Nil
  then show ?case by (intro exI [of _ "[]"] exI conjI) auto
next
  case (Cons m ms)
  have "message_ok m" using Cons.prems(2) by simp
  from logv_step [OF Cons.prems(1) this, of glevel] obtain n l1 f1 rs where
    s: "logv glevel (m_stamp m) (m_second m) True True (m_level m) (m_text m) (l, f) = Some (n, (l1, f1))"
    "n = length (text_of glevel m)" "log_inv l1 f1" "lg_rotate_size l1 = lg_rotate_size l" "lg_name l1 = lg_name l"
    "older f1 = rename_all rs (older f)" "\<forall>r \<in> set rs. full_size l (snd r) \<and> fst r = rotation_name l m"
    "concat (map snd rs) @ current f1 = current f @ text_of glevel m" "w_total l1 = w_total l + of_nat n" by blast
  have same: "full_size l1 = full_size l" "rotation_name l1 = rotation_name l"
    using s(4,5) by (simp_all add: full_size_def rotation_name_def fun_eq_iff)
  have "\<forall>m \<in> set ms. message_ok m" using Cons.prems(2) by simp
  from Cons.IH [OF s(3) this] obtain l2 f2 rs' where
    r: "log_run glevel True ms (l1, f1) = Some (l2, f2)" "log_inv l2 f2" "lg_rotate_size l2 = lg_rotate_size l1"
    "lg_name l2 = lg_name l1" "older f2 = rename_all rs' (older f1)"
    "\<forall>r \<in> set rs'. full_size l (snd r) \<and> fst r \<in> rotation_name l ` set ms"
    "concat (map snd rs') @ current f2 = current f1 @ concat (map (text_of glevel) ms)"
    "w_total l2 = w_total l1 + of_nat (length (concat (map (text_of glevel) ms)))"
    unfolding same by blast
  have "older f2 = rename_all (rs @ rs') (older f)" using r(5) s(6) by (simp add: rename_all_def)
  moreover have "concat (map snd (rs @ rs')) @ current f2 = current f @ concat (map (text_of glevel) (m # ms))"
  proof -
    have "concat (map snd (rs @ rs')) @ current f2 = concat (map snd rs) @ (concat (map snd rs') @ current f2)" by simp
    also have "\<dots> = (concat (map snd rs) @ current f1) @ concat (map (text_of glevel) ms)" unfolding r(7) by simp
    finally show ?thesis unfolding s(8) by simp
  qed
  moreover have "\<forall>r \<in> set (rs @ rs'). full_size l (snd r) \<and> fst r \<in> rotation_name l ` set (m # ms)"
    using r(6) s(7) by auto
  ultimately show ?case
    using r(1-4) s(1,2,4,5) by (intro exI [of _ l2] exI [of _ f2] exI [of _ "rs @ rs'"]) (simp add: r(8) s(9))
qed



text \<open>Two rotations in one second, of a logger that rotates at 9 bytes: the first line is in no file.\<close>

lemma same_second_loses:
  "\<exists>l' f'. log_run 4 True
      [\<lparr>m_stamp = [49], m_second = sec, m_level = 2, m_text = [104, 105]\<rparr>,
       \<lparr>m_stamp = [49], m_second = sec, m_level = 2, m_text = [104]\<rparr>]
      (logger_new\<lparr>lg_rotate_size := 9\<rparr>, \<lparr>older = [], current = [], writable = True\<rparr>) = Some (l', f') \<and>
    all_text f' = [49] @ get_level_name 2 @ [104, 10]"
  using level_name_length [of 2]
  by (simp add: logv_def log_line_def LEVEL_NAME_LEN_def LOG_BUF_LEN_def Let_def log_rotate_def
      rename_file_def all_text_def logger_new_def)

text \<open>
  When the renaming fails, the descriptor stays closed: the following message is counted and
  reported as written, and is in no file.
\<close>

lemma log_rename_failure:
  assumes "glevel \<ge> 3" "\<not> writable f" "lg_rotate_size l = 0"
  shows "\<exists>n l'. logv glevel [49] second False False 3 [104] (l, f) = Some (n, (l', f)) \<and> n = 11"
  using assms level_name_length [of 3] by (simp add: logv_def log_line_def LEVEL_NAME_LEN_def LOG_BUF_LEN_def Let_def)

end
