(* ===== verification/Line.thy ===== *)
theory Line
  imports Util_Strings
begin

text \<open>
  \<open>ssdb/util/line.h\<close>: values written as lines of escaped text, and read back one by one. The
  positions of the decoder are \<open>int\<close>, and so is the length it takes from the string.
\<close>

section \<open>Operations\<close>

text \<open>The state of the encoder is the text written so far.\<close>

definition le_write :: "bytes \<Rightarrow> bytes \<Rightarrow> int \<times> bytes" where
  "le_write str val = (0, val @ str_escape str @ [10])"

definition le_write_int :: "32 word \<Rightarrow> bytes \<Rightarrow> int \<times> bytes" where
  "le_write_int n val = le_write (str_int (sint n)) val"

definition le_write_int64 :: "i64 \<Rightarrow> bytes \<Rightarrow> int \<times> bytes" where
  "le_write_int64 n val = le_write (str_i64 n) val"

record line_decoder =
  ld_buf :: bytes
  ld_len :: int
  ld_spos :: int
  ld_epos :: int

definition ld_new :: "bytes \<Rightarrow> line_decoder" where
  "ld_new s =
     \<lparr>ld_buf = s, ld_len = sint (of_nat (length s) :: 32 word), ld_spos = 0, ld_epos = 0\<rparr>"

text \<open>The loop of \<open>read\<close>, and the method: -1, or the size of the line and the line.\<close>

function ld_scan :: "bytes \<Rightarrow> int \<Rightarrow> int \<Rightarrow> int" where
  "ld_scan buf len epos =
     (if epos < len \<and> buf ! nat epos \<noteq> 10 then ld_scan buf len (epos + 1) else epos)"
  by pat_completeness auto
termination by (relation "measure (\<lambda>(_, len, epos). nat (len - epos))") auto

declare ld_scan.simps [simp del]

definition ld_read :: "line_decoder \<Rightarrow> (int \<times> bytes option) \<times> line_decoder" where
  "ld_read d =
     (let d = d\<lparr>ld_epos := ld_scan (ld_buf d) (ld_len d) (ld_epos d)\<rparr>
      in if ld_epos d \<ge> ld_len d \<or> ld_buf d ! nat (ld_epos d) \<noteq> 10 then ((-1, None), d)
         else let line = take (nat (ld_epos d - ld_spos d)) (drop (nat (ld_spos d)) (ld_buf d));
                  d = d\<lparr>ld_spos := ld_epos d + 1\<rparr>;
                  d = d\<lparr>ld_epos := ld_spos d\<rparr>;
                  ret = str_unescape line
              in ((sint (of_nat (length ret) :: 32 word), Some ret), d))"

definition ld_readline :: "line_decoder \<Rightarrow> (int \<times> bytes option) \<times> line_decoder" where
  "ld_readline d = ld_read d"

definition ld_read_int :: "line_decoder \<Rightarrow> (int \<times> int option) \<times> line_decoder" where
  "ld_read_int d =
     (let ((r, line), d) = ld_read d
      in if r = -1 then ((-1, None), d)
         else ((0, map_option (\<lambda>l. fst (str_to_int l)) line), d))"

definition ld_read_int64 :: "line_decoder \<Rightarrow> (int \<times> i64 option) \<times> line_decoder" where
  "ld_read_int64 d =
     (let ((r, line), d) = ld_read d
      in if r = -1 then ((-1, None), d)
         else ((0, map_option (\<lambda>l. fst (str_to_int64 l)) line), d))"

section \<open>What the decoder has not read yet\<close>

definition ld_rest :: "line_decoder \<Rightarrow> bytes" where
  "ld_rest d = drop (nat (ld_spos d)) (ld_buf d)"

definition ld_ok :: "line_decoder \<Rightarrow> bool" where
  "ld_ok d \<longleftrightarrow> ld_len d = int (length (ld_buf d)) \<and> length (ld_buf d) < 2 ^ 31 \<and>
     ld_epos d = ld_spos d \<and> 0 \<le> ld_spos d \<and> ld_spos d \<le> ld_len d"

lemma sint32_small: "n < 2 ^ 31 \<Longrightarrow> sint (of_nat n :: 32 word) = int n"
  by (simp add: signed_of_nat signed_take_bit_int_eq_self)

lemma ld_ok_new: "length s < 2 ^ 31 \<Longrightarrow> ld_ok (ld_new s) \<and> ld_rest (ld_new s) = s"
  by (simp add: ld_ok_def ld_new_def ld_rest_def sint32_small)

lemma ld_scan_stop:
  "0 \<le> e \<Longrightarrow> drop (nat e) buf = l @ 10 # r \<Longrightarrow> 10 \<notin> set l \<Longrightarrow>
     ld_scan buf (int (length buf)) e = e + int (length l) \<and> nat (e + int (length l)) < length buf \<and>
     buf ! nat (e + int (length l)) = 10"
proof (induction l arbitrary: e)
  case Nil
  then have "nat e < length buf" "buf ! nat e = 10"
    by (simp_all add: nth_via_drop) (metis drop_eq_Nil list.distinct(1) not_le)
  then show ?case by (subst ld_scan.simps) (simp add: Nil)
next
  case (Cons c l)
  have "nat e < length buf" "buf ! nat e = c"
    using Cons.prems by (simp_all add: nth_via_drop) (metis drop_eq_Nil list.distinct(1) not_le)
  moreover have "drop (nat (e + 1)) buf = l @ 10 # r"
    using Cons.prems by (metis Suc_nat_eq_nat_zadd1 add.commute append_Cons drop_Suc list.sel(3) tl_drop)
  ultimately show ?case
    using Cons.IH [of "e + 1"] Cons.prems by (subst ld_scan.simps) (simp add: algebra_simps)
qed

lemma ld_read_line:
  assumes "ld_ok d" "ld_rest d = l @ 10 # r" "10 \<notin> set l" "length (str_unescape l) < 2 ^ 31"
  shows "\<exists>d'. ld_read d = ((int (length (str_unescape l)), Some (str_unescape l)), d') \<and>
    ld_ok d' \<and> ld_rest d' = r"
proof -
  have ok: "ld_len d = int (length (ld_buf d))" "ld_epos d = ld_spos d" "0 \<le> ld_spos d"
    using assms(1) by (simp_all add: ld_ok_def)
  have rest: "drop (nat (ld_spos d)) (ld_buf d) = l @ 10 # r" using assms(2) by (simp add: ld_rest_def)
  note scan = ld_scan_stop [OF ok(3) rest assms(3)]
  have "ld_spos d + int (length l) < int (length (ld_buf d))" using scan ok(3) by linarith
  note scan = scan this
  have e: "nat (1 + (ld_spos d + int (length l))) = Suc (length l) + nat (ld_spos d)" using ok(3) by simp
  have "drop (nat (1 + (ld_spos d + int (length l)))) (ld_buf d) = r"
    unfolding e drop_drop [symmetric] rest by simp
  then show ?thesis
    using scan ok assms(1) rest
    by (simp add: ld_read_def Let_def ld_ok_def ld_rest_def sint32_small [OF assms(4)] add.commute)
qed


text \<open>Text without a complete line is an error, and stays one.\<close>

lemma ld_scan_end:
  "0 \<le> e \<Longrightarrow> 10 \<notin> set (drop (nat e) buf) \<Longrightarrow> e \<le> int (length buf) \<Longrightarrow>
     ld_scan buf (int (length buf)) e = int (length buf)"
proof (induction buf "int (length buf)" e rule: ld_scan.induct)
  case (1 buf e)
  show ?case
  proof (cases "e < int (length buf)")
    case True
    then have ne: "nat e < length buf" using "1.prems"(1) by simp
    then have "buf ! nat e \<in> set (drop (nat e) buf)" by (metis Cons_nth_drop_Suc list.set_intros(1))
    moreover have "10 \<notin> set (drop (nat (e + 1)) buf)"
      using "1.prems"(1,2) ne by (metis Cons_nth_drop_Suc Suc_nat_eq_nat_zadd1 add.commute list.set_intros(2))
    ultimately show ?thesis
      using "1.hyps" "1.prems" True by (subst ld_scan.simps) fastforce
  next
    case False
    with "1.prems" show ?thesis by (subst ld_scan.simps) simp
  qed
qed

lemma ld_read_end:
  assumes "ld_ok d" "10 \<notin> set (ld_rest d)"
  shows "fst (ld_read d) = (-1, None)"
  using ld_scan_end [of "ld_spos d" "ld_buf d"] assms
  by (simp add: ld_read_def Let_def ld_ok_def ld_rest_def)

section \<open>Round trip\<close>

lemma hex_digit_no_newline: "hex_digit (drop_bit 4 c) \<noteq> 10" "hex_digit (c AND 15) \<noteq> 10"
proof -
  have "hex_digit d \<noteq> 10" if "d < 16" for d
  proof
    assume "hex_digit d = 10"
    then have "hex_int (hex_digit d) = hex_int 10" by simp
    then have "d = hex_int 10" using that by (simp add: hex_int_hex_digit)
    then show False using that by (simp add: hex_int_def)
  qed
  then show "hex_digit (drop_bit 4 c) \<noteq> 10" "hex_digit (c AND 15) \<noteq> 10"
    using nibble_bounds by blast+
qed

lemma str_escape_no_newline: "10 \<notin> set (str_escape s)"
proof (induction s)
  case (Cons c s)
  have "10 \<notin> set (escape_char c)" using hex_digit_no_newline [of c] by (auto simp: escape_char_def)
  with Cons show ?case by simp
qed simp

lemma length_str_escape: "length s \<le> length (str_escape s)"
proof (induction s)
  case (Cons c s)
  have "1 \<le> length (escape_char c)" by (simp add: escape_char_def)
  with Cons show ?case by simp
qed simp

lemma length_escape_le: "length (str_escape s) \<le> 4 * length s"
proof (induction s)
  case (Cons c s)
  have "length (escape_char c) \<le> 4" by (simp add: escape_char_def)
  with Cons show ?case by simp
qed simp

text \<open>The values a message is made of, and the readers for them.\<close>

datatype line_value = IStr bytes | IInt "32 word" | IInt64 i64
datatype kind = KStr | KInt | KInt64

fun kind_of :: "line_value \<Rightarrow> kind" where
  "kind_of (IStr s) = KStr" | "kind_of (IInt n) = KInt" | "kind_of (IInt64 n) = KInt64"

fun put_item :: "line_value \<Rightarrow> bytes \<Rightarrow> bytes" where
  "put_item (IStr s) val = snd (le_write s val)"
| "put_item (IInt n) val = snd (le_write_int n val)"
| "put_item (IInt64 n) val = snd (le_write_int64 n val)"

fun get_item :: "kind \<Rightarrow> line_decoder \<Rightarrow> line_value option \<times> line_decoder" where
  "get_item KStr d = (let ((r, v), d) = ld_read d in (map_option IStr v, d))"
| "get_item KInt d = (let ((r, v), d) = ld_read_int d in (map_option (\<lambda>i. IInt (of_int i)) v, d))"
| "get_item KInt64 d = (let ((r, v), d) = ld_read_int64 d in (map_option IInt64 v, d))"

fun get_items :: "kind list \<Rightarrow> line_decoder \<Rightarrow> line_value option list \<times> line_decoder" where
  "get_items [] d = ([], d)"
| "get_items (k # ks) d =
     (let (x, d) = get_item k d; (xs, d) = get_items ks d in (x # xs, d))"

fun item_text :: "line_value \<Rightarrow> bytes" where
  "item_text (IStr s) = s" | "item_text (IInt n) = str_int (sint n)" | "item_text (IInt64 n) = str_i64 n"

lemma put_item_text: "put_item x val = val @ str_escape (item_text x) @ [10]"
  by (cases x) (simp_all add: le_write_def le_write_int_def le_write_int64_def)

lemma str_to_int_str_int: "fst (str_to_int (str_int (sint (n :: 32 word)))) = sint n"
proof -
  have b: "- (2 ^ 31) \<le> sint n" "sint n < 2 ^ 31"
    using sint_range_size [of n] by (simp_all add: word_size)
  then have "int64_min \<le> sint n" "sint n \<le> int64_max" by (simp_all add: int64_min_def int64_max_def)
  then have "strtoll (str_int (sint n)) = (sint n, length (dec_int (sint n)))"
    using length_dec_int [of "sint n"] strtoll_dec_int [of "sint n"] by (simp add: str_int_def)
  moreover have "sint (word_of_int (sint n) :: 32 word) = sint n" by simp
  ultimately show ?thesis by (simp add: str_to_int_def)
qed

lemma get_item_line:
  assumes "ld_ok d" "ld_rest d = str_escape (item_text x) @ 10 # r"
  shows "\<exists>d'. get_item (kind_of x) d = (Some x, d') \<and> ld_ok d' \<and> ld_rest d' = r"
proof -
  have "length (item_text x) \<le> length (ld_rest d)"
    unfolding assms(2) using length_str_escape [of "item_text x"] by simp
  also have "\<dots> \<le> length (ld_buf d)" by (simp add: ld_rest_def)
  also have "\<dots> < 2 ^ 31" using assms(1) by (simp add: ld_ok_def)
  finally have len: "length (str_unescape (str_escape (item_text x))) < 2 ^ 31"
    by (simp add: str_escape_roundtrip)
  from ld_read_line [OF assms str_escape_no_newline len] obtain d' where
    d': "ld_read d = ((int (length (item_text x)), Some (item_text x)), d')" "ld_ok d'" "ld_rest d' = r"
    by (auto simp: str_escape_roundtrip)
  have pos: "int (length (item_text x)) \<noteq> -1" by simp
  from d' pos show ?thesis
    by (cases x) (auto simp: ld_read_int_def ld_read_int64_def str_to_int_str_int str_to_int64_str_i64)
qed

lemma get_items_lines:
  "ld_ok d \<Longrightarrow> ld_rest d = fold put_item xs [] \<Longrightarrow>
     \<exists>d'. get_items (map kind_of xs) d = (map Some xs, d') \<and> ld_ok d' \<and> ld_rest d' = []"
proof (induction xs arbitrary: d)
  case (Cons x xs)
  have app: "fold put_item ys val = val @ fold put_item ys []" for ys val
  proof (induction ys arbitrary: val)
    case (Cons y ys)
    show ?case using Cons.IH [of "put_item y val"] Cons.IH [of "put_item y []"] by (simp add: put_item_text)
  qed simp
  have "ld_rest d = put_item x [] @ fold put_item xs []"
    using Cons.prems(2) app [of xs "put_item x []"] by simp
  then have "ld_rest d = str_escape (item_text x) @ 10 # fold put_item xs []"
    by (simp add: put_item_text)
  from get_item_line [OF Cons.prems(1) this] obtain d' where
    d': "get_item (kind_of x) d = (Some x, d')" "ld_ok d'" "ld_rest d' = fold put_item xs []" by blast
  from Cons.IH [OF d'(2,3)] d'(1) show ?case by auto
qed simp

text \<open>
  what was written with the line encoder, strings of arbitrary bytes and integers of both
  widths, is what the decoder reads back, value by value, and after the last one it reports an
  error. The encoded text must be shorter than 2^31 bytes, the range of the decoder's positions.
\<close>

theorem lines_roundtrip:
  assumes "length (fold put_item xs []) < 2 ^ 31"
  shows "fst (get_items (map kind_of xs) (ld_new (fold put_item xs []))) = map Some xs \<and>
    fst (ld_read (snd (get_items (map kind_of xs) (ld_new (fold put_item xs []))))) = (-1, None)"
proof -
  have "ld_ok (ld_new (fold put_item xs []))" "ld_rest (ld_new (fold put_item xs [])) = fold put_item xs []"
    using ld_ok_new [OF assms] by simp_all
  from get_items_lines [OF this] obtain d' where
    d': "get_items (map kind_of xs) (ld_new (fold put_item xs [])) = (map Some xs, d')" "ld_ok d'" "ld_rest d' = []"
    by blast
  with ld_read_end [OF d'(2)] show ?thesis by simp
qed

lemma lines_roundtrip_witness:
  "fst (get_items [KStr, KInt, KStr, KInt64]
     (ld_new (fold put_item [IStr [0, 10, 92, 255], IInt (- 7), IStr [], IInt64 5] []))) =
   [Some (IStr [0, 10, 92, 255]), Some (IInt (- 7)), Some (IStr []), Some (IInt64 5)]"
proof -
  have "length (str_int (sint (- 7 :: 32 word))) \<le> 20" "length (str_i64 5) \<le> 20"
    by (simp_all add: str_int_def length_str_i64)
  then have "length (fold put_item [IStr [0, 10, 92, 255], IInt (- 7), IStr [], IInt64 5] []) < 2 ^ 31"
    using length_escape_le [of "str_int (sint (- 7 :: 32 word))"] length_escape_le [of "str_i64 5"]
    by (simp add: put_item_text escape_char_def)
  from lines_roundtrip [OF this] show ?thesis by simp
qed

end
