(* ===== verification/App.thy ===== *)
theory App
  imports Config Log Line
begin

text \<open>
  \<open>util/app.h\<close>, \<open>util/app.cpp\<close>, \<open>util/file.h\<close>, \<open>util/daemon.h\<close> and \<open>real_dirname\<close> of
  \<open>util/strings.h\<close>: the frame of a server process with its arguments, its configuration and its
  pid file. What the operating system does is the record \<open>world\<close>: the files and how names are
  resolved, the answers of \<open>kill\<close> and \<open>fork\<close>. Messages to the terminal are left out.
\<close>

section \<open>The system\<close>

datatype kill_answer = Sent | No_process | Not_permitted
datatype fork_answer = Fork_failed | In_parent | In_child int bool

text \<open>
  \<open>w_room\<close> says how many bytes a write to a file may store, \<open>None\<close> when it cannot be opened;
  \<open>In_child\<close> holds the number of the new process and whether the calls after \<open>fork\<close> succeed.
\<close>

record world =
  w_resolve :: "bytes \<Rightarrow> bytes \<Rightarrow> bytes"
  w_cwd :: bytes
  w_files :: "bytes \<rightharpoonup> bytes"
  w_dirs :: "bytes set"
  w_room :: "bytes \<Rightarrow> nat option"
  w_log :: "bytes \<Rightarrow> u64 option"
  w_kill :: "int \<Rightarrow> int \<Rightarrow> kill_answer"
  w_fork :: fork_answer
  w_pid :: int
  w_sent :: "(int \<times> int) list"

definition w_path :: "world \<Rightarrow> bytes \<Rightarrow> bytes" where
  "w_path w p = w_resolve w (w_cwd w) p"

section \<open>Files\<close>

definition file_exists :: "world \<Rightarrow> bytes \<Rightarrow> bool" where
  "file_exists w p \<longleftrightarrow> w_files w (w_path w p) \<noteq> None \<or> w_path w p \<in> w_dirs w"

definition is_dir :: "world \<Rightarrow> bytes \<Rightarrow> bool" where
  "is_dir w p = (if \<not> file_exists w p then False else w_path w p \<in> w_dirs w)"

definition is_file :: "world \<Rightarrow> bytes \<Rightarrow> bool" where
  "is_file w p = (if \<not> file_exists w p then False else w_path w p \<notin> w_dirs w)"

text \<open>A directory opens, but reading it fails at once.\<close>

definition file_get_contents :: "world \<Rightarrow> bytes \<Rightarrow> int \<times> bytes" where
  "file_get_contents w p =
     (case w_files w (w_path w p) of
        Some c \<Rightarrow> (sint (of_nat (length c) :: 32 word), c)
      | None \<Rightarrow> (if w_path w p \<in> w_dirs w then (0, []) else (-1, [])))"

definition file_put_contents :: "bytes \<Rightarrow> bytes \<Rightarrow> world \<Rightarrow> int \<times> world" where
  "file_put_contents p c w =
     (case w_room w (w_path w p) of
        None \<Rightarrow> (-1, w)
      | Some n \<Rightarrow>
          let w = w\<lparr>w_files := (w_files w)(w_path w p \<mapsto> take n c)\<rparr>;
              ret = min n (length c)
          in (if ret = length c then sint (of_nat ret :: 32 word) else -1, w))"

definition real_dirname :: "bytes option \<Rightarrow> bytes \<Rightarrow> bytes" where
  "real_dirname getcwd p =
     (let dir = (if \<not> (p \<noteq> [] \<and> hd p = 47)
                 then (case getcwd of None \<Rightarrow> [] | Some b \<Rightarrow> b) @ [47] else [])
      in if 47 \<in> set p then dir @ rev (tl (dropWhile (\<lambda>c. c \<noteq> 47) (rev p))) else dir)"

section \<open>Arguments\<close>

record app_args =
  is_daemon :: bool
  pidfile :: bytes
  conf_file :: bytes
  work_dir :: bytes
  start_opt :: bytes

definition args_new :: app_args where
  "args_new = \<lparr>is_daemon = False, pidfile = [], conf_file = [], work_dir = [], start_opt = lit ''start''\<rparr>"

text \<open>\<open>Inl\<close> is the status of an \<open>exit\<close>.\<close>

fun parse_from :: "bytes list \<Rightarrow> app_args \<Rightarrow> int + app_args" where
  "parse_from [] a = Inr a"
| "parse_from (arg # xs) a =
     (if arg = lit ''-d'' then parse_from xs (a\<lparr>is_daemon := True\<rparr>)
      else if arg = lit ''-v'' then Inl 0
      else if arg = lit ''-h'' then Inl 0
      else if arg = lit ''-s''
      then (case xs of
              [] \<Rightarrow> Inl 1
            | y # ys \<Rightarrow>
                if y \<noteq> lit ''start'' \<and> y \<noteq> lit ''stop'' \<and> y \<noteq> lit ''restart'' then Inl 1
                else parse_from ys (a\<lparr>start_opt := y\<rparr>))
      else parse_from xs (a\<lparr>conf_file := arg\<rparr>))"

definition parse_args :: "bytes list \<Rightarrow> app_args \<Rightarrow> int + app_args" where
  "parse_args argv a =
     (case parse_from (tl argv) a of
        Inl n \<Rightarrow> Inl n
      | Inr a \<Rightarrow> if conf_file a = [] then Inl 1 else Inr a)"

section \<open>The pid file\<close>

datatype status = Exit int | Go

definition read_pid :: "app_args \<Rightarrow> world \<Rightarrow> int" where
  "read_pid a w =
     (if pidfile a = [] then -1
      else let s = snd (file_get_contents w (pidfile a))
           in if s = [] then -1 else fst (str_to_int s))"

definition write_pid :: "app_args \<Rightarrow> world \<Rightarrow> status \<times> world" where
  "write_pid a w =
     (if \<not> is_daemon a then (Go, w)
      else if pidfile a = [] then (Go, w)
      else let s = str_int (w_pid w); (ret, w) = file_put_contents (pidfile a) s w
           in if ret = -1 then (Exit 1, w) else (Go, w))"

definition check_pidfile :: "app_args \<Rightarrow> world \<Rightarrow> status" where
  "check_pidfile a w =
     (if \<not> is_daemon a then Go
      else if pidfile a \<noteq> [] then if file_exists w (pidfile a) then Exit 1 else Go
      else Go)"

definition remove_pidfile :: "app_args \<Rightarrow> world \<Rightarrow> world" where
  "remove_pidfile a w =
     (if \<not> is_daemon a then w
      else if pidfile a \<noteq> [] then w\<lparr>w_files := (w_files w)(w_path w (pidfile a) := None)\<rparr>
      else w)"

text \<open>
  The wait for the pid file to go. \<open>tick\<close> is what the other processes do in a tenth of a second;
  if the file stays, the wait does not end.
\<close>

partial_function (option) wait_gone :: "(world \<Rightarrow> world) \<Rightarrow> bytes \<Rightarrow> world \<Rightarrow> world option" where
  "wait_gone tick p w = (if file_exists w p then wait_gone tick p (tick w) else Some w)"

definition kill_process :: "(world \<Rightarrow> world) \<Rightarrow> app_args \<Rightarrow> world \<Rightarrow> (status \<times> world) option" where
  "kill_process tick a w =
     (let pid = read_pid a w
      in if pid = -1 then Some (Exit 1, w)
         else if w_kill w pid 0 = No_process then Some (Go, remove_pidfile a w)
         else if w_kill w pid 15 \<noteq> Sent then Some (Exit 1, w)
         else let w = w\<lparr>w_sent := w_sent w @ [(pid, 15)]\<rparr>
              in map_option (Pair Go) (wait_gone tick (pidfile a) w))"

section \<open>Starting\<close>

text \<open>\<open>daemonize(NULL)\<close>, whose result nobody looks at: after a failed \<open>fork\<close> the process goes on.\<close>

definition daemonize :: "world \<Rightarrow> status \<times> world" where
  "daemonize w =
     (case w_fork w of
        Fork_failed \<Rightarrow> (Go, w)
      | In_parent \<Rightarrow> (Exit 0, w)
      | In_child p steps_ok \<Rightarrow> if \<not> steps_ok then (Exit 0, w) else (Go, w\<lparr>w_pid := p\<rparr>))"

text \<open>The logger part of \<open>init\<close>. Opening a file creates it.\<close>

definition init_log :: "config \<Rightarrow> logger \<Rightarrow> world \<Rightarrow> status \<times> logger \<times> world" where
  "init_log conf l w =
     (let level_text = strtolower (get_str (lit ''logger.level'') conf);
          level_text = (if level_text = [] then lit ''debug'' else level_text);
          level = get_level level_text;
          rotate = get_int64 (lit ''logger.rotate.size'') conf;
          out = get_str (lit ''logger.output'') conf;
          out = (if out = [] then lit ''stdout'' else out);
          opened = w_log w (w_path w out);
          (ret, l) = logger_open out level True rotate opened l;
          w = (if ret = 0 \<and> out \<noteq> lit ''stdout'' \<and> out \<noteq> lit ''stderr'' \<and> w_files w (w_path w out) = None
               then w\<lparr>w_files := (w_files w)(w_path w out \<mapsto> [])\<rparr> else w)
      in if ret = -1 then (Exit 1, l, w) else (Go, l, w))"

definition init_rest :: "config \<Rightarrow> app_args \<Rightarrow> logger \<Rightarrow> world \<Rightarrow> status \<times> app_args \<times> logger \<times> world" where
  "init_rest conf a l w =
     (case check_pidfile a w of
        Exit n \<Rightarrow> (Exit n, a, l, w)
      | Go \<Rightarrow>
          case init_log conf l w of
            (Exit n, l, w) \<Rightarrow> (Exit n, a, l, w)
          | (Go, l, w) \<Rightarrow>
              let a = a\<lparr>work_dir := get_str (lit ''work_dir'') conf\<rparr>;
                  a = (if work_dir a = [] then a\<lparr>work_dir := lit ''.''\<rparr> else a)
              in if \<not> is_dir w (work_dir a) then (Exit 1, a, l, w)
                 else if is_daemon a then let (st, w) = daemonize w in (st, a, l, w)
                 else (Go, a, l, w))"

text \<open>\<open>None\<close> when \<open>kill_process\<close> waits for ever.\<close>

definition app_init :: "(world \<Rightarrow> world) \<Rightarrow> app_args \<Rightarrow> logger \<Rightarrow> world \<Rightarrow>
    (status \<times> app_args \<times> logger \<times> world) option" where
  "app_init tick a l w =
     (if \<not> is_file w (conf_file a) then Some (Exit 1, a, l, w)
      else case config_load (Some (snd (file_get_contents w (conf_file a)), False)) of
             None \<Rightarrow> Some (Exit 1, a, l, w)
           | Some conf \<Rightarrow>
               let conf_dir = real_dirname (Some (w_cwd w)) (conf_file a)
               in if \<not> is_dir w conf_dir then Some (Exit 1, a, l, w)
               else let w = w\<lparr>w_cwd := w_path w conf_dir\<rparr>;
                        a = a\<lparr>pidfile := get_str (lit ''pidfile'') conf\<rparr>
               in if start_opt a = lit ''stop''
                  then map_option (\<lambda>(st, w). (case st of Exit n \<Rightarrow> Exit n | Go \<Rightarrow> Exit 0, a, l, w))
                         (kill_process tick a w)
                  else if start_opt a = lit ''restart'' \<and> file_exists w (pidfile a)
                  then (case kill_process tick a w of
                          None \<Rightarrow> None
                        | Some (Exit n, w) \<Rightarrow> Some (Exit n, a, l, w)
                        | Some (Go, w) \<Rightarrow> Some (init_rest conf a l w))
                  else Some (init_rest conf a l w))"

text \<open>\<open>main\<close>, with the \<open>run\<close> of the subclass. The result is the exit status.\<close>

definition app_main :: "(world \<Rightarrow> world) \<Rightarrow> (app_args \<Rightarrow> world \<Rightarrow> world option) \<Rightarrow> bytes list \<Rightarrow>
    world \<Rightarrow> (int \<times> world) option" where
  "app_main tick run argv w =
     (case parse_args argv args_new of
        Inl n \<Rightarrow> Some (n, w)
      | Inr a \<Rightarrow>
          case app_init tick a logger_new w of
            None \<Rightarrow> None
          | Some (Exit n, a, l, w) \<Rightarrow> Some (n, w)
          | Some (Go, a, l, w) \<Rightarrow>
              case write_pid a w of
                (Exit n, w) \<Rightarrow> Some (n, w)
              | (Go, w) \<Rightarrow> map_option (\<lambda>w. (0, remove_pidfile a w)) (run a w))"

section \<open>Reading the arguments\<close>

text \<open>The options in any order and number; of two that say the same thing the last one holds.\<close>

datatype app_option = As_daemon | With_action bytes | With_conf bytes

fun option_text :: "app_option \<Rightarrow> bytes list" where
  "option_text As_daemon = [lit ''-d'']"
| "option_text (With_action x) = [lit ''-s'', x]"
| "option_text (With_conf x) = [x]"

fun option_ok :: "app_option \<Rightarrow> bool" where
  "option_ok As_daemon = True"
| "option_ok (With_action x) = (x \<in> {lit ''start'', lit ''stop'', lit ''restart''})"
| "option_ok (With_conf x) = (x \<notin> {lit ''-d'', lit ''-v'', lit ''-h'', lit ''-s''})"

fun option_set :: "app_option \<Rightarrow> app_args \<Rightarrow> app_args" where
  "option_set As_daemon a = a\<lparr>is_daemon := True\<rparr>"
| "option_set (With_action x) a = a\<lparr>start_opt := x\<rparr>"
| "option_set (With_conf x) a = a\<lparr>conf_file := x\<rparr>"

lemma options_differ:
  "lit ''-s'' \<noteq> lit ''-d''" "lit ''-s'' \<noteq> lit ''-v''" "lit ''-s'' \<noteq> lit ''-h''"
  by (simp_all add: lit_def)

lemma parse_options:
  "\<forall>x \<in> set os. option_ok x \<Longrightarrow>
     parse_from (concat (map option_text os)) a = Inr (fold option_set os a)"
proof (induction os arbitrary: a)
  case (Cons x os)
  then show ?case using options_differ by (cases x) auto
qed simp

lemma parse_args_options:
  assumes "\<forall>x \<in> set os. option_ok x"
  shows "parse_args (prog # concat (map option_text os)) a =
    (let a = fold option_set os a in if conf_file a = [] then Inl 1 else Inr a)"
  using parse_options [OF assms] by (simp add: parse_args_def Let_def)

section \<open>The pid file names the running daemon\<close>

lemma wait_gone_run: "wait_gone tick p w = Some w' \<Longrightarrow> \<exists>k. w' = (tick ^^ k) w \<and> \<not> file_exists w' p"
proof (rule wait_gone.raw_induct [where P = "\<lambda>tick p w w'. \<exists>k. w' = (tick ^^ k) w \<and> \<not> file_exists w' p", rotated], assumption)
  fix f and tick :: "world \<Rightarrow> world" and p w w'
  assume IH: "\<And>tick p w w'. f tick p w = Some w' \<Longrightarrow> \<exists>k. w' = (tick ^^ k) w \<and> \<not> file_exists w' p"
    and r: "(if file_exists w p then f tick p (tick w) else Some w) = Some w'"
  show "\<exists>k. w' = (tick ^^ k) w \<and> \<not> file_exists w' p"
  proof (cases "file_exists w p")
    case True
    then obtain k where "w' = (tick ^^ k) (tick w)" "\<not> file_exists w' p" using IH [of tick p "tick w" w'] r by auto
    then show ?thesis by (intro exI [of _ "Suc k"]) (simp add: funpow_swap1)
  next
    case False
    then show ?thesis using r by (intro exI [of _ 0]) simp
  qed
qed

lemma wait_gone_returns:
  "\<not> file_exists ((tick ^^ k) w) p \<Longrightarrow> \<exists>j \<le> k. wait_gone tick p w = Some ((tick ^^ j) w)"
proof (induction k arbitrary: w)
  case 0
  then show ?case by (subst wait_gone.simps) simp
next
  case (Suc k)
  show ?case
  proof (cases "file_exists w p")
    case True
    have "\<not> file_exists ((tick ^^ k) (tick w)) p" using Suc.prems by (simp add: funpow_swap1)
    from Suc.IH [OF this] obtain j where "j \<le> k" "wait_gone tick p (tick w) = Some ((tick ^^ j) (tick w))" by blast
    with True show ?thesis
      by (subst wait_gone.simps) (intro exI [of _ "Suc j"], simp add: funpow_swap1)
  next
    case False
    then show ?thesis by (subst wait_gone.simps) (intro exI [of _ 0], simp)
  qed
qed

lemma wait_gone_iff: "wait_gone tick p w \<noteq> None \<longleftrightarrow> (\<exists>k. \<not> file_exists ((tick ^^ k) w) p)"
  using wait_gone_run wait_gone_returns by (metis not_None_eq)

text \<open>
  C35: a daemon, started with \<open>-d\<close>, has written its number into its pid file. A second start with that
  file is refused if it too has \<open>-d\<close>, and only then. A stop of a process that is gone returns, and
  removes the file if and only if it has \<open>-d\<close>; if the signal is refused it exits with 1; otherwise it
  has sent SIGTERM to that process, and returns if and only if the file goes away. After the daemon
  has removed its file a start is possible. The file can be written, and is not a directory.
\<close>

theorem pidfile_protocol:
  assumes "is_daemon a" "pidfile a \<noteq> []" "w_path w (pidfile a) \<notin> w_dirs w"
    and "w_room w (w_path w (pidfile a)) = Some n" "20 \<le> n"
    and "0 < w_pid w" "w_pid w < 2 ^ 31" "write_pid a w = (st, w1)" "pidfile b = pidfile a"
  shows "st = Go \<and> read_pid b w1 = w_pid w \<and>
    check_pidfile b w1 = (if is_daemon b then Exit 1 else Go) \<and>
    check_pidfile b (remove_pidfile a w1) = Go \<and>
    (if w_kill w (w_pid w) 0 = No_process
     then \<exists>w2. kill_process tick b w1 = Some (Go, w2) \<and> (file_exists w2 (pidfile a) \<longleftrightarrow> \<not> is_daemon b)
     else if w_kill w (w_pid w) 15 \<noteq> Sent then kill_process tick b w1 = Some (Exit 1, w1)
     else let w2 = w1\<lparr>w_sent := w_sent w @ [(w_pid w, 15)]\<rparr>
          in (kill_process tick b w1 \<noteq> None \<longleftrightarrow> (\<exists>k. \<not> file_exists ((tick ^^ k) w2) (pidfile a))))"
proof -
  let ?s = "str_int (w_pid w)" and ?p = "w_path w (pidfile a)"
  have s: "length ?s \<le> n" "?s \<noteq> []"
    using assms(5) by (simp_all add: str_int_def dec_int_def dec_digits_nonempty)
  have "sint (of_nat (length ?s) :: 32 word) = int (length ?s)"
    by (rule sint32_small) (simp add: str_int_def)
  then have w1: "st = Go" "w1 = w\<lparr>w_files := (w_files w)(?p \<mapsto> ?s)\<rparr>"
    using assms(1,2,4,8) s by (auto simp: write_pid_def file_put_contents_def Let_def)
  have same: "w_path w1 = w_path w" "w_kill w1 = w_kill w" "w_sent w1 = w_sent w" "w_dirs w1 = w_dirs w"
    unfolding w1(2) w_path_def by (simp_all add: fun_eq_iff)
  have "sint (of_int (w_pid w) :: 32 word) = w_pid w"
    using assms(6,7) by (simp add: signed_of_int signed_take_bit_int_eq_self)
  then have "fst (str_to_int ?s) = w_pid w"
    using str_to_int_str_int [of "of_int (w_pid w)"] by simp
  then have pid: "read_pid b w1 = w_pid w"
    using assms(2,9) s(2) by (simp add: read_pid_def file_get_contents_def same(1)) (simp add: w1(2))
  have check: "check_pidfile b w1 = (if is_daemon b then Exit 1 else Go)"
    using assms(2,9) by (simp add: check_pidfile_def file_exists_def same(1)) (simp add: w1(2))
  have rem: "check_pidfile b (remove_pidfile a w1) = Go"
    using assms(1-3,9) unfolding check_pidfile_def file_exists_def remove_pidfile_def w_path_def by (simp add: w1(2))
  have gone: "file_exists (remove_pidfile b w1) (pidfile a) \<longleftrightarrow> \<not> is_daemon b"
    using assms(2,3,9) unfolding remove_pidfile_def file_exists_def w_path_def by (simp add: w1(2) w_path_def)
  have kill: "kill_process tick b w1 =
      (if w_kill w (w_pid w) 0 = No_process then Some (Go, remove_pidfile b w1)
       else if w_kill w (w_pid w) 15 \<noteq> Sent then Some (Exit 1, w1)
       else map_option (Pair Go) (wait_gone tick (pidfile a) (w1\<lparr>w_sent := w_sent w @ [(w_pid w, 15)]\<rparr>)))"
    using assms(6,9) by (simp add: kill_process_def pid same Let_def)
  show ?thesis
    using w1(1) pid check rem wait_gone_iff gone by (simp add: kill Let_def)
qed

definition demo_world :: world where
  "demo_world = \<lparr>w_resolve = (\<lambda>d p. p), w_cwd = [47], w_files = Map.empty, w_dirs = {[47]},
     w_room = (\<lambda>p. Some 4096), w_log = (\<lambda>p. None), w_kill = (\<lambda>p s. Sent), w_fork = In_parent,
     w_pid = 42, w_sent = []\<rparr>"

lemma pidfile_protocol_witness:
  "read_pid (args_new\<lparr>is_daemon := True, pidfile := [112]\<rparr>)
     (snd (write_pid (args_new\<lparr>is_daemon := True, pidfile := [112]\<rparr>) demo_world)) = 42"
proof -
  let ?a = "args_new\<lparr>is_daemon := True, pidfile := [112]\<rparr>"
  have "is_daemon ?a" "pidfile ?a \<noteq> []" "w_path demo_world (pidfile ?a) \<notin> w_dirs demo_world"
    "w_room demo_world (w_path demo_world (pidfile ?a)) = Some 4096" "20 \<le> (4096 :: nat)"
    "0 < w_pid demo_world" "w_pid demo_world < 2 ^ 31" "w_pid demo_world = 42"
    by (simp_all add: demo_world_def w_path_def args_new_def)
  with pidfile_protocol [OF this(1-7) prod.collapse [symmetric] refl] show ?thesis by metis
qed

text \<open>
  Without \<open>-d\<close> nobody looks at the pid file or removes it: after \<open>-s stop\<close> for a process that is
  gone, the file stays, and the next start as a daemon is refused.
\<close>

lemma stop_leaves_stale_file:
  assumes "\<not> is_daemon a" "read_pid a w \<noteq> -1" "w_kill w (read_pid a w) 0 = No_process"
  shows "kill_process tick a w = Some (Go, w) \<and> (file_exists w (pidfile a) \<longrightarrow> pidfile a \<noteq> [] \<longrightarrow>
    check_pidfile (a\<lparr>is_daemon := True\<rparr>) w = Exit 1)"
  using assms by (simp add: kill_process_def remove_pidfile_def check_pidfile_def Let_def)

text \<open>A pid file that holds no number makes the signal go to process 0, the group of the caller.\<close>

lemma garbage_pid:
  assumes "pidfile a \<noteq> []" "w_files w (w_path w (pidfile a)) = Some [120]"
    and "w_kill w 0 0 = Sent" "w_kill w 0 15 = Sent"
  shows "kill_process tick a w =
    map_option (Pair Go) (wait_gone tick (pidfile a) (w\<lparr>w_sent := w_sent w @ [(0, 15)]\<rparr>))"
proof -
  have "fst (str_to_int [120]) = 0" by code_simp
  then have "read_pid a w = 0" using assms(1,2) by (simp add: read_pid_def file_get_contents_def)
  with assms(3,4) show ?thesis by (simp add: kill_process_def Let_def)
qed

text \<open>A file in the root directory has an empty name of a directory, which \<open>chdir\<close> refuses.\<close>

lemma dirname_of_root: "real_dirname cwd (lit ''/app.conf'') = []"
  by (simp add: real_dirname_def lit_def)

end
